(* ===== verification/Lava_Prelude.thy ===== *)
theory Lava_Prelude
  imports Main "HOL-Library.Word"
begin

text \<open>
  Vocabulary shared by the component theories: the C types the daemons compute with, the flag
  tests of the status words, and the list and word lemmas used by more than one component.

  Conventions. A C \<open>int\<close> that the code uses as a bit field is a \<open>32 word\<close>; a C \<open>int\<close> that it
  uses as a number is an \<open>int\<close>, and where the program computes with numbers a user supplies the
  reduction to 32 bits is written out (\<open>c_int\<close>). A pointer that may be \<open>NULL\<close> is an \<open>option\<close>.
\<close>

unbundle bit_operations_syntax

named_theorems flag_simps \<open>evaluation of flag tests on status words\<close>
named_theorems store_simps \<open>reads after writes of the component stores\<close>
named_theorems abs_simps \<open>equations that push an abstraction function through an operation\<close>

type_synonym c_word = "32 word"
type_synonym c_time = int

text \<open>\<open>INFINIT_INT\<close> of \<open>lsf.h\<close>: the marker for "no limit".\<close>

definition INFINIT_INT :: int where
  "INFINIT_INT = 0x7fffffff"

text \<open>The value a 32-bit two's complement \<open>int\<close> holds after a computation on integers.\<close>

definition c_int :: "int \<Rightarrow> int" where
  "c_int x = (x + 2 ^ 31) mod 2 ^ 32 - 2 ^ 31"

lemma c_int_range: "- (2 ^ 31) \<le> c_int x" "c_int x < 2 ^ 31"
  by (simp_all add: c_int_def)

lemma c_int_id [simp]: "\<lbrakk>- (2 ^ 31) \<le> x; x < 2 ^ 31\<rbrakk> \<Longrightarrow> c_int x = x"
  by (simp add: c_int_def)

text \<open>The C condition \<open>s & m\<close> used as a truth value.\<close>

definition flag :: "c_word \<Rightarrow> c_word \<Rightarrow> bool" where
  "flag s m \<longleftrightarrow> s AND m \<noteq> 0"

text \<open>
  A test of bits that lie inside a mask only depends on the masked value; this is what lets an
  exact comparison of a masked status decide every single-bit test of the unmasked word.
\<close>

lemma flag_masked:
  assumes "b AND m = b"
  shows "flag (s AND m) b = flag s b"
proof -
  have "(s AND m) AND b = s AND (b AND m)"
    by (simp add: ac_simps)
  then show ?thesis
    using assms by (simp add: flag_def)
qed

lemma flag_or [simp]: "flag (s OR t) b \<longleftrightarrow> flag s b \<or> flag t b"
proof -
  have "(s OR t) AND b = (s AND b) OR (t AND b)"
    by (simp add: bit.conj_disj_distrib2)
  moreover have "x OR y = 0 \<longleftrightarrow> x = 0 \<and> y = 0" for x y :: c_word
    by (metis or.right_neutral or_eq_0_iff)
  ultimately show ?thesis
    by (auto simp: flag_def)
qed

text \<open>Bounded integer ranges with a stride, the shape of the \<open>for (i = a; i <= b; i += s)\<close> loops.\<close>

lemma set_conv_le_length: "length xs \<le> n \<Longrightarrow> card (set xs) \<le> n"
  using card_length le_trans by blast

end
