(* ===== verification/Job_Status.thy ===== *)
theory Job_Status
  imports Lava_Prelude
begin

text \<open>
  The job status word: the state bits and internal flag bits of \<open>lsbatch.h\<close> and \<open>daemons.h\<close>, the
  classification macros over it and the state update macro.
\<close>

type_synonym jstatus = c_word

subsection \<open>Status bits\<close>

abbreviation JOB_STAT_NULL :: jstatus where "JOB_STAT_NULL \<equiv> 0x00"
abbreviation JOB_STAT_PEND :: jstatus where "JOB_STAT_PEND \<equiv> 0x01"
abbreviation JOB_STAT_PSUSP :: jstatus where "JOB_STAT_PSUSP \<equiv> 0x02"
abbreviation JOB_STAT_RUN :: jstatus where "JOB_STAT_RUN \<equiv> 0x04"
abbreviation JOB_STAT_SSUSP :: jstatus where "JOB_STAT_SSUSP \<equiv> 0x08"
abbreviation JOB_STAT_USUSP :: jstatus where "JOB_STAT_USUSP \<equiv> 0x10"
abbreviation JOB_STAT_EXIT :: jstatus where "JOB_STAT_EXIT \<equiv> 0x20"
abbreviation JOB_STAT_DONE :: jstatus where "JOB_STAT_DONE \<equiv> 0x40"
abbreviation JOB_STAT_PDONE :: jstatus where "JOB_STAT_PDONE \<equiv> 0x80"
abbreviation JOB_STAT_PERR :: jstatus where "JOB_STAT_PERR \<equiv> 0x100"
abbreviation JOB_STAT_WAIT :: jstatus where "JOB_STAT_WAIT \<equiv> 0x200"
abbreviation JOB_STAT_UNKWN :: jstatus where "JOB_STAT_UNKWN \<equiv> 0x10000"
abbreviation JOB_STAT_VOID :: jstatus where "JOB_STAT_VOID \<equiv> 0x00100000"
abbreviation JOB_STAT_RESERVE :: jstatus where "JOB_STAT_RESERVE \<equiv> 0x20000000"
abbreviation JOB_STAT_MIG :: jstatus where "JOB_STAT_MIG \<equiv> 0x40000000"
abbreviation JOB_STAT_ZOMBIE :: jstatus where "JOB_STAT_ZOMBIE \<equiv> 0x02000000"
abbreviation JOB_STAT_PRE_EXEC :: jstatus where "JOB_STAT_PRE_EXEC \<equiv> 0x04000000"
abbreviation MASK_INT_JOB_STAT :: jstatus where "MASK_INT_JOB_STAT \<equiv> 0x000FFFFF"

definition MASK_STATUS :: "jstatus \<Rightarrow> jstatus" where
  "MASK_STATUS s = s AND MASK_INT_JOB_STAT"

definition SET_STATE :: "jstatus \<Rightarrow> jstatus \<Rightarrow> jstatus" where
  "SET_STATE s n = (s AND NOT MASK_INT_JOB_STAT) OR n"

definition IS_PEND :: "jstatus \<Rightarrow> bool" where
  "IS_PEND s \<longleftrightarrow> flag s JOB_STAT_PEND \<or> flag s JOB_STAT_PSUSP"

definition IS_START :: "jstatus \<Rightarrow> bool" where
  "IS_START s \<longleftrightarrow> flag s JOB_STAT_RUN \<or> flag s JOB_STAT_SSUSP \<or> flag s JOB_STAT_USUSP"

definition IS_FINISH :: "jstatus \<Rightarrow> bool" where
  "IS_FINISH s \<longleftrightarrow> flag s JOB_STAT_DONE \<or> flag s JOB_STAT_EXIT"

definition IS_SUSP :: "jstatus \<Rightarrow> bool" where
  "IS_SUSP s \<longleftrightarrow> flag s JOB_STAT_PSUSP \<or> flag s JOB_STAT_SSUSP \<or> flag s JOB_STAT_USUSP"

definition IS_POST_DONE :: "jstatus \<Rightarrow> bool" where
  "IS_POST_DONE s \<longleftrightarrow> s AND JOB_STAT_PDONE = JOB_STAT_PDONE"

definition IS_POST_ERR :: "jstatus \<Rightarrow> bool" where
  "IS_POST_ERR s \<longleftrightarrow> s AND JOB_STAT_PERR = JOB_STAT_PERR"

definition IS_POST_FINISH :: "jstatus \<Rightarrow> bool" where
  "IS_POST_FINISH s \<longleftrightarrow> IS_POST_DONE s \<or> IS_POST_ERR s"

definition JOB_PEND :: "jstatus \<Rightarrow> bool" where
  "JOB_PEND s \<longleftrightarrow> flag s JOB_STAT_PEND \<and> \<not> flag s JOB_STAT_PSUSP"

lemmas status_class_defs =
  IS_PEND_def IS_START_def IS_FINISH_def IS_SUSP_def IS_POST_DONE_def IS_POST_ERR_def
  IS_POST_FINISH_def JOB_PEND_def

end
