(* ===== verification/Accounts.thy ===== *)
theory Accounts
  imports Complex_Main Job_Status "HOL-Library.Monad_Syntax" "HOL-Library.Sublist"
begin

text \<open>
  The slot accounting of the master daemon (\<open>lsbatch/daemons/mbd.misc.c\<close>): the counters of pending,
  running, suspended and reserved slots that every queue, user, user group and host keeps, the
  per-user and per-host accounts below them, the limit reasons derived from them, and
  \<open>updCounters\<close>, which moves a job's slots between the counters when its status changes.

  Queues, users and hosts are found by name; an operation that would follow a pointer to an unknown
  object yields \<open>None\<close>. A table pointer that is still \<open>NULL\<close> is an empty table. A host array holds
  one host name per slot, so \<open>numHostPtr\<close> is its length. A \<open>float\<close> limit is a rational number.
  \<open>getQUsable\<close> of \<open>mbd.policy.c\<close> recomputes the candidate hosts of a queue; what it reads beyond the
  accounts (load thresholds, host membership, resource requirements, the list of started jobs) is
  the record \<open>usable_env\<close>.
\<close>

subsection \<open>State\<close>

record counters =
  numJobs :: int
  numPEND :: int
  numRUN :: int
  numSSUSP :: int
  numUSUSP :: int
  numRESERVE :: int

record userAcct =
  ua_userId :: int
  ua_numRUN :: int
  ua_numSSUSP :: int
  ua_numUSUSP :: int
  ua_numRESERVE :: int
  ua_numPEND :: int
  ua_reason :: int

record hostAcct =
  ha_numRUN :: int
  ha_numSSUSP :: int
  ha_numUSUSP :: int
  ha_numRESERVE :: int

record qData =
  q_cnt :: counters
  q_maxJobs :: int
  q_uJobLimit :: int
  q_hJobLimit :: int
  q_pJobLimit :: rat
  q_reasonTb :: "nat \<Rightarrow> int"
  q_flags :: c_word
  q_uAcct :: "string \<rightharpoonup> userAcct"
  q_hAcct :: "string \<rightharpoonup> hostAcct"
  q_priority :: int
  q_acceptIntvl :: int
  q_numUsable :: int
  q_numSlots :: int
  q_numReasons :: int
  q_qAttrib :: c_word

record uData =
  u_cnt :: counters
  u_flags :: c_word
  u_gPtr :: "string list"
  u_maxJobs :: int
  u_pJobLimit :: rat
  u_numSlots :: int
  u_reasonTb :: "nat \<Rightarrow> int"
  u_hAcct :: "string \<rightharpoonup> hostAcct"
  u_ancestors :: "string list"

record hData =
  h_cnt :: counters
  hostId :: nat
  hStatus :: c_word
  limStatus :: c_word
  numCPUs :: int
  h_uJobLimit :: int
  h_maxJobs :: int
  num_preemptable :: int
  num_availd_ssusp :: int
  h_uAcct :: "string \<rightharpoonup> userAcct"
  h_acceptTime :: int
  h_numDispJobs :: int

record jData =
  jobId :: int
  jStatus :: jstatus
  userName :: string
  userId :: int
  uPtr :: "string option"
  qPtr :: string
  hPtr :: "string list"
  maxNumProcessors :: int

datatype gData = GData (g_name: string) (g_members: "string list") (g_groups: "gData list")

record acct =
  queues :: "string \<rightharpoonup> qData"
  users :: "string \<rightharpoonup> uData"
  hosts :: "string \<rightharpoonup> hData"
  hReasonTb :: "nat \<Rightarrow> int"
  hostList :: "string list"
  mSchedStage :: c_word
  usergroups :: "gData list"
  uGrpAllSet :: "string list"
  allUsersSet :: "string list"

abbreviation numHostPtr :: "jData \<Rightarrow> int" where
  "numHostPtr j \<equiv> int (length (hPtr j))"

subsection \<open>Constants\<close>

definition INFINIT_FLOAT :: rat where "INFINIT_FLOAT = 2147483648"

abbreviation PEND_QUE_JOB_LIMIT :: int where "PEND_QUE_JOB_LIMIT \<equiv> 303"
abbreviation PEND_QUE_USR_JLIMIT :: int where "PEND_QUE_USR_JLIMIT \<equiv> 304"
abbreviation PEND_USER_JOB_LIMIT :: int where "PEND_USER_JOB_LIMIT \<equiv> 601"
abbreviation PEND_UGRP_JOB_LIMIT :: int where "PEND_UGRP_JOB_LIMIT \<equiv> 602"
abbreviation PEND_HOST_JOB_LIMIT :: int where "PEND_HOST_JOB_LIMIT \<equiv> 1305"
abbreviation PEND_QUE_PROC_JLIMIT :: int where "PEND_QUE_PROC_JLIMIT \<equiv> 1306"
abbreviation PEND_QUE_HOST_JLIMIT :: int where "PEND_QUE_HOST_JLIMIT \<equiv> 1307"
abbreviation PEND_USER_PROC_JLIMIT :: int where "PEND_USER_PROC_JLIMIT \<equiv> 1308"
abbreviation PEND_HOST_USR_JLIMIT :: int where "PEND_HOST_USR_JLIMIT \<equiv> 1309"
abbreviation PEND_HOST_JOB_SSUSP :: int where "PEND_HOST_JOB_SSUSP \<equiv> 1003"
abbreviation PEND_HOST_QUE_MEMB :: int where "PEND_HOST_QUE_MEMB \<equiv> 1310"
abbreviation PEND_HOST_ACCPT_ONE :: int where "PEND_HOST_ACCPT_ONE \<equiv> 1314"
abbreviation PEND_HOST_QUE_RESREQ :: int where "PEND_HOST_QUE_RESREQ \<equiv> 1318"
abbreviation PEND_UGRP_PROC_JLIMIT :: int where "PEND_UGRP_PROC_JLIMIT \<equiv> 1324"

abbreviation HOST_STAT_FULL :: c_word where "HOST_STAT_FULL \<equiv> 0x10"
abbreviation HOST_STAT_UNREACH :: c_word where "HOST_STAT_UNREACH \<equiv> 0x20"
abbreviation HOST_STAT_UNAVAIL :: c_word where "HOST_STAT_UNAVAIL \<equiv> 0x40"
abbreviation HOST_STAT_EXCLUSIVE :: c_word where "HOST_STAT_EXCLUSIVE \<equiv> 0x100"
abbreviation HOST_STAT_REMOTE :: c_word where "HOST_STAT_REMOTE \<equiv> 0x80000000"
abbreviation LIM_UNAVAIL :: c_word where "LIM_UNAVAIL \<equiv> 0x00010000"
abbreviation USER_GROUP :: c_word where "USER_GROUP \<equiv> 0x001"
abbreviation USER_UPDATE :: c_word where "USER_UPDATE \<equiv> 0x002"
abbreviation USER_INIT :: c_word where "USER_INIT \<equiv> 0x004"
abbreviation Q_ATTRIB_NO_HOST_TYPE :: c_word where "Q_ATTRIB_NO_HOST_TYPE \<equiv> 0x2000"
abbreviation SUSP_QUEUE_WINDOW :: c_word where "SUSP_QUEUE_WINDOW \<equiv> 0x00000008"
abbreviation QUEUE_UPDATE_USABLE :: c_word where "QUEUE_UPDATE_USABLE \<equiv> 0x08"
abbreviation M_STAGE_QUE_CAND :: c_word where "M_STAGE_QUE_CAND \<equiv> 0x0004"
abbreviation M_STAGE_REPLAY :: c_word where "M_STAGE_REPLAY \<equiv> 0x0008"

subsection \<open>Counters and reasons\<close>

definition CLEAR_REASON :: "int \<Rightarrow> int \<Rightarrow> int" where
  "CLEAR_REASON v reason = (if v = reason then 0 else v)"

definition SET_REASON :: "bool \<Rightarrow> int \<Rightarrow> int \<Rightarrow> int" where
  "SET_REASON condition v reason = (if condition then reason else CLEAR_REASON v reason)"

definition addValue :: "int \<Rightarrow> int \<Rightarrow> int" where
  "addValue currentValue num =
     (let v = c_int (currentValue + num) in if v \<ge> 0 then v else 0)"

definition addOneAbs :: "int \<Rightarrow> int \<Rightarrow> bool \<Rightarrow> int" where
  "addOneAbs num addedNum clean =
     (let n = (if clean then 0 else num)
      in if addedNum > 0 then c_int (n + 1) else if addedNum < 0 then c_int (n - 1) else n)"

definition addCounters :: "counters \<Rightarrow> int \<Rightarrow> int \<Rightarrow> int \<Rightarrow> int \<Rightarrow> int \<Rightarrow> int \<Rightarrow> counters" where
  "addCounters c nJobs nPEND nRUN nSSUSP nUSUSP nRESERVE =
     \<lparr>numJobs = addValue (numJobs c) nJobs, numPEND = addValue (numPEND c) nPEND,
      numRUN = addValue (numRUN c) nRUN, numSSUSP = addValue (numSSUSP c) nSSUSP,
      numUSUSP = addValue (numUSUSP c) nUSUSP, numRESERVE = addValue (numRESERVE c) nRESERVE\<rparr>"

subsection \<open>Groups and users\<close>

definition gDirectMember :: "string \<Rightarrow> gData \<Rightarrow> bool" where
  "gDirectMember word gp =
     (if g_groups gp = [] \<and> g_members gp = [] then True else word \<in> set (g_members gp))"

fun gMember :: "string \<Rightarrow> gData \<Rightarrow> bool" where
  "gMember word (GData g ms gs) =
     (gDirectMember word (GData g ms gs) \<or> list_ex (gMember word) gs)"

definition zero_counters :: counters where
  "zero_counters = \<lparr>numJobs = 0, numPEND = 0, numRUN = 0, numSSUSP = 0, numUSUSP = 0, numRESERVE = 0\<rparr>"

definition initUData :: uData where
  "initUData =
     \<lparr>u_cnt = zero_counters, u_flags = 0, u_gPtr = [], u_maxJobs = INFINIT_INT,
      u_pJobLimit = INFINIT_FLOAT, u_numSlots = INFINIT_INT, u_reasonTb = (\<lambda>_. 0),
      u_hAcct = Map.empty, u_ancestors = []\<rparr>"

definition set_add :: "string \<Rightarrow> string list \<Rightarrow> string list" where
  "set_add x xs = (if x \<in> set xs then xs else xs @ [x])"

definition strstr :: "string \<Rightarrow> string \<Rightarrow> bool" where
  "strstr haystack needle = list_ex (prefix needle) (suffixes haystack)"

definition add_all_groups :: "(string \<rightharpoonup> uData) \<Rightarrow> string list \<Rightarrow> string list \<Rightarrow> string list" where
  "add_all_groups us grps =
     fold (\<lambda>g anc. fold set_add (case us g of None \<Rightarrow> [] | Some d \<Rightarrow> u_ancestors d) (set_add g anc)) grps"

definition addUserData ::
  "acct \<Rightarrow> string \<Rightarrow> int \<Rightarrow> rat \<Rightarrow> bool \<Rightarrow> bool \<Rightarrow> acct" where
  "addUserData st username maxjobs pJobLimit override config =
     (if users st username \<noteq> None \<and> \<not> override then st
      else
        let d0 = (case users st username of None \<Rightarrow> initUData | Some d \<Rightarrow> d);
            d1 = d0\<lparr>u_flags := (if config then u_flags d0 OR USER_UPDATE else u_flags d0),
                    u_pJobLimit := pJobLimit, u_maxJobs := maxjobs\<rparr>;
            plain = (\<not> flag (u_flags d1) USER_GROUP \<and> \<not> strstr username ''others'');
            d2 = (if plain
                  then d1\<lparr>u_ancestors := add_all_groups (users st) (uGrpAllSet st) (u_ancestors d1)\<rparr>
                  else d1)
        in st\<lparr>users := (users st)(username \<mapsto> d2),
              allUsersSet := (if plain then set_add username (allUsersSet st) else allUsersSet st)\<rparr>)"

definition getUserData :: "acct \<Rightarrow> string \<Rightarrow> acct" where
  "getUserData st user =
     (case users st user of
        Some _ \<Rightarrow> st
      | None \<Rightarrow>
          (case users st ''default'' of
             Some defUser \<Rightarrow> addUserData st user (u_maxJobs defUser) (u_pJobLimit defUser) False False
           | None \<Rightarrow> addUserData st user INFINIT_INT INFINIT_FLOAT False False))"

subsection \<open>Slot limits\<close>

definition started_slots :: "hostAcct option \<Rightarrow> int" where
  "started_slots hAcct =
     (case hAcct of
        None \<Rightarrow> 0
      | Some a \<Rightarrow> ha_numRUN a + ha_numSSUSP a + ha_numUSUSP a + ha_numRESERVE a)"

definition pJobLimitOk :: "hData \<Rightarrow> hostAcct option \<Rightarrow> rat \<Rightarrow> int" where
  "pJobLimitOk hp hAcct pJobLimit =
     (if pJobLimit \<le> 0 then 0
      else if pJobLimit \<ge> INFINIT_FLOAT then INFINIT_INT
      else
        let cpus = (if numCPUs hp = 0 then 1 else numCPUs hp);
            numSlots = \<lceil>pJobLimit * of_int cpus\<rceil> - started_slots hAcct
        in if numSlots \<le> 0 then 0 else numSlots)"

definition hJobLimitOk :: "hData \<Rightarrow> hostAcct option \<Rightarrow> int \<Rightarrow> int" where
  "hJobLimitOk hp hAcct hJobLimit =
     (if hJobLimit \<le> 0 then 0
      else if hJobLimit = INFINIT_INT then INFINIT_INT
      else
        let numSlots = hJobLimit - started_slots hAcct
        in if numSlots \<le> 0 then 0 else numSlots)"

subsection \<open>Accounts of a user in a queue or on a host\<close>

definition getUAcct :: "(string \<rightharpoonup> userAcct) \<Rightarrow> string \<Rightarrow> userAcct option" where
  "getUAcct uAcct up = uAcct up"

definition addUAcct ::
  "(string \<rightharpoonup> userAcct) \<Rightarrow> string \<Rightarrow> int \<Rightarrow> int \<Rightarrow> int \<Rightarrow> int \<Rightarrow> int \<Rightarrow> (string \<rightharpoonup> userAcct) \<times> userAcct" where
  "addUAcct uAcct up nRUN nSSUSP nUSUSP nRESERVE nPEND =
     (let a = \<lparr>ua_userId = 0, ua_numRUN = nRUN, ua_numSSUSP = nSSUSP, ua_numUSUSP = nUSUSP,
               ua_numRESERVE = nRESERVE, ua_numPEND = nPEND, ua_reason = 0\<rparr>
      in (uAcct(up \<mapsto> a), a))"

text \<open>The entry of \<open>up\<close> after the update; \<open>None\<close> when there is nothing to account.\<close>

definition uacct_entry ::
  "(string \<rightharpoonup> userAcct) \<Rightarrow> string \<Rightarrow> int \<Rightarrow> int \<Rightarrow> int \<Rightarrow> int \<Rightarrow> int \<Rightarrow> int \<Rightarrow> userAcct option" where
  "uacct_entry uAcct up uid nRUN nSSUSP nUSUSP nRESERVE nPEND =
     (case getUAcct uAcct up of
        Some a \<Rightarrow>
          Some (a\<lparr>ua_numRUN := addValue (ua_numRUN a) nRUN, ua_numSSUSP := addValue (ua_numSSUSP a) nSSUSP,
                  ua_numUSUSP := addValue (ua_numUSUSP a) nUSUSP,
                  ua_numRESERVE := addValue (ua_numRESERVE a) nRESERVE,
                  ua_numPEND := addValue (ua_numPEND a) nPEND\<rparr>)
      | None \<Rightarrow>
          if nRUN \<noteq> 0 \<or> nSSUSP \<noteq> 0 \<or> nUSUSP \<noteq> 0 \<or> nRESERVE \<noteq> 0 \<or> nPEND \<noteq> 0
          then Some ((snd (addUAcct uAcct up nRUN nSSUSP nUSUSP nRESERVE nPEND))\<lparr>ua_userId := uid\<rparr>)
          else None)"

definition acct_slots :: "userAcct \<Rightarrow> int" where
  "acct_slots a = ua_numRUN a + ua_numSSUSP a + ua_numUSUSP a + ua_numRESERVE a"

definition updUAcct ::
  "acct \<Rightarrow> jData \<Rightarrow> string \<Rightarrow> int \<Rightarrow> int \<Rightarrow> int \<Rightarrow> int \<Rightarrow> int \<Rightarrow> string option \<Rightarrow> acct option" where
  "updUAcct st j up nRUN nSSUSP nUSUSP nRESERVE nPEND hp =
     (case hp of
        None \<Rightarrow> do {
          qp \<leftarrow> queues st (qPtr j);
          (case uacct_entry (q_uAcct qp) up (userId j) nRUN nSSUSP nUSUSP nRESERVE nPEND of
             None \<Rightarrow> Some st
           | Some a \<Rightarrow>
               let numSlots = q_uJobLimit qp - acct_slots a;
                   a' = a\<lparr>ua_reason := SET_REASON (numSlots \<le> 0) (ua_reason a) PEND_QUE_USR_JLIMIT\<rparr>
               in Some (st\<lparr>queues := (queues st)(qPtr j \<mapsto> qp\<lparr>q_uAcct := (q_uAcct qp)(up \<mapsto> a')\<rparr>)\<rparr>))
        }
      | Some hn \<Rightarrow> do {
          h \<leftarrow> hosts st hn;
          (case uacct_entry (h_uAcct h) up (userId j) nRUN nSSUSP nUSUSP nRESERVE nPEND of
             None \<Rightarrow> Some st
           | Some a \<Rightarrow> do {
               d \<leftarrow> users st up;
               let numSlots = h_uJobLimit h - acct_slots a;
               let r = SET_REASON (numSlots \<le> 0) (u_reasonTb d (hostId h)) PEND_HOST_USR_JLIMIT;
               Some (st\<lparr>hosts := (hosts st)(hn \<mapsto> h\<lparr>h_uAcct := (h_uAcct h)(up \<mapsto> a)\<rparr>),
                        users := (users st)(up \<mapsto> d\<lparr>u_reasonTb := (u_reasonTb d)(hostId h := r)\<rparr>)\<rparr>)
             })
        })"

subsection \<open>Accounts of a host in a queue or for a user\<close>

definition getHAcct :: "(string \<rightharpoonup> hostAcct) \<Rightarrow> string \<Rightarrow> hostAcct option" where
  "getHAcct hAcct hp = hAcct hp"

definition addHAcct :: "int \<Rightarrow> int \<Rightarrow> int \<Rightarrow> int \<Rightarrow> hostAcct" where
  "addHAcct nRUN nSSUSP nUSUSP nRESERVE =
     \<lparr>ha_numRUN = addOneAbs 0 nRUN False, ha_numSSUSP = addOneAbs 0 nSSUSP False,
      ha_numUSUSP = addOneAbs 0 nUSUSP False, ha_numRESERVE = addOneAbs 0 nRESERVE False\<rparr>"

definition hacct_entry ::
  "(string \<rightharpoonup> hostAcct) \<Rightarrow> string \<Rightarrow> int \<Rightarrow> int \<Rightarrow> int \<Rightarrow> int \<Rightarrow> hostAcct option" where
  "hacct_entry hAcct hn nRUN nSSUSP nUSUSP nRESERVE =
     (case getHAcct hAcct hn of
        Some a \<Rightarrow>
          Some \<lparr>ha_numRUN = addOneAbs (ha_numRUN a) nRUN False,
                ha_numSSUSP = addOneAbs (ha_numSSUSP a) nSSUSP False,
                ha_numUSUSP = addOneAbs (ha_numUSUSP a) nUSUSP False,
                ha_numRESERVE = addOneAbs (ha_numRESERVE a) nRESERVE False\<rparr>
      | None \<Rightarrow>
          if nRUN > 0 \<or> nSSUSP > 0 \<or> nUSUSP > 0 \<or> nRESERVE > 0
          then Some (addHAcct nRUN nSSUSP nUSUSP nRESERVE) else None)"

definition hacct_store ::
  "(string \<rightharpoonup> hostAcct) \<Rightarrow> string \<Rightarrow> hostAcct option \<Rightarrow> (string \<rightharpoonup> hostAcct)" where
  "hacct_store hAcct hn foundH = (case foundH of None \<Rightarrow> hAcct | Some a \<Rightarrow> hAcct(hn \<mapsto> a))"

definition CHECKQUSABLE :: "c_word \<Rightarrow> int \<Rightarrow> int \<Rightarrow> c_word \<Rightarrow> c_word" where
  "CHECKQUSABLE stage oldReason newReason flags =
     (if newReason = 0 \<and> oldReason \<noteq> 0 \<and> flag stage M_STAGE_QUE_CAND
      then flags OR QUEUE_UPDATE_USABLE else flags)"

definition host_reachable :: "hData \<Rightarrow> bool" where
  "host_reachable h \<longleftrightarrow>
     \<not> flag (hStatus h) HOST_STAT_UNREACH \<and> \<not> flag (hStatus h) HOST_STAT_UNAVAIL \<and>
     \<not> flag (limStatus h) LIM_UNAVAIL"

definition hacct_queue_host ::
  "c_word \<Rightarrow> hData \<Rightarrow> string \<Rightarrow> int \<Rightarrow> int \<Rightarrow> int \<Rightarrow> int \<Rightarrow> qData \<Rightarrow> qData" where
  "hacct_queue_host stage h hn nRUN nSSUSP nUSUSP nRESERVE qp =
     (let foundH = hacct_entry (q_hAcct qp) hn nRUN nSSUSP nUSUSP nRESERVE;
          svReason = q_reasonTb qp (hostId h);
          flags0 = q_flags qp AND NOT QUEUE_UPDATE_USABLE;
          slotsP = pJobLimitOk h foundH (q_pJobLimit qp);
          (numSlots, reason1) =
            (if slotsP \<le> 0 \<and> host_reachable h
             then (slotsP, SET_REASON (slotsP \<le> 0) svReason PEND_QUE_PROC_JLIMIT)
             else let slotsH = hJobLimitOk h foundH (q_hJobLimit qp)
                  in (slotsH, SET_REASON (slotsH \<le> 0) svReason PEND_QUE_HOST_JLIMIT));
          flags1 = CHECKQUSABLE stage svReason reason1 flags0;
          (reason2, flags2) =
            (if numSlots > 0 \<and> (svReason = PEND_QUE_PROC_JLIMIT \<or> svReason = PEND_QUE_HOST_JLIMIT)
             then (CLEAR_REASON reason1 svReason,
                   CHECKQUSABLE stage svReason (CLEAR_REASON reason1 svReason) flags1)
             else (reason1, flags1))
      in qp\<lparr>q_hAcct := hacct_store (q_hAcct qp) hn foundH, q_flags := flags2,
            q_reasonTb := (q_reasonTb qp)(hostId h := reason2)\<rparr>)"

definition hacct_user_host ::
  "hData \<Rightarrow> string \<Rightarrow> int \<Rightarrow> int \<Rightarrow> int \<Rightarrow> int \<Rightarrow> uData \<Rightarrow> uData" where
  "hacct_user_host h hn nRUN nSSUSP nUSUSP nRESERVE up =
     (let foundH = hacct_entry (u_hAcct up) hn nRUN nSSUSP nUSUSP nRESERVE;
          numSlots = pJobLimitOk h foundH (u_pJobLimit up);
          r = (if flag (u_flags up) USER_GROUP then PEND_UGRP_PROC_JLIMIT else PEND_USER_PROC_JLIMIT);
          old = u_reasonTb up (hostId h);
          reason = (if numSlots \<le> 0 \<and> host_reachable h then SET_REASON (numSlots \<le> 0) old r
                    else if numSlots > 0 then CLEAR_REASON old r else old)
      in up\<lparr>u_hAcct := hacct_store (u_hAcct up) hn foundH,
            u_reasonTb := (u_reasonTb up)(hostId h := reason)\<rparr>)"

text \<open>The account \<open>updHAcct\<close> works on: a queue's (its argument \<open>qp\<close>) or a user's (\<open>up\<close>).\<close>

datatype hacct_owner = OfQueue string | OfUser string

fun updHAcct_loop ::
  "acct \<Rightarrow> hacct_owner \<Rightarrow> int \<Rightarrow> int \<Rightarrow> int \<Rightarrow> int \<Rightarrow> string list \<Rightarrow> acct option" where
  "updHAcct_loop st own nRUN nSSUSP nUSUSP nRESERVE [] = Some st"
| "updHAcct_loop st own nRUN nSSUSP nUSUSP nRESERVE (hn # hs) = do {
     h \<leftarrow> hosts st hn;
     st' \<leftarrow>
       (if flag (hStatus h) HOST_STAT_REMOTE then Some st
        else (case own of
            OfQueue q \<Rightarrow> do {
              qp \<leftarrow> queues st q;
              Some (st\<lparr>queues := (queues st)
                (q \<mapsto> hacct_queue_host (mSchedStage st) h hn nRUN nSSUSP nUSUSP nRESERVE qp)\<rparr>)
            }
          | OfUser u \<Rightarrow> do {
              up \<leftarrow> users st u;
              Some (st\<lparr>users := (users st)(u \<mapsto> hacct_user_host h hn nRUN nSSUSP nUSUSP nRESERVE up)\<rparr>)
            }));
     updHAcct_loop st' own nRUN nSSUSP nUSUSP nRESERVE hs
   }"

subsection \<open>The candidate hosts of a queue\<close>

definition OUT_SCHED_RS :: "int \<Rightarrow> bool" where
  "OUT_SCHED_RS reason \<longleftrightarrow>
     reason \<in> {PEND_HOST_JOB_LIMIT, PEND_QUE_JOB_LIMIT, PEND_QUE_USR_JLIMIT, PEND_QUE_PROC_JLIMIT,
       PEND_QUE_HOST_JLIMIT, PEND_USER_JOB_LIMIT, PEND_UGRP_JOB_LIMIT, PEND_USER_PROC_JLIMIT,
       PEND_UGRP_PROC_JLIMIT, PEND_HOST_USR_JLIMIT}"

text \<open>
  What \<open>getQUsable\<close> reads of the rest of the daemon: for a host and a queue, whether the host is a
  member of the queue, the load index over its scheduling threshold (\<open>0\<close> when there is none), whether
  the resource requirement of the queue selects the host, and the value of the local variable
  \<open>overRideFromType\<close> after that test; the started jobs from the back of their list; and the clock and
  limits of the session. \<open>hostList\<close> holds the names of the hosts from the back.
\<close>

record sjob =
  s_priority :: int
  s_jStatus :: jstatus
  s_host :: string
  s_newReason :: c_word

record usable_env =
  isHostQMember :: "string \<Rightarrow> string \<Rightarrow> bool"
  overThreshold :: "string \<Rightarrow> string \<Rightarrow> int"
  resReqOk :: "string \<Rightarrow> string \<Rightarrow> bool"
  overRideFromType :: "string \<Rightarrow> string \<Rightarrow> bool"
  startedJobs :: "sjob list"
  now_disp :: int
  msleeptime :: int
  maxJobPerSession :: int

fun ssusp_blocks :: "int \<Rightarrow> string \<Rightarrow> int \<Rightarrow> sjob list \<Rightarrow> bool" where
  "ssusp_blocks prio hn nSSUSP [] = False"
| "ssusp_blocks prio hn nSSUSP (jp # jps) =
     (if nSSUSP \<le> 0 \<or> s_priority jp < prio then False
      else if \<not> flag (s_jStatus jp) JOB_STAT_SSUSP \<or> s_host jp \<noteq> hn then ssusp_blocks prio hn nSSUSP jps
      else if flag (s_newReason jp) SUSP_QUEUE_WINDOW then ssusp_blocks prio hn (nSSUSP - 1) jps
      else True)"

text \<open>The reason against the host, and whether the resource requirement was evaluated.\<close>

definition host_reason :: "usable_env \<Rightarrow> string \<Rightarrow> string \<Rightarrow> qData \<Rightarrow> hData \<Rightarrow> int \<times> bool" where
  "host_reason env q hn qp h =
     (if \<not> isHostQMember env hn q then (PEND_HOST_QUE_MEMB, False)
      else if overThreshold env hn q \<noteq> 0 then (overThreshold env hn q, False)
      else if numSSUSP (h_cnt h) > 0 \<and>
        ssusp_blocks (q_priority qp) hn (numSSUSP (h_cnt h)) (startedJobs env)
        then (PEND_HOST_JOB_SSUSP, False)
      else if \<not> resReqOk env hn q then (PEND_HOST_QUE_RESREQ, True)
      else if OUT_SCHED_RS (q_reasonTb qp (hostId h)) then (q_reasonTb qp (hostId h), True)
      else if q_acceptIntvl qp \<noteq> 0 \<and> now_disp env - h_acceptTime h < q_acceptIntvl qp * msleeptime env \<or>
        q_acceptIntvl qp = 0 \<and> h_numDispJobs h \<ge> maxJobPerSession env
        then (PEND_HOST_ACCPT_ONE, True)
      else (0, True))"

definition usable_host :: "usable_env \<Rightarrow> acct \<Rightarrow> string \<Rightarrow> string \<Rightarrow> hData \<Rightarrow> qData \<Rightarrow> qData" where
  "usable_host env st q hn h qp =
     (if hReasonTb st (hostId h) \<noteq> 0 \<or> flag (hStatus h) HOST_STAT_REMOTE then qp
      else
        let (r, evaluated) = host_reason env q hn qp h;
            qp1 = (if evaluated \<and> overRideFromType env hn q
                   then qp\<lparr>q_qAttrib := q_qAttrib qp OR Q_ATTRIB_NO_HOST_TYPE\<rparr> else qp);
            qp2 = qp1\<lparr>q_reasonTb := (q_reasonTb qp1)(hostId h := r)\<rparr>
        in if r \<noteq> 0 then qp2\<lparr>q_numReasons := q_numReasons qp2 + 1\<rparr>
           else qp2\<lparr>q_numUsable := q_numUsable qp2 + numCPUs h\<rparr>)"

definition getQUsable :: "usable_env \<Rightarrow> acct \<Rightarrow> string \<Rightarrow> qData \<Rightarrow> qData" where
  "getQUsable env st q qp =
     (let qp0 = qp\<lparr>q_numUsable := 0, q_numSlots := 0, q_numReasons := 0,
                   q_qAttrib := q_qAttrib qp AND NOT Q_ATTRIB_NO_HOST_TYPE\<rparr>
      in if OUT_SCHED_RS (q_reasonTb qp0 0) then qp0
         else fold (\<lambda>hn qp. case hosts st hn of None \<Rightarrow> qp | Some h \<Rightarrow> usable_host env st q hn h qp)
                (hostList st) qp0)"

definition clear_update_usable :: "qData \<Rightarrow> qData" where
  "clear_update_usable qp = qp\<lparr>q_flags := q_flags qp AND NOT QUEUE_UPDATE_USABLE\<rparr>"

definition updHAcct ::
  "usable_env \<Rightarrow> acct \<Rightarrow> jData \<Rightarrow> hacct_owner \<Rightarrow> int \<Rightarrow> int \<Rightarrow> int \<Rightarrow> int \<Rightarrow> acct option" where
  "updHAcct env st j own nRUN nSSUSP nUSUSP nRESERVE =
     (if hPtr j = [] then Some st
      else (case own of
          OfUser u \<Rightarrow> updHAcct_loop st own nRUN nSSUSP nUSUSP nRESERVE (hPtr j)
        | OfQueue q \<Rightarrow> do {
            qp \<leftarrow> queues st q;
            st1 \<leftarrow> updHAcct_loop (st\<lparr>queues := (queues st)(q \<mapsto> clear_update_usable qp)\<rparr>) own
                     nRUN nSSUSP nUSUSP nRESERVE (hPtr j);
            qp1 \<leftarrow> queues st1 q;
            Some (if flag (q_flags qp1) QUEUE_UPDATE_USABLE
                  then st1\<lparr>queues := (queues st1)(q \<mapsto> clear_update_usable (getQUsable env st1 q qp1))\<rparr>
                  else st1)
          }))"

subsection \<open>Queues, users and hosts\<close>

fun upd_ancestors ::
  "acct \<Rightarrow> jData \<Rightarrow> int \<Rightarrow> int \<Rightarrow> int \<Rightarrow> int \<Rightarrow> int \<Rightarrow> string list \<Rightarrow> acct option" where
  "upd_ancestors st j nRUN nSSUSP nUSUSP nRESERVE nPEND [] = Some st"
| "upd_ancestors st j nRUN nSSUSP nUSUSP nRESERVE nPEND (g # gs) =
     Option.bind (updUAcct st j g nRUN nSSUSP nUSUSP nRESERVE nPEND None)
       (\<lambda>st'. upd_ancestors st' j nRUN nSSUSP nUSUSP nRESERVE nPEND gs)"

definition queue_limit_reason :: "qData \<Rightarrow> qData" where
  "queue_limit_reason qp =
     (let numSlots = (if q_maxJobs qp = INFINIT_INT then INFINIT_INT
                      else q_maxJobs qp - (numJobs (q_cnt qp) - numPEND (q_cnt qp)));
          r = q_reasonTb qp 0;
          r1 = (if r = INFINIT_INT then 0 else r)
      in qp\<lparr>q_reasonTb := (q_reasonTb qp)(0 := SET_REASON (numSlots \<le> 0) r1 PEND_QUE_JOB_LIMIT)\<rparr>)"

definition updQaccount ::
  "usable_env \<Rightarrow> acct \<Rightarrow> jData \<Rightarrow> int \<Rightarrow> int \<Rightarrow> int \<Rightarrow> int \<Rightarrow> int \<Rightarrow> int \<Rightarrow> acct option" where
  "updQaccount env st jp nJobs nPEND nRUN nSSUSP nUSUSP nRESERVE = do {
     qp \<leftarrow> queues st (qPtr jp);
     let qp1 = queue_limit_reason
                 (qp\<lparr>q_cnt := addCounters (q_cnt qp) nJobs nPEND nRUN nSSUSP nUSUSP nRESERVE\<rparr>);
     let st1 = st\<lparr>queues := (queues st)(qPtr jp \<mapsto> qp1)\<rparr>;
     let newJob = (nRUN = 0 \<and> nSSUSP = 0 \<and> nUSUSP = 0 \<and> nRESERVE = 0 \<and> nPEND = 0);
     u \<leftarrow> uPtr jp;
     st2 \<leftarrow> updUAcct st1 jp u nRUN nSSUSP nUSUSP nRESERVE nPEND None;
     up \<leftarrow> users st2 u;
     st3 \<leftarrow> upd_ancestors st2 jp nRUN nSSUSP nUSUSP nRESERVE nPEND (u_ancestors up);
     if newJob then Some st3
     else updHAcct env st3 jp (OfQueue (qPtr jp)) nRUN nSSUSP nUSUSP nRESERVE
   }"

definition updUserData1 ::
  "usable_env \<Rightarrow> acct \<Rightarrow> jData \<Rightarrow> string \<Rightarrow> int \<Rightarrow> int \<Rightarrow> int \<Rightarrow> int \<Rightarrow> int \<Rightarrow> int \<Rightarrow> acct option" where
  "updUserData1 env st j u nJobs nPEND nRUN nSSUSP nUSUSP nRESERVE = do {
     up \<leftarrow> users st u;
     let st1 = st\<lparr>users := (users st)
       (u \<mapsto> up\<lparr>u_cnt := addCounters (u_cnt up) nJobs nPEND nRUN nSSUSP nUSUSP nRESERVE\<rparr>)\<rparr>;
     let newJob = (nRUN = 0 \<and> nSSUSP = 0 \<and> nUSUSP = 0 \<and> nRESERVE = 0);
     if \<not> newJob \<and> u_pJobLimit up < INFINIT_FLOAT
     then updHAcct env st1 j (OfUser u) nRUN nSSUSP nUSUSP nRESERVE
     else Some st1
   }"

definition user_slots :: "uData \<Rightarrow> int" where
  "user_slots up =
     (if u_maxJobs up = INFINIT_INT then INFINIT_INT
      else u_maxJobs up - numRUN (u_cnt up) - numSSUSP (u_cnt up) - numUSUSP (u_cnt up)
           - numRESERVE (u_cnt up))"

definition user_limit_reason :: "int \<Rightarrow> uData \<Rightarrow> uData" where
  "user_limit_reason reason up =
     (let r = u_reasonTb up 0;
          r1 = (if r = INFINIT_INT then 0 else r)
      in up\<lparr>u_reasonTb := (u_reasonTb up)(0 := SET_REASON (user_slots up \<le> 0) r1 reason)\<rparr>)"

fun member_groups :: "acct \<Rightarrow> string \<Rightarrow> gData list \<Rightarrow> acct \<times> string list" where
  "member_groups st user [] = (st, [])"
| "member_groups st user (g # gs) =
     (if \<not> gMember user g then member_groups st user gs
      else let (st', ns) = member_groups (getUserData st (g_name g)) user gs
           in (st', g_name g # ns))"

fun upd_groups ::
  "usable_env \<Rightarrow> acct \<Rightarrow> jData \<Rightarrow> int \<Rightarrow> int \<Rightarrow> int \<Rightarrow> int \<Rightarrow> int \<Rightarrow> int \<Rightarrow> int \<Rightarrow> string list \<Rightarrow>
   (acct \<times> int) option" where
  "upd_groups env st j nJobs nPEND nRUN nSSUSP nUSUSP nRESERVE numSlots [] = Some (st, numSlots)"
| "upd_groups env st j nJobs nPEND nRUN nSSUSP nUSUSP nRESERVE numSlots (g # gs) = do {
     ugp \<leftarrow> users st g;
     let st1 = st\<lparr>users := (users st)(g \<mapsto> ugp\<lparr>u_flags := u_flags ugp OR USER_GROUP\<rparr>)\<rparr>;
     st2 \<leftarrow> updUserData1 env st1 j g nJobs nPEND nRUN nSSUSP nUSUSP nRESERVE;
     ugp2 \<leftarrow> users st2 g;
     if nRUN = 0 \<and> nSSUSP = 0 \<and> nUSUSP = 0 \<and> nRESERVE = 0
     then upd_groups env st2 j nJobs nPEND nRUN nSSUSP nUSUSP nRESERVE numSlots gs
     else upd_groups env
            (st2\<lparr>users := (users st2)(g \<mapsto> user_limit_reason PEND_UGRP_JOB_LIMIT ugp2)\<rparr>)
            j nJobs nPEND nRUN nSSUSP nUSUSP nRESERVE (min (user_slots ugp2) numSlots) gs
   }"

definition set_user_slots :: "acct \<Rightarrow> string \<Rightarrow> int \<Rightarrow> acct option" where
  "set_user_slots st u n = do {
     up \<leftarrow> users st u;
     Some (st\<lparr>users := (users st)(u \<mapsto> up\<lparr>u_numSlots := n\<rparr>)\<rparr>)
   }"

text \<open>
  The group array of a user is built on first use. The local variable \<open>numSlots\<close> of
  \<open>updUserData\<close> is only assigned when the update is not for a new job; \<open>junk\<close> is the value it holds
  otherwise.
\<close>

definition init_groups :: "acct \<Rightarrow> jData \<Rightarrow> string \<Rightarrow> acct option" where
  "init_groups st j u = do {
     up \<leftarrow> users st u;
     if flag (u_flags up) USER_INIT then Some st
     else do {
       let (st1, gs) = member_groups st (userName j) (usergroups st);
       up1 \<leftarrow> users st1 u;
       Some (st1\<lparr>users := (users st1)(u \<mapsto> up1\<lparr>u_gPtr := gs, u_flags := u_flags up1 OR USER_INIT\<rparr>)\<rparr>)
     }
   }"

definition updUserData ::
  "usable_env \<Rightarrow> int \<Rightarrow> acct \<Rightarrow> jData \<Rightarrow> int \<Rightarrow> int \<Rightarrow> int \<Rightarrow> int \<Rightarrow> int \<Rightarrow> int \<Rightarrow>
   (acct \<times> jData) option" where
  "updUserData env junk st0 j0 nJobs nPEND nRUN nSSUSP nUSUSP nRESERVE = do {
     let (st, j) = (case uPtr j0 of
                      Some _ \<Rightarrow> (st0, j0)
                    | None \<Rightarrow> (getUserData st0 (userName j0), j0\<lparr>uPtr := Some (userName j0)\<rparr>));
     u \<leftarrow> uPtr j;
     up \<leftarrow> users st u;
     let st1 = st\<lparr>users := (users st)(u \<mapsto> up\<lparr>u_flags := u_flags up AND NOT USER_GROUP\<rparr>)\<rparr>;
     st2 \<leftarrow> updUserData1 env st1 j u nJobs nPEND nRUN nSSUSP nUSUSP nRESERVE;
     up2 \<leftarrow> users st2 u;
     let newJob = (nRUN = 0 \<and> nSSUSP = 0 \<and> nUSUSP = 0 \<and> nRESERVE = 0);
     let st3 = (if newJob then st2
                else st2\<lparr>users := (users st2)(u \<mapsto> user_limit_reason PEND_USER_JOB_LIMIT up2)\<rparr>);
     let numSlots = (if newJob then junk else user_slots up2);
     if usergroups st3 = []
     then map_option (\<lambda>st'. (st', j)) (set_user_slots st3 u numSlots)
     else do {
       st4 \<leftarrow> init_groups st3 j u;
       up4 \<leftarrow> users st4 u;
       (st5, slots) \<leftarrow> upd_groups env st4 j nJobs nPEND nRUN nSSUSP nUSUSP nRESERVE numSlots
                         (u_gPtr up4);
       map_option (\<lambda>st'. (st', j)) (set_user_slots st5 u slots)
     }
   }"

definition host_full :: "hData \<Rightarrow> bool" where
  "host_full h \<longleftrightarrow> numJobs (h_cnt h) \<ge> h_maxJobs h"

definition host_job_limit :: "hData \<Rightarrow> bool" where
  "host_job_limit h \<longleftrightarrow>
     numJobs (h_cnt h) - (max 0 (num_preemptable h) + max 0 (num_availd_ssusp h)) \<ge> h_maxJobs h"

definition clear_queue_reason :: "nat \<Rightarrow> int \<Rightarrow> qData \<Rightarrow> qData" where
  "clear_queue_reason i reason qp =
     qp\<lparr>q_reasonTb := (q_reasonTb qp)(i := CLEAR_REASON (q_reasonTb qp i) reason)\<rparr>"

definition charge_host ::
  "acct \<Rightarrow> string \<Rightarrow> hData \<Rightarrow> int \<Rightarrow> int \<Rightarrow> int \<Rightarrow> int \<Rightarrow> int \<Rightarrow> acct" where
  "charge_host st hn h1 nJobs nRUN nSSUSP nUSUSP nRESERVE =
     (let h2 = h1\<lparr>h_cnt := addCounters (h_cnt h1) nJobs 0 nRUN nSSUSP nUSUSP nRESERVE\<rparr>;
          h3 = h2\<lparr>hStatus := (if host_full h2 then hStatus h2 OR HOST_STAT_FULL
                              else hStatus h2 AND NOT HOST_STAT_FULL)\<rparr>;
          r = (if host_full h2 \<and> host_job_limit h2 then PEND_HOST_JOB_LIMIT
               else CLEAR_REASON (hReasonTb st (hostId h2)) PEND_HOST_JOB_LIMIT);
          qs = (if host_full h2 then queues st
                else (\<lambda>q. map_option (clear_queue_reason (hostId h2) PEND_HOST_JOB_LIMIT) (queues st q)));
          h4 = (if numJobs (h_cnt h3) \<le> 0
                then h3\<lparr>hStatus := hStatus h3 AND NOT HOST_STAT_EXCLUSIVE\<rparr> else h3)
      in st\<lparr>queues := qs, hosts := (hosts st)(hn \<mapsto> h4), hReasonTb := (hReasonTb st)(hostId h2 := r)\<rparr>)"

fun updHostData ::
  "acct \<Rightarrow> jData \<Rightarrow> int \<Rightarrow> int \<Rightarrow> int \<Rightarrow> int \<Rightarrow> int \<Rightarrow> string list \<Rightarrow> acct option" where
  "updHostData st j nJobs nRUN nSSUSP nUSUSP nRESERVE [] = Some st"
| "updHostData st j nJobs nRUN nSSUSP nUSUSP nRESERVE (hn # hs) = do {
     h0 \<leftarrow> hosts st hn;
     if flag (hStatus h0) HOST_STAT_REMOTE
     then updHostData st j nJobs nRUN nSSUSP nUSUSP nRESERVE hs
     else do {
       st1 \<leftarrow>
         (if h_uJobLimit h0 < INFINIT_INT \<and> (nRUN \<noteq> 0 \<or> nSSUSP \<noteq> 0 \<or> nUSUSP \<noteq> 0 \<or> nRESERVE \<noteq> 0)
          then Option.bind (uPtr j) (\<lambda>u. updUAcct st j u nRUN nSSUSP nUSUSP nRESERVE 0 (Some hn))
          else Some st);
       h1 \<leftarrow> hosts st1 hn;
       updHostData (charge_host st1 hn h1 nJobs nRUN nSSUSP nUSUSP nRESERVE)
         j nJobs nRUN nSSUSP nUSUSP nRESERVE hs
     }
   }"

subsection \<open>Status changes\<close>

text \<open>
  The two call sequences of \<open>updCounters\<close>: queue, user, host when a job starts or is suspended, and
  queue, host, user when it leaves its hosts.
\<close>

definition move_in ::
  "usable_env \<Rightarrow> int \<Rightarrow> acct \<Rightarrow> jData \<Rightarrow> int \<Rightarrow> int \<Rightarrow> int \<Rightarrow> int \<Rightarrow> int \<Rightarrow> int \<Rightarrow> int \<Rightarrow> int \<Rightarrow> int \<Rightarrow> int \<Rightarrow> int \<Rightarrow>
   (acct \<times> jData) option" where
  "move_in env junk st j nJobs nPEND nRUN nSSUSP nUSUSP nRESERVE hJobs hRUN hSSUSP hUSUSP hRESERVE = do {
     st1 \<leftarrow> updQaccount env st j nJobs nPEND nRUN nSSUSP nUSUSP nRESERVE;
     (st2, j2) \<leftarrow> updUserData env junk st1 j nJobs nPEND nRUN nSSUSP nUSUSP nRESERVE;
     st3 \<leftarrow> updHostData st2 j2 hJobs hRUN hSSUSP hUSUSP hRESERVE (hPtr j2);
     Some (st3, j2)
   }"

definition move_out ::
  "usable_env \<Rightarrow> int \<Rightarrow> acct \<Rightarrow> jData \<Rightarrow> int \<Rightarrow> int \<Rightarrow> int \<Rightarrow> int \<Rightarrow> int \<Rightarrow> int \<Rightarrow> int \<Rightarrow> int \<Rightarrow> int \<Rightarrow> int \<Rightarrow> int \<Rightarrow>
   (acct \<times> jData) option" where
  "move_out env junk st j nJobs nPEND nRUN nSSUSP nUSUSP nRESERVE hJobs hRUN hSSUSP hUSUSP hRESERVE = do {
     st1 \<leftarrow> updQaccount env st j nJobs nPEND nRUN nSSUSP nUSUSP nRESERVE;
     st2 \<leftarrow> updHostData st1 j hJobs hRUN hSSUSP hUSUSP hRESERVE (hPtr j);
     updUserData env junk st2 j nJobs nPEND nRUN nSSUSP nUSUSP nRESERVE
   }"

text \<open>The status with which \<open>updCounters\<close> compares: internal bits and \<open>UNKWN\<close> masked out.\<close>

definition live_status :: "jstatus \<Rightarrow> jstatus" where
  "live_status s = MASK_STATUS (s AND NOT JOB_STAT_UNKWN)"

definition updCounters ::
  "usable_env \<Rightarrow> int \<Rightarrow> acct \<Rightarrow> jData \<Rightarrow> jstatus \<Rightarrow> (acct \<times> jData) option" where
  "updCounters env junk st j oldStatus =
     (if IS_FINISH oldStatus then Some (st, j)
      else if live_status (jStatus j) = live_status oldStatus
        then Some (st, j)
      else if IS_PEND (jStatus j) \<and> IS_PEND oldStatus then Some (st, j)
      else
        let num = numHostPtr j;
            numReq = maxNumProcessors j;
            newStatus = live_status (jStatus j);
            arrive = move_in env junk st j;
            leave = move_out env junk st j
        in if newStatus = JOB_STAT_RUN then
             (if flag oldStatus JOB_STAT_PEND \<or> flag oldStatus JOB_STAT_PSUSP
                then arrive (- numReq + num) (- numReq) num 0 0 0 1 1 0 0 0
              else if flag oldStatus JOB_STAT_SSUSP then arrive 0 0 num (- num) 0 0 0 1 (- 1) 0 0
              else if flag oldStatus JOB_STAT_USUSP then arrive 0 0 num 0 (- num) 0 0 1 0 (- 1) 0
              else Some (st, j))
           else if newStatus = JOB_STAT_SSUSP then
             (if flag oldStatus JOB_STAT_RUN then arrive 0 0 (- num) num 0 0 0 (- 1) 1 0 0
              else if flag oldStatus JOB_STAT_USUSP then arrive 0 0 0 num (- num) 0 0 0 1 (- 1) 0
              else if flag oldStatus JOB_STAT_PEND
                then arrive (- numReq + num) (- numReq) 0 num 0 0 1 0 1 0 0
              else Some (st, j))
           else if newStatus = JOB_STAT_USUSP then
             (if flag oldStatus JOB_STAT_RUN then arrive 0 0 (- num) 0 num 0 0 (- 1) 0 1 0
              else if flag oldStatus JOB_STAT_SSUSP then arrive 0 0 0 (- num) num 0 0 0 (- 1) 1 0
              else if flag oldStatus JOB_STAT_PEND
                then arrive (- numReq + num) (- numReq) 0 0 num 0 1 0 0 1 0
              else Some (st, j))
           else if newStatus = JOB_STAT_EXIT \<or> newStatus = JOB_STAT_DONE then
             (if flag oldStatus JOB_STAT_WAIT then leave (- num) 0 (- num) 0 0 0 (- 1) (- 1) 0 0 0
              else if flag oldStatus JOB_STAT_RUN then leave (- num) 0 (- num) 0 0 0 (- 1) (- 1) 0 0 0
              else if flag oldStatus JOB_STAT_USUSP then leave (- num) 0 0 0 (- num) 0 (- 1) 0 0 (- 1) 0
              else if flag oldStatus JOB_STAT_SSUSP then leave (- num) 0 0 (- num) 0 0 (- 1) 0 (- 1) 0 0
              else if IS_PEND oldStatus then do {
                st1 \<leftarrow> updQaccount env st j (- numReq) (- numReq) 0 0 0 0;
                updUserData env junk st1 j (- numReq) (- numReq) 0 0 0 0
              }
              else Some (st, j))
           else if newStatus = JOB_STAT_PEND then
             (if flag oldStatus JOB_STAT_RUN
                then leave (numReq - num) numReq (- num) 0 0 0 (- 1) (- 1) 0 0 0
              else if flag oldStatus JOB_STAT_USUSP
                then leave (- num + numReq) numReq 0 0 (- num) 0 (- 1) 0 0 (- 1) 0
              else if flag oldStatus JOB_STAT_SSUSP
                then leave (- num + numReq) numReq 0 (- num) 0 0 (- 1) 0 (- 1) 0 0
              else Some (st, j))
           else Some (st, j))"

subsection \<open>Views of the counters\<close>

text \<open>The part of the state the counters live in; everything else is derived from it or limits it.\<close>

definition qcnt :: "acct \<Rightarrow> string \<rightharpoonup> counters" where
  "qcnt st q = map_option q_cnt (queues st q)"

definition uview :: "acct \<Rightarrow> string \<rightharpoonup> counters \<times> string list \<times> bool" where
  "uview st u = map_option (\<lambda>d. (u_cnt d, u_gPtr d, flag (u_flags d) USER_INIT)) (users st u)"

definition hview :: "acct \<Rightarrow> string \<rightharpoonup> counters \<times> bool" where
  "hview st h = map_option (\<lambda>d. (h_cnt d, flag (hStatus d) HOST_STAT_REMOTE)) (hosts st h)"

definition same_counts :: "acct \<Rightarrow> acct \<Rightarrow> bool" where
  "same_counts st st' \<longleftrightarrow>
     qcnt st' = qcnt st \<and> uview st' = uview st \<and> hview st' = hview st \<and> usergroups st' = usergroups st"

lemmas view_defs = qcnt_def uview_def hview_def

lemma same_counts_refl [simp]: "same_counts st st"
  by (simp add: same_counts_def)

lemma same_counts_trans: "same_counts a b \<Longrightarrow> same_counts b c \<Longrightarrow> same_counts a c"
  by (simp add: same_counts_def)

lemma view_dom:
  "qcnt st q = None \<longleftrightarrow> queues st q = None" "uview st u = None \<longleftrightarrow> users st u = None"
  "hview st h = None \<longleftrightarrow> hosts st h = None"
  by (simp_all add: view_defs)

lemma qcnt_upd: "qcnt (st\<lparr>queues := (queues st)(q \<mapsto> d)\<rparr>) = (qcnt st)(q \<mapsto> q_cnt d)"
  by (auto simp: qcnt_def)

lemma uview_upd:
  "uview (st\<lparr>users := (users st)(u \<mapsto> d)\<rparr>) = (uview st)(u \<mapsto> (u_cnt d, u_gPtr d, flag (u_flags d) USER_INIT))"
  by (auto simp: uview_def)

lemma hview_upd:
  "hview (st\<lparr>hosts := (hosts st)(h \<mapsto> d)\<rparr>) = (hview st)(h \<mapsto> (h_cnt d, flag (hStatus d) HOST_STAT_REMOTE))"
  by (auto simp: hview_def)

lemma view_frame [simp]:
  "uview (st\<lparr>queues := x\<rparr>) = uview st" "hview (st\<lparr>queues := x\<rparr>) = hview st"
  "qcnt (st\<lparr>users := y\<rparr>) = qcnt st" "hview (st\<lparr>users := y\<rparr>) = hview st"
  "qcnt (st\<lparr>hosts := z\<rparr>) = qcnt st" "uview (st\<lparr>hosts := z\<rparr>) = uview st"
  "qcnt (st\<lparr>hReasonTb := r\<rparr>) = qcnt st" "uview (st\<lparr>hReasonTb := r\<rparr>) = uview st"
  "hview (st\<lparr>hReasonTb := r\<rparr>) = hview st"
  by (auto simp: view_defs fun_eq_iff)

lemma same_queue:
  "\<lbrakk>queues st q = Some d; q_cnt d' = q_cnt d\<rbrakk> \<Longrightarrow> same_counts st (st\<lparr>queues := (queues st)(q \<mapsto> d')\<rparr>)"
  by (simp add: same_counts_def qcnt_upd) (auto simp: qcnt_def)

lemma same_user:
  "\<lbrakk>users st u = Some d; u_cnt d' = u_cnt d; u_gPtr d' = u_gPtr d;
    flag (u_flags d') USER_INIT = flag (u_flags d) USER_INIT\<rbrakk> \<Longrightarrow>
   same_counts st (st\<lparr>users := (users st)(u \<mapsto> d')\<rparr>)"
  by (simp add: same_counts_def uview_upd) (auto simp: uview_def)

lemma same_host:
  "\<lbrakk>hosts st h = Some d; h_cnt d' = h_cnt d; hStatus d' = hStatus d\<rbrakk> \<Longrightarrow>
   same_counts st (st\<lparr>hosts := (hosts st)(h \<mapsto> d')\<rparr>)"
  by (simp add: same_counts_def hview_upd) (auto simp: hview_def)

lemma updUAcct_queue:
  assumes "queues st (qPtr j) \<noteq> None"
  shows "\<exists>st'. updUAcct st j up r s u v p None = Some st' \<and> same_counts st st' \<and> users st' = users st"
proof -
  obtain qp where qp: "queues st (qPtr j) = Some qp" using assms by blast
  show ?thesis
    using qp by (auto simp: updUAcct_def Let_def split: option.split intro!: same_queue [OF qp])
qed

lemma upd_ancestors_ok:
  assumes "queues st (qPtr j) \<noteq> None"
  shows "\<exists>st'. upd_ancestors st j r s u v p gs = Some st' \<and> same_counts st st'"
  using assms
proof (induction gs arbitrary: st)
  case (Cons g gs)
  obtain st1 where st1: "updUAcct st j g r s u v p None = Some st1" "same_counts st st1"
    using updUAcct_queue [OF Cons.prems] by blast
  then have "queues st1 (qPtr j) \<noteq> None"
    using Cons.prems by (metis same_counts_def view_dom(1))
  from Cons.IH [OF this] obtain st2 where "upd_ancestors st1 j r s u v p gs = Some st2"
    "same_counts st1 st2" by blast
  then show ?case
    using st1(1) same_counts_trans [OF st1(2)] by simp
qed simp

lemma updUAcct_host:
  assumes "hosts st hn \<noteq> None" "users st up \<noteq> None"
  shows "\<exists>st'. updUAcct st j up r s u v p (Some hn) = Some st' \<and> same_counts st st'"
proof -
  obtain h d where h: "hosts st hn = Some h" and d: "users st up = Some d" using assms by blast
  have "same_counts st (st\<lparr>hosts := (hosts st)(hn \<mapsto> h\<lparr>h_uAcct := x\<rparr>),
           users := (users st)(up \<mapsto> d\<lparr>u_reasonTb := y\<rparr>)\<rparr>)" for x y
    by (rule same_counts_trans [OF same_host [OF h, of "h\<lparr>h_uAcct := x\<rparr>"]])
      (use same_user [of "st\<lparr>hosts := (hosts st)(hn \<mapsto> h\<lparr>h_uAcct := x\<rparr>)\<rparr>" up d "d\<lparr>u_reasonTb := y\<rparr>"] d
       in simp_all)
  then show ?thesis
    using h d by (auto simp: updUAcct_def Let_def split: option.split)
qed

lemma hacct_host_frame [simp]:
  "q_cnt (hacct_queue_host stage h hn r s u v qp) = q_cnt qp"
  "u_cnt (hacct_user_host h hn r s u v up) = u_cnt up"
  "u_gPtr (hacct_user_host h hn r s u v up) = u_gPtr up"
  "u_flags (hacct_user_host h hn r s u v up) = u_flags up"
  by (simp_all add: hacct_queue_host_def hacct_user_host_def Let_def split: prod.split)

lemma same_counts_dom:
  assumes "same_counts st st'"
  shows "queues st' q = None \<longleftrightarrow> queues st q = None" "users st' u = None \<longleftrightarrow> users st u = None"
    "hosts st' h = None \<longleftrightarrow> hosts st h = None"
  using assms by (metis same_counts_def view_dom)+

definition owner_known :: "acct \<Rightarrow> hacct_owner \<Rightarrow> bool" where
  "owner_known st own = (case own of OfQueue q \<Rightarrow> queues st q \<noteq> None | OfUser u \<Rightarrow> users st u \<noteq> None)"

lemma updHAcct_loop_ok:
  assumes "owner_known st own" "\<forall>h\<in>set hs. hosts st h \<noteq> None"
  shows "\<exists>st'. updHAcct_loop st own r s u v hs = Some st' \<and> same_counts st st'"
  using assms
proof (induction hs arbitrary: st)
  case (Cons hn hs)
  obtain h where h: "hosts st hn = Some h" using Cons.prems(2) by auto
  let ?step = "if flag (hStatus h) HOST_STAT_REMOTE then Some st
        else (case own of
            OfQueue q \<Rightarrow> Option.bind (queues st q) (\<lambda>qp. Some (st\<lparr>queues := (queues st)
                (q \<mapsto> hacct_queue_host (mSchedStage st) h hn r s u v qp)\<rparr>))
          | OfUser w \<Rightarrow> Option.bind (users st w) (\<lambda>up. Some (st\<lparr>users := (users st)
                (w \<mapsto> hacct_user_host h hn r s u v up)\<rparr>)))"
  have "\<exists>st1. ?step = Some st1 \<and> same_counts st st1"
    using Cons.prems(1)
    by (cases own) (auto simp: owner_known_def intro!: same_queue same_user)
  then obtain st1 where st1: "?step = Some st1" "same_counts st st1" by blast
  have "owner_known st1 own" "\<forall>h\<in>set hs. hosts st1 h \<noteq> None"
    using Cons.prems same_counts_dom [OF st1(2)]
    by (auto simp: owner_known_def split: hacct_owner.splits)
  from Cons.IH [OF this] obtain st2 where "updHAcct_loop st1 own r s u v hs = Some st2"
    "same_counts st1 st2" by blast
  then show ?case
    using h st1(1) same_counts_trans [OF st1(2)] by simp
qed simp

lemma clear_update_usable_cnt [simp]: "q_cnt (clear_update_usable qp) = q_cnt qp"
  by (simp add: clear_update_usable_def)

lemma usable_host_cnt [simp]: "q_cnt (usable_host env st q hn h qp) = q_cnt qp"
  by (simp add: usable_host_def Let_def split: prod.split)

lemma getQUsable_cnt [simp]: "q_cnt (getQUsable env st q qp) = q_cnt qp"
proof -
  have "q_cnt (fold (\<lambda>hn qp. case hosts st hn of None \<Rightarrow> qp | Some h \<Rightarrow> usable_host env st q hn h qp) hs qp') =
      q_cnt qp'" for hs qp'
    by (induction hs arbitrary: qp') (auto split: option.split)
  then show ?thesis by (simp add: getQUsable_def Let_def)
qed

lemma updHAcct_ok:
  assumes "owner_known st own" "\<forall>h\<in>set (hPtr j). hosts st h \<noteq> None"
  shows "\<exists>st'. updHAcct gq st j own r s u v = Some st' \<and> same_counts st st'"
proof (cases own)
  case (OfUser w)
  then show ?thesis
    using updHAcct_loop_ok [OF assms(1,2)] by (auto simp: updHAcct_def)
next
  case (OfQueue q)
  then obtain qp where qp: "queues st q = Some qp"
    using assms(1) by (auto simp: owner_known_def)
  let ?st0 = "st\<lparr>queues := (queues st)(q \<mapsto> clear_update_usable qp)\<rparr>"
  have s0: "same_counts st ?st0" by (rule same_queue [OF qp]) simp
  have "owner_known ?st0 own" using OfQueue by (simp add: owner_known_def)
  then obtain st1 where st1: "updHAcct_loop ?st0 own r s u v (hPtr j) = Some st1" "same_counts ?st0 st1"
    using updHAcct_loop_ok [of ?st0 own "hPtr j" r s u v] assms(2) by auto
  then obtain qp1 where qp1: "queues st1 q = Some qp1"
    using same_counts_dom(1) [OF st1(2), of q] by auto
  have "same_counts st1 (st1\<lparr>queues := (queues st1)(q \<mapsto> clear_update_usable (getQUsable gq st1 q qp1))\<rparr>)"
    by (intro same_queue [OF qp1]) simp
  then have "same_counts st st1"
    "same_counts st (st1\<lparr>queues := (queues st1)(q \<mapsto> clear_update_usable (getQUsable gq st1 q qp1))\<rparr>)"
    using same_counts_trans [OF s0 st1(2)] same_counts_trans by blast+
  then show ?thesis
    using OfQueue qp qp1 st1(1) by (simp add: updHAcct_def)
qed

subsection \<open>Effect of the account updates on the counters\<close>

lemma queue_limit_reason_cnt [simp]: "q_cnt (queue_limit_reason qp) = q_cnt qp"
  by (simp add: queue_limit_reason_def Let_def)

lemma updQaccount_ok:
  assumes q: "qcnt st (qPtr j) = Some c" and u: "uPtr j = Some w" "users st w \<noteq> None"
    and h: "\<forall>h\<in>set (hPtr j). hosts st h \<noteq> None"
  shows "\<exists>st'. updQaccount gq st j nJ nP nR nS nU nV = Some st' \<and>
    qcnt st' = (qcnt st)(qPtr j \<mapsto> addCounters c nJ nP nR nS nU nV) \<and>
    uview st' = uview st \<and> hview st' = hview st \<and> usergroups st' = usergroups st"
proof -
  obtain qp where qp: "queues st (qPtr j) = Some qp" "c = q_cnt qp"
    using q by (auto simp: qcnt_def)
  let ?st1 = "st\<lparr>queues := (queues st)(qPtr j \<mapsto>
    queue_limit_reason (qp\<lparr>q_cnt := addCounters (q_cnt qp) nJ nP nR nS nU nV\<rparr>))\<rparr>"
  obtain st2 where st2: "updUAcct ?st1 j w nR nS nU nV nP None = Some st2" "same_counts ?st1 st2"
    "users st2 = users st"
    using updUAcct_queue [of ?st1 j w nR nS nU nV nP] by auto
  obtain up where up: "users st2 w = Some up" using st2(3) u(2) by auto
  have "queues st2 (qPtr j) \<noteq> None" using same_counts_dom(1) [OF st2(2)] by simp
  then obtain st3 where st3: "upd_ancestors st2 j nR nS nU nV nP (u_ancestors up) = Some st3"
    "same_counts st2 st3"
    using upd_ancestors_ok by blast
  have s13: "same_counts ?st1 st3" using st2(2) st3(2) by (rule same_counts_trans)
  then have "owner_known st3 (OfQueue (qPtr j))" "\<forall>h\<in>set (hPtr j). hosts st3 h \<noteq> None"
    using same_counts_dom [OF s13] h by (simp_all add: owner_known_def)
  then obtain st4 where st4: "updHAcct gq st3 j (OfQueue (qPtr j)) nR nS nU nV = Some st4"
    "same_counts st3 st4"
    using updHAcct_ok by blast
  have "qcnt ?st1 = (qcnt st)(qPtr j \<mapsto> addCounters c nJ nP nR nS nU nV)"
    using qp by (simp add: qcnt_upd)
  then show ?thesis
    using qp u st2(1) up st3(1) st4 s13 same_counts_trans [OF s13 st4(2)]
    by (auto simp: updQaccount_def same_counts_def Let_def)
qed

lemma flag_clear: "b AND NOT m = b \<Longrightarrow> flag (s AND NOT m) b = flag s b"
  by (rule flag_masked)

lemma user_init_flag [simp]:
  "flag (w AND NOT USER_GROUP) USER_INIT = flag w USER_INIT"
  "flag (w AND - 2) USER_INIT = flag w USER_INIT"
  "flag USER_GROUP USER_INIT = False" "flag USER_INIT USER_INIT = True"
proof -
  show "flag (w AND NOT USER_GROUP) USER_INIT = flag w USER_INIT"
    by (rule flag_clear) simp
  then show "flag (w AND - 2) USER_INIT = flag w USER_INIT" by simp
qed (simp_all add: flag_def)

lemma user_limit_reason_frame [simp]:
  "u_cnt (user_limit_reason r d) = u_cnt d" "u_gPtr (user_limit_reason r d) = u_gPtr d"
  "u_flags (user_limit_reason r d) = u_flags d"
  by (simp_all add: user_limit_reason_def Let_def)

lemma updUserData1_ok:
  assumes u: "uview st w = Some (c, gs, i)" and h: "\<forall>h\<in>set (hPtr j). hosts st h \<noteq> None"
  shows "\<exists>st'. updUserData1 gq st j w nJ nP nR nS nU nV = Some st' \<and>
    uview st' = (uview st)(w \<mapsto> (addCounters c nJ nP nR nS nU nV, gs, i)) \<and>
    qcnt st' = qcnt st \<and> hview st' = hview st \<and> usergroups st' = usergroups st"
proof -
  obtain up where up: "users st w = Some up" "c = u_cnt up" "gs = u_gPtr up"
    "i = flag (u_flags up) USER_INIT"
    using u by (auto simp: uview_def)
  let ?st1 = "st\<lparr>users := (users st)(w \<mapsto> up\<lparr>u_cnt := addCounters (u_cnt up) nJ nP nR nS nU nV\<rparr>)\<rparr>"
  have v1: "uview ?st1 = (uview st)(w \<mapsto> (addCounters c nJ nP nR nS nU nV, gs, i))"
    using up by (simp add: uview_upd)
  obtain st2 where "updHAcct gq ?st1 j (OfUser w) nR nS nU nV = Some st2" "same_counts ?st1 st2"
    using updHAcct_ok [of ?st1 "OfUser w" j gq nR nS nU nV] h by (auto simp: owner_known_def)
  then show ?thesis
    using up v1 by (simp add: updUserData1_def Let_def same_counts_def)
qed

text \<open>The counters of a list of users after the same update of each.\<close>

definition add_users ::
  "(string \<rightharpoonup> counters \<times> string list \<times> bool) \<Rightarrow> string list \<Rightarrow> int \<Rightarrow> int \<Rightarrow> int \<Rightarrow> int \<Rightarrow> int \<Rightarrow> int \<Rightarrow>
   (string \<rightharpoonup> counters \<times> string list \<times> bool)" where
  "add_users V us nJ nP nR nS nU nV = (\<lambda>w.
     if w \<in> set us
     then map_option (\<lambda>(c, gs, i). (addCounters c nJ nP nR nS nU nV, gs, i)) (V w) else V w)"

lemma upd_groups_ok:
  assumes "distinct gs" "\<forall>g\<in>set gs. users st g \<noteq> None" "\<forall>h\<in>set (hPtr j). hosts st h \<noteq> None"
   
  shows "\<exists>st' n'. upd_groups gq st j nJ nP nR nS nU nV n gs = Some (st', n') \<and>
    uview st' = add_users (uview st) gs nJ nP nR nS nU nV \<and>
    qcnt st' = qcnt st \<and> hview st' = hview st \<and> usergroups st' = usergroups st"
  using assms(1-3)
proof (induction gs arbitrary: st n)
  case Nil
  then show ?case by (simp add: add_users_def)
next
  case (Cons g gs)
  obtain d where d: "users st g = Some d" using Cons.prems(2) by auto
  let ?st1 = "st\<lparr>users := (users st)(g \<mapsto> d\<lparr>u_flags := u_flags d OR USER_GROUP\<rparr>)\<rparr>"
  have s1: "same_counts st ?st1" by (rule same_user [OF d]) simp_all
  obtain c ps i where v: "uview st g = Some (c, ps, i)" using d by (simp add: uview_def)
  then have v1: "uview ?st1 g = Some (c, ps, i)" using s1 by (simp add: same_counts_def)
  obtain st2 where st2: "updUserData1 gq ?st1 j g nJ nP nR nS nU nV = Some st2"
    "uview st2 = (uview ?st1)(g \<mapsto> (addCounters c nJ nP nR nS nU nV, ps, i))"
    "qcnt st2 = qcnt ?st1" "hview st2 = hview ?st1" "usergroups st2 = usergroups ?st1"
    using updUserData1_ok [OF v1, of j gq nJ nP nR nS nU nV] Cons.prems(3) by auto
  obtain d2 where d2: "users st2 g = Some d2"
    using st2(2) view_dom(2) [of st2 g] by auto
  let ?st3 = "if nR = 0 \<and> nS = 0 \<and> nU = 0 \<and> nV = 0 then st2
    else st2\<lparr>users := (users st2)(g \<mapsto> user_limit_reason PEND_UGRP_JOB_LIMIT d2)\<rparr>"
  have s3: "same_counts st2 ?st3" by (simp add: same_user [OF d2])
  have views3: "uview ?st3 = (uview st)(g \<mapsto> (addCounters c nJ nP nR nS nU nV, ps, i))"
    "qcnt ?st3 = qcnt st" "hview ?st3 = hview st" "usergroups ?st3 = usergroups st"
    using s1 s3 st2(2-5) by (simp_all only: same_counts_def)
  have known: "\<forall>g\<in>set gs. users ?st3 g \<noteq> None" "\<forall>h\<in>set (hPtr j). hosts ?st3 h \<noteq> None"
    using Cons.prems(2,3) views3 by (metis fun_upd_apply list.set_intros(2) option.distinct(1) view_dom(2))
      (metis Cons.prems(3) views3(3) view_dom(3))
  have dist: "distinct gs" using Cons.prems(1) by simp
  let ?n' = "if nR = 0 \<and> nS = 0 \<and> nU = 0 \<and> nV = 0 then n else min (user_slots d2) n"
  obtain st4 n4 where st4: "upd_groups gq ?st3 j nJ nP nR nS nU nV ?n' gs = Some (st4, n4)"
    "uview st4 = add_users (uview ?st3) gs nJ nP nR nS nU nV"
    "qcnt st4 = qcnt ?st3" "hview st4 = hview ?st3" "usergroups st4 = usergroups ?st3"
    using Cons.IH [OF dist known, of ?n'] by blast
  have "upd_groups gq st j nJ nP nR nS nU nV n (g # gs) = Some (st4, n4)"
    using d st2(1) d2 st4(1) by (cases "nR = 0 \<and> nS = 0 \<and> nU = 0 \<and> nV = 0") (auto simp: Let_def)
  moreover have "uview st4 = add_users (uview st) (g # gs) nJ nP nR nS nU nV"
    using st4(2) views3(1) v Cons.prems(1) by (auto simp: add_users_def fun_eq_iff)
  ultimately show ?case using st4 views3 by auto
qed

text \<open>The groups of a user that are charged with the user's jobs.\<close>

definition groups_of :: "acct \<Rightarrow> string \<Rightarrow> string list" where
  "groups_of st w =
     (if usergroups st = [] then [] else (case uview st w of None \<Rightarrow> [] | Some (c, gs, i) \<Rightarrow> gs))"

definition user_ready :: "acct \<Rightarrow> string \<Rightarrow> bool" where
  "user_ready st w \<longleftrightarrow>
     (case uview st w of None \<Rightarrow> False | Some (c, gs, i) \<Rightarrow> usergroups st = [] \<or> i) \<and>
     distinct (w # groups_of st w) \<and> (\<forall>g\<in>set (groups_of st w). uview st g \<noteq> None)"

lemma set_user_slots_ok:
  "users st w \<noteq> None \<Longrightarrow> \<exists>st'. set_user_slots st w n = Some st' \<and> same_counts st st'"
  by (auto simp: set_user_slots_def intro!: same_user)

lemma add_users_Cons:
  assumes "V w = Some (c, gs, i)" "w \<notin> set us"
  shows "add_users (V(w \<mapsto> (addCounters c nJ nP nR nS nU nV, gs, i))) us nJ nP nR nS nU nV =
    add_users V (w # us) nJ nP nR nS nU nV"
  using assms by (auto simp: add_users_def fun_eq_iff)

lemma updUserData_ok:
  assumes j: "uPtr j = Some w" and ready: "user_ready st w"
    and h: "\<forall>h\<in>set (hPtr j). hosts st h \<noteq> None"
  shows "\<exists>st'. updUserData gq junk st j nJ nP nR nS nU nV = Some (st', j) \<and>
    uview st' = add_users (uview st) (w # groups_of st w) nJ nP nR nS nU nV \<and>
    qcnt st' = qcnt st \<and> hview st' = hview st \<and> usergroups st' = usergroups st"
proof -
  obtain c gs i where v: "uview st w = Some (c, gs, i)" and i: "usergroups st = [] \<or> i"
    using ready by (auto simp: user_ready_def split: option.splits)
  obtain up where up: "users st w = Some up" using v by (auto simp: uview_def)
  let ?st1 = "st\<lparr>users := (users st)(w \<mapsto> up\<lparr>u_flags := u_flags up AND NOT USER_GROUP\<rparr>)\<rparr>"
  have s1: "same_counts st ?st1" by (rule same_user [OF up]) simp_all
  then have v1: "uview ?st1 w = Some (c, gs, i)" using v by (simp add: same_counts_def)
  obtain st2 where st2: "updUserData1 gq ?st1 j w nJ nP nR nS nU nV = Some st2"
    "uview st2 = (uview ?st1)(w \<mapsto> (addCounters c nJ nP nR nS nU nV, gs, i))"
    "qcnt st2 = qcnt ?st1" "hview st2 = hview ?st1" "usergroups st2 = usergroups ?st1"
    using updUserData1_ok [OF v1, of j gq nJ nP nR nS nU nV] h by auto
  obtain up2 where up2: "users st2 w = Some up2"
    using st2(2) view_dom(2) [of st2 w] by auto
  let ?new = "nR = 0 \<and> nS = 0 \<and> nU = 0 \<and> nV = 0"
  let ?st3 = "if ?new then st2
    else st2\<lparr>users := (users st2)(w \<mapsto> user_limit_reason PEND_USER_JOB_LIMIT up2)\<rparr>"
  let ?n = "if ?new then junk else user_slots up2"
  have s3: "same_counts st2 ?st3" by (simp add: same_user [OF up2])
  have v3: "uview ?st3 = (uview st)(w \<mapsto> (addCounters c nJ nP nR nS nU nV, gs, i))"
    "qcnt ?st3 = qcnt st" "hview ?st3 = hview st" "usergroups ?st3 = usergroups st"
    using s1 s3 st2(2-5) by (simp_all only: same_counts_def)
  have w3: "users ?st3 w \<noteq> None" using v3(1) by (metis fun_upd_same option.distinct(1) view_dom(2))
  note pre = up st2(1) up2 j
  show ?thesis
  proof (cases "usergroups st = []")
    case True
    obtain st4 where "set_user_slots ?st3 w ?n = Some st4" "same_counts ?st3 st4"
      using set_user_slots_ok [OF w3] by blast
    moreover have "groups_of st w = []" using True by (simp add: groups_of_def)
    ultimately show ?thesis
      using pre v v3 True add_users_Cons [of "uview st" w c gs i "[]"]
      by (auto simp: updUserData_def Let_def same_counts_def add_users_def split: if_splits)
  next
    case False
    then have gs: "groups_of st w = gs" and i: i using v i by (auto simp: groups_of_def)
    obtain up3 where up3: "users ?st3 w = Some up3" using w3 by blast
    have "u_gPtr up3 = gs" "flag (u_flags up3) USER_INIT"
      using v3(1) up3 i by (auto simp: uview_def fun_eq_iff split: if_splits dest!: spec [of _ w])
    then have ig: "init_groups ?st3 j w = Some ?st3" using up3 by (simp add: init_groups_def)
    have "distinct gs" "\<forall>g\<in>set gs. users ?st3 g \<noteq> None" "\<forall>h\<in>set (hPtr j). hosts ?st3 h \<noteq> None"
      "w \<notin> set gs"
      using ready gs h v3 unfolding user_ready_def
      by (auto simp: view_dom [symmetric] simp del: if_split)
    then obtain st4 n4 where st4: "upd_groups gq ?st3 j nJ nP nR nS nU nV ?n gs = Some (st4, n4)"
      "uview st4 = add_users (uview ?st3) gs nJ nP nR nS nU nV"
      "qcnt st4 = qcnt ?st3" "hview st4 = hview ?st3" "usergroups st4 = usergroups ?st3"
      using upd_groups_ok [of gs ?st3 j gq nJ nP nR nS nU nV ?n] by blast
    obtain st5 where st5: "set_user_slots st4 w n4 = Some st5" "same_counts st4 st5"
      using set_user_slots_ok [of st4 w n4] st4(2) v3(1) \<open>w \<notin> set gs\<close>
      by (metis (no_types, lifting) add_users_def fun_upd_same option.distinct(1) view_dom(2))
    have "updUserData gq junk st j nJ nP nR nS nU nV = Some (st5, j)"
      using pre up3 ig st4(1) st5(1) v3(4) False \<open>u_gPtr up3 = gs\<close>
      by (simp add: updUserData_def Let_def split: if_splits)
    then show ?thesis
      using st4 st5(2) v3 gs add_users_Cons [of "uview st" w c gs i gs, OF v \<open>w \<notin> set gs\<close>]
      by (auto simp: same_counts_def simp del: if_split)
  qed
qed

lemma host_remote_flag [simp]:
  "flag (w AND NOT HOST_STAT_FULL) HOST_STAT_REMOTE = flag w HOST_STAT_REMOTE"
  "flag (w AND NOT HOST_STAT_EXCLUSIVE) HOST_STAT_REMOTE = flag w HOST_STAT_REMOTE"
  "flag (w AND - 17) HOST_STAT_REMOTE = flag w HOST_STAT_REMOTE"
  "flag (w AND - 257) HOST_STAT_REMOTE = flag w HOST_STAT_REMOTE"
  "flag HOST_STAT_FULL HOST_STAT_REMOTE = False"
proof -
  show a: "flag (w AND NOT HOST_STAT_FULL) HOST_STAT_REMOTE = flag w HOST_STAT_REMOTE"
    and b: "flag (w AND NOT HOST_STAT_EXCLUSIVE) HOST_STAT_REMOTE = flag w HOST_STAT_REMOTE"
    by (rule flag_clear; simp)+
  show "flag (w AND - 17) HOST_STAT_REMOTE = flag w HOST_STAT_REMOTE"
    "flag (w AND - 257) HOST_STAT_REMOTE = flag w HOST_STAT_REMOTE"
    using a b by simp_all
qed (simp add: flag_def)

text \<open>The counters of the hosts after one update per slot.\<close>

definition add_hosts ::
  "(string \<rightharpoonup> counters \<times> bool) \<Rightarrow> string list \<Rightarrow> int \<Rightarrow> int \<Rightarrow> int \<Rightarrow> int \<Rightarrow> int \<Rightarrow> (string \<rightharpoonup> counters \<times> bool)" where
  "add_hosts V hs nJ nR nS nU nV = (\<lambda>h.
     map_option (\<lambda>(c, remote).
       (if remote then c else ((\<lambda>c. addCounters c nJ 0 nR nS nU nV) ^^ count_list hs h) c, remote)) (V h))"

lemma add_hosts_Nil [simp]: "add_hosts V [] nJ nR nS nU nV = V"
proof (rule ext)
  fix x
  show "add_hosts V [] nJ nR nS nU nV x = V x"
    by (cases "V x") (auto simp: add_hosts_def)
qed

lemma add_hosts_Cons:
  assumes "V hn = Some (c, r)"
  shows "add_hosts V (hn # hs) nJ nR nS nU nV =
    add_hosts (if r then V else V(hn \<mapsto> (addCounters c nJ 0 nR nS nU nV, r))) hs nJ nR nS nU nV"
proof (rule ext)
  fix x
  show "add_hosts V (hn # hs) nJ nR nS nU nV x =
    add_hosts (if r then V else V(hn \<mapsto> (addCounters c nJ 0 nR nS nU nV, r))) hs nJ nR nS nU nV x"
    using assms funpow_swap1 [of "\<lambda>c. addCounters c nJ 0 nR nS nU nV" "count_list hs hn" c]
    by (cases "V x") (auto simp: add_hosts_def)
qed

lemma qcnt_clear_reason:
  "qcnt (st\<lparr>queues := \<lambda>q. map_option (clear_queue_reason i r) (queues st q)\<rparr>) = qcnt st"
  by (auto simp: qcnt_def clear_queue_reason_def option.map_comp fun_eq_iff intro!: map_option_cong)

lemma charge_host_views:
  assumes "\<not> flag (hStatus h) HOST_STAT_REMOTE"
  shows "hview (charge_host st hn h nJ nR nS nU nV) =
      (hview st)(hn \<mapsto> (addCounters (h_cnt h) nJ 0 nR nS nU nV, False))"
    and "qcnt (charge_host st hn h nJ nR nS nU nV) = qcnt st"
    and "uview (charge_host st hn h nJ nR nS nU nV) = uview st"
    and "usergroups (charge_host st hn h nJ nR nS nU nV) = usergroups st"
proof -
  let ?st = "charge_host st hn h nJ nR nS nU nV"
  show "hview ?st = (hview st)(hn \<mapsto> (addCounters (h_cnt h) nJ 0 nR nS nU nV, False))"
    using assms by (auto simp: charge_host_def Let_def hview_def)
  show "qcnt ?st = qcnt st"
    by (simp add: charge_host_def Let_def qcnt_clear_reason)
qed (simp_all add: charge_host_def Let_def)

lemma updHostData_ok:
  assumes "uPtr j = Some w" "users st w \<noteq> None" "\<forall>h\<in>set hs. hosts st h \<noteq> None"
  shows "\<exists>st'. updHostData st j nJ nR nS nU nV hs = Some st' \<and>
    hview st' = add_hosts (hview st) hs nJ nR nS nU nV \<and>
    qcnt st' = qcnt st \<and> uview st' = uview st \<and> usergroups st' = usergroups st"
  using assms(2,3)
proof (induction hs arbitrary: st)
  case (Cons hn hs)
  obtain h0 where h0: "hosts st hn = Some h0" using Cons.prems(2) by auto
  then have v: "hview st hn = Some (h_cnt h0, flag (hStatus h0) HOST_STAT_REMOTE)"
    by (simp add: hview_def)
  show ?case
  proof (cases "flag (hStatus h0) HOST_STAT_REMOTE")
    case True
    then show ?thesis
      using Cons.IH [of st] Cons.prems h0 v by (simp add: add_hosts_Cons [of "hview st", OF v])
  next
    case False
    let ?upd = "if h_uJobLimit h0 < INFINIT_INT \<and> (nR \<noteq> 0 \<or> nS \<noteq> 0 \<or> nU \<noteq> 0 \<or> nV \<noteq> 0)
          then updUAcct st j w nR nS nU nV 0 (Some hn) else Some st"
    have "\<exists>st1. ?upd = Some st1 \<and> same_counts st st1"
      using updUAcct_host [of st hn w j nR nS nU nV 0] h0 Cons.prems(1) by auto
    then obtain st1 where st1: "?upd = Some st1" "same_counts st st1" by blast
    then obtain h1 where h1: "hosts st1 hn = Some h1"
      "h_cnt h1 = h_cnt h0" "\<not> flag (hStatus h1) HOST_STAT_REMOTE"
      using v False by (auto simp: same_counts_def hview_def fun_eq_iff dest!: spec [of _ hn])
    let ?st2 = "charge_host st1 hn h1 nJ nR nS nU nV"
    have s2: "hview ?st2 = (hview st)(hn \<mapsto> (addCounters (h_cnt h0) nJ 0 nR nS nU nV, False))"
      "qcnt ?st2 = qcnt st" "uview ?st2 = uview st" "usergroups ?st2 = usergroups st"
      using charge_host_views [OF h1(3)] st1(2) h1(2) by (simp_all add: same_counts_def)
    have "users ?st2 w \<noteq> None" "\<forall>h\<in>set hs. hosts ?st2 h \<noteq> None"
      using Cons.prems s2(1,3) by (auto simp: view_dom [symmetric])
    from Cons.IH [OF this] obtain st' where "updHostData ?st2 j nJ nR nS nU nV hs = Some st'"
      "hview st' = add_hosts (hview ?st2) hs nJ nR nS nU nV"
      "qcnt st' = qcnt ?st2" "uview st' = uview ?st2" "usergroups st' = usergroups ?st2"
      by blast
    moreover have "add_hosts (hview st) (hn # hs) nJ nR nS nU nV =
        add_hosts (hview ?st2) hs nJ nR nS nU nV"
      using add_hosts_Cons [of "hview st", OF v] s2(1) False by simp
    ultimately show ?thesis
      using h0 False st1(1) h1(1) assms(1) s2(2-4) by auto
  qed
qed simp

subsection \<open>What the counters should be\<close>







definition job_ok :: "acct \<Rightarrow> jData \<Rightarrow> bool" where
  "job_ok st j \<longleftrightarrow>
     qcnt st (qPtr j) \<noteq> None \<and> (case uPtr j of None \<Rightarrow> False | Some w \<Rightarrow> user_ready st w) \<and>
     (\<forall>h\<in>set (hPtr j). hview st h \<noteq> None) \<and> 0 \<le> maxNumProcessors j"



text \<open>Charging the difference \<open>D\<close> to the queue, the user and the groups of \<open>j\<close>, and \<open>E\<close> per slot to
  its hosts.\<close>

definition moved :: "acct \<Rightarrow> acct \<Rightarrow> jData \<Rightarrow> counters \<Rightarrow> counters \<Rightarrow> bool" where
  "moved st st' j D E \<longleftrightarrow>
     (\<exists>c w. qcnt st (qPtr j) = Some c \<and> uPtr j = Some w \<and>
        qcnt st' = (qcnt st)(qPtr j \<mapsto> addCounters c (numJobs D) (numPEND D) (numRUN D) (numSSUSP D)
                               (numUSUSP D) (numRESERVE D)) \<and>
        uview st' = add_users (uview st) (w # groups_of st w) (numJobs D) (numPEND D) (numRUN D)
                      (numSSUSP D) (numUSUSP D) (numRESERVE D)) \<and>
     (hview st' = add_hosts (hview st) (hPtr j) (numJobs E) (numRUN E) (numSSUSP E) (numUSUSP E)
                    (numRESERVE E) \<or>
      E = zero_counters \<and> hview st' = hview st) \<and>
     numPEND E = 0 \<and> usergroups st' = usergroups st"

lemma ready_cong:
  assumes "uview st' = uview st" "usergroups st' = usergroups st"
  shows "groups_of st' w = groups_of st w" "user_ready st' w = user_ready st w"
  by (simp_all only: groups_of_def user_ready_def assms)

lemma job_okE:
  assumes "job_ok st j"
  obtains c w where "qcnt st (qPtr j) = Some c" "uPtr j = Some w" "user_ready st w"
    "users st w \<noteq> None" "\<forall>h\<in>set (hPtr j). hosts st h \<noteq> None" "0 \<le> maxNumProcessors j"
proof -
  from assms obtain c w where *: "qcnt st (qPtr j) = Some c" "uPtr j = Some w" "user_ready st w"
    "\<forall>h\<in>set (hPtr j). hview st h \<noteq> None" "0 \<le> maxNumProcessors j"
    by (auto simp: job_ok_def split: option.splits)
  then have "users st w \<noteq> None" "\<forall>h\<in>set (hPtr j). hosts st h \<noteq> None"
    by (auto simp: user_ready_def view_dom [symmetric] split: option.splits)
  with * that show thesis by blast
qed




abbreviation move_out_by :: "usable_env \<Rightarrow> int \<Rightarrow> acct \<Rightarrow> jData \<Rightarrow> counters \<Rightarrow> counters \<Rightarrow> (acct \<times> jData) option" where
  "move_out_by gq junk st j D E \<equiv> move_out gq junk st j (numJobs D) (numPEND D) (numRUN D) (numSSUSP D) (numUSUSP D) (numRESERVE D)
     (numJobs E) (numRUN E) (numSSUSP E) (numUSUSP E) (numRESERVE E)"


lemma move_out_ok:
  assumes "job_ok st j" "numPEND E = 0"
  shows "\<exists>st'. move_out_by gq junk st j D E = Some (st', j) \<and> moved st st' j D E"
proof -
  from assms(1) obtain c w where w: "qcnt st (qPtr j) = Some c" "uPtr j = Some w" "user_ready st w"
    "users st w \<noteq> None" "\<forall>h\<in>set (hPtr j). hosts st h \<noteq> None" by (rule job_okE)
  obtain st1 where st1: "updQaccount gq st j (numJobs D) (numPEND D) (numRUN D) (numSSUSP D) (numUSUSP D) (numRESERVE D) = Some st1"
    "qcnt st1 = (qcnt st)(qPtr j \<mapsto> addCounters c (numJobs D) (numPEND D) (numRUN D) (numSSUSP D) (numUSUSP D) (numRESERVE D))"
    "uview st1 = uview st" "hview st1 = hview st" "usergroups st1 = usergroups st"
    using updQaccount_ok [OF w(1,2,4,5)] by blast
  have "users st1 w \<noteq> None" "\<forall>h\<in>set (hPtr j). hosts st1 h \<noteq> None"
    using w(4,5) st1(3,4) by (metis view_dom)+
  then obtain st2 where st2: "updHostData st1 j (numJobs E) (numRUN E) (numSSUSP E) (numUSUSP E) (numRESERVE E) (hPtr j) = Some st2"
    "hview st2 = add_hosts (hview st1) (hPtr j) (numJobs E) (numRUN E) (numSSUSP E) (numUSUSP E) (numRESERVE E)"
    "qcnt st2 = qcnt st1" "uview st2 = uview st1" "usergroups st2 = usergroups st1"
    using updHostData_ok [OF w(2), of st1 "hPtr j"] by blast
  have rc: "groups_of st2 w = groups_of st w" "user_ready st2 w"
    using ready_cong [of st2 st w] st1(3,5) st2(4,5) w(3) by simp_all
  have "\<forall>h\<in>set (hPtr j). hosts st2 h \<noteq> None"
    using w(5) st1(4) st2(2) by (auto simp: view_dom [symmetric] add_hosts_def)
  then obtain st3 where "updUserData gq junk st2 j (numJobs D) (numPEND D) (numRUN D) (numSSUSP D) (numUSUSP D) (numRESERVE D) = Some (st3, j)"
    "uview st3 = add_users (uview st2) (w # groups_of st2 w) (numJobs D) (numPEND D) (numRUN D) (numSSUSP D) (numUSUSP D) (numRESERVE D)"
    "qcnt st3 = qcnt st2" "hview st3 = hview st2" "usergroups st3 = usergroups st2"
    using updUserData_ok [OF w(2) rc(2), where gq = gq and junk = junk] by blast
  then show ?thesis
    using st1 st2 w(1,2) rc(1) assms(2) by (auto simp: move_out_def moved_def)
qed

subsection \<open>updCounters charges the difference\<close>

lemma live_flag:
  assumes "b AND (MASK_INT_JOB_STAT AND NOT JOB_STAT_UNKWN) = b"
  shows "flag (live_status s) b = flag s b"
proof -
  have "live_status s = s AND (MASK_INT_JOB_STAT AND NOT JOB_STAT_UNKWN)"
    by (simp add: live_status_def MASK_STATUS_def and.assoc and.commute [of "- 65537"])
  then show ?thesis using flag_masked [OF assms] by simp
qed

lemma live_flags:
  assumes "live_status s = x"
  shows "flag s JOB_STAT_PEND = flag x JOB_STAT_PEND" "flag s JOB_STAT_PSUSP = flag x JOB_STAT_PSUSP"
    "flag s JOB_STAT_RUN = flag x JOB_STAT_RUN" "flag s JOB_STAT_SSUSP = flag x JOB_STAT_SSUSP"
    "flag s JOB_STAT_USUSP = flag x JOB_STAT_USUSP" "flag s JOB_STAT_EXIT = flag x JOB_STAT_EXIT"
    "flag s JOB_STAT_DONE = flag x JOB_STAT_DONE" "flag s JOB_STAT_WAIT = flag x JOB_STAT_WAIT"
  unfolding assms [symmetric] by (simp_all add: live_flag)

text \<open>The bits of a status word whose live part is known.\<close>

lemma status_bits [flag_simps]:
  "live_status s = JOB_STAT_PEND \<Longrightarrow> flag s JOB_STAT_PEND \<and> \<not> flag s JOB_STAT_PSUSP \<and>
     \<not> flag s JOB_STAT_RUN \<and> \<not> flag s JOB_STAT_SSUSP \<and> \<not> flag s JOB_STAT_USUSP \<and>
     \<not> flag s JOB_STAT_EXIT \<and> \<not> flag s JOB_STAT_DONE \<and> \<not> flag s JOB_STAT_WAIT"
  "live_status s = JOB_STAT_PSUSP \<Longrightarrow> \<not> flag s JOB_STAT_PEND \<and> flag s JOB_STAT_PSUSP \<and>
     \<not> flag s JOB_STAT_RUN \<and> \<not> flag s JOB_STAT_SSUSP \<and> \<not> flag s JOB_STAT_USUSP \<and>
     \<not> flag s JOB_STAT_EXIT \<and> \<not> flag s JOB_STAT_DONE \<and> \<not> flag s JOB_STAT_WAIT"
  "live_status s = JOB_STAT_RUN \<Longrightarrow> \<not> flag s JOB_STAT_PEND \<and> \<not> flag s JOB_STAT_PSUSP \<and>
     flag s JOB_STAT_RUN \<and> \<not> flag s JOB_STAT_SSUSP \<and> \<not> flag s JOB_STAT_USUSP \<and>
     \<not> flag s JOB_STAT_EXIT \<and> \<not> flag s JOB_STAT_DONE \<and> \<not> flag s JOB_STAT_WAIT"
  "live_status s = JOB_STAT_SSUSP \<Longrightarrow> \<not> flag s JOB_STAT_PEND \<and> \<not> flag s JOB_STAT_PSUSP \<and>
     \<not> flag s JOB_STAT_RUN \<and> flag s JOB_STAT_SSUSP \<and> \<not> flag s JOB_STAT_USUSP \<and>
     \<not> flag s JOB_STAT_EXIT \<and> \<not> flag s JOB_STAT_DONE \<and> \<not> flag s JOB_STAT_WAIT"
  "live_status s = JOB_STAT_USUSP \<Longrightarrow> \<not> flag s JOB_STAT_PEND \<and> \<not> flag s JOB_STAT_PSUSP \<and>
     \<not> flag s JOB_STAT_RUN \<and> \<not> flag s JOB_STAT_SSUSP \<and> flag s JOB_STAT_USUSP \<and>
     \<not> flag s JOB_STAT_EXIT \<and> \<not> flag s JOB_STAT_DONE \<and> \<not> flag s JOB_STAT_WAIT"
  "live_status s = JOB_STAT_EXIT \<Longrightarrow> \<not> flag s JOB_STAT_PEND \<and> \<not> flag s JOB_STAT_PSUSP"
  "live_status s = JOB_STAT_DONE \<Longrightarrow> \<not> flag s JOB_STAT_PEND \<and> \<not> flag s JOB_STAT_PSUSP"
  using live_flags [of s] by (simp_all add: flag_def)










subsection \<open>The counters stay the sums over the jobs\<close>




















subsection \<open>An example cluster\<close>

text \<open>
  A queue with a limit of four slots, a user in one group, and two hosts; a job that asked for two
  slots, is dispatched to both slots of the first host, and one that is still pending.
\<close>

definition ex_queue :: qData where
  "ex_queue = \<lparr>q_cnt = zero_counters\<lparr>numJobs := 3, numPEND := 3\<rparr>, q_maxJobs = 4, q_uJobLimit = 2,
     q_hJobLimit = 2, q_pJobLimit = 2, q_reasonTb = (\<lambda>_. 0), q_flags = 0,
     q_uAcct = Map.empty, q_hAcct = Map.empty, q_priority = 30, q_acceptIntvl = 1,
     q_numUsable = 0, q_numSlots = 0, q_numReasons = 0, q_qAttrib = 0\<rparr>"

definition ex_user :: uData where
  "ex_user = initUData\<lparr>u_cnt := zero_counters\<lparr>numJobs := 3, numPEND := 3\<rparr>, u_flags := USER_INIT,
     u_gPtr := [''staff''], u_maxJobs := 2, u_pJobLimit := 1\<rparr>"

definition ex_group :: uData where
  "ex_group = initUData\<lparr>u_cnt := zero_counters\<lparr>numJobs := 3, numPEND := 3\<rparr>\<rparr>"

definition ex_host :: hData where
  "ex_host = \<lparr>h_cnt = zero_counters, hostId = 1, hStatus = 0, limStatus = 0, numCPUs = 2,
     h_uJobLimit = INFINIT_INT, h_maxJobs = 2, num_preemptable = 0, num_availd_ssusp = 0,
     h_uAcct = Map.empty, h_acceptTime = 0, h_numDispJobs = 0\<rparr>"

definition ex_acct :: acct where
  "ex_acct = \<lparr>queues = [''normal'' \<mapsto> ex_queue], users = [''ann'' \<mapsto> ex_user, ''staff'' \<mapsto> ex_group],
     hosts = [''h1'' \<mapsto> ex_host], hReasonTb = (\<lambda>_. 0), hostList = [''h1''], mSchedStage = 0,
     usergroups = [GData ''staff'' [''ann''] []], uGrpAllSet = [], allUsersSet = []\<rparr>"

definition ex_job :: jData where
  "ex_job = \<lparr>jobId = 1, jStatus = JOB_STAT_RUN, userName = ''ann'', userId = 7, uPtr = Some ''ann'',
     qPtr = ''normal'', hPtr = [''h1'', ''h1''], maxNumProcessors = 2\<rparr>"

definition ex_env :: usable_env where
  "ex_env = \<lparr>isHostQMember = (\<lambda>_ _. True), overThreshold = (\<lambda>_ _. 0), resReqOk = (\<lambda>_ _. True),
     overRideFromType = (\<lambda>_ _. False), startedJobs = [], now_disp = 100, msleeptime = 60,
     maxJobPerSession = 10\<rparr>"


subsection \<open>Properties\<close>



lemma ex_acct_views:
  "qcnt ex_acct = [''normal'' \<mapsto> zero_counters\<lparr>numJobs := 3, numPEND := 3\<rparr>]"
  "uview ex_acct = [''ann'' \<mapsto> (zero_counters\<lparr>numJobs := 3, numPEND := 3\<rparr>, [''staff''], True),
                    ''staff'' \<mapsto> (zero_counters\<lparr>numJobs := 3, numPEND := 3\<rparr>, [], False)]"
  "hview ex_acct = [''h1'' \<mapsto> (zero_counters, False)]" "usergroups ex_acct \<noteq> []"
proof -
  show "qcnt ex_acct = [''normal'' \<mapsto> zero_counters\<lparr>numJobs := 3, numPEND := 3\<rparr>]"
    "hview ex_acct = [''h1'' \<mapsto> (zero_counters, False)]" "usergroups ex_acct \<noteq> []"
    by (auto simp: qcnt_def hview_def ex_acct_def ex_queue_def ex_host_def flag_def)
  show "uview ex_acct = [''ann'' \<mapsto> (zero_counters\<lparr>numJobs := 3, numPEND := 3\<rparr>, [''staff''], True),
                    ''staff'' \<mapsto> (zero_counters\<lparr>numJobs := 3, numPEND := 3\<rparr>, [], False)]"
    by (rule ext) (simp add: uview_def ex_acct_def ex_user_def ex_group_def initUData_def flag_def)
qed


lemma status_bits_wait [flag_simps]:
  "live_status s = JOB_STAT_RUN OR JOB_STAT_WAIT \<Longrightarrow> flag s JOB_STAT_RUN \<and> flag s JOB_STAT_WAIT \<and>
     \<not> flag s JOB_STAT_PEND \<and> \<not> flag s JOB_STAT_PSUSP \<and> \<not> flag s JOB_STAT_EXIT \<and> \<not> flag s JOB_STAT_DONE"
  using live_flags [of s "JOB_STAT_RUN OR JOB_STAT_WAIT"] by (simp add: flag_def)

text \<open>C34. The status changes that are not accounted: a change from \<open>PSUSP\<close> to \<open>SSUSP\<close> or \<open>USUSP\<close>,
  from a started state to \<open>PSUSP\<close>, and from \<open>PEND\<close> to the waiting state \<open>RUN|WAIT\<close> of a chunk job leave
  every counter as it is, although the slots of the job should move. When such a waiting job
  finishes, its slots are taken from the running counter, where they were never added, and its
  pending slots stay charged to the queue.\<close>

theorem updCounters_gaps:
  assumes "job_ok st j" "qcnt st (qPtr j) = Some c"
  shows "(live_status old = JOB_STAT_PSUSP \<and> live_status (jStatus j) \<in> {JOB_STAT_SSUSP, JOB_STAT_USUSP} \<or>
          live_status old \<in> {JOB_STAT_RUN, JOB_STAT_SSUSP, JOB_STAT_USUSP} \<and>
            live_status (jStatus j) = JOB_STAT_PSUSP \<or>
          live_status old = JOB_STAT_PEND \<and> live_status (jStatus j) = JOB_STAT_RUN OR JOB_STAT_WAIT \<longrightarrow>
            updCounters env junk st j old = Some (st, j)) \<and>
    (live_status old = JOB_STAT_RUN OR JOB_STAT_WAIT \<and> live_status (jStatus j) = JOB_STAT_DONE \<longrightarrow>
      (\<exists>st'. updCounters env junk st j old = Some (st', j) \<and>
         qcnt st' (qPtr j) =
           Some (addCounters c (- numHostPtr j) 0 (- numHostPtr j) 0 0 0)))"
proof (intro conjI impI)
  assume "live_status old = JOB_STAT_PSUSP \<and> live_status (jStatus j) \<in> {JOB_STAT_SSUSP, JOB_STAT_USUSP} \<or>
          live_status old \<in> {JOB_STAT_RUN, JOB_STAT_SSUSP, JOB_STAT_USUSP} \<and>
            live_status (jStatus j) = JOB_STAT_PSUSP \<or>
          live_status old = JOB_STAT_PEND \<and> live_status (jStatus j) = JOB_STAT_RUN OR JOB_STAT_WAIT"
  then show "updCounters env junk st j old = Some (st, j)"
    by (elim disjE conjE insertE emptyE; simp add: updCounters_def Let_def flag_simps)
next
  assume *: "live_status old = JOB_STAT_RUN OR JOB_STAT_WAIT \<and> live_status (jStatus j) = JOB_STAT_DONE"
  then have "updCounters env junk st j old =
      move_out env junk st j (- numHostPtr j) 0 (- numHostPtr j) 0 0 0 (- 1) (- 1) 0 0 0"
    using status_bits_wait [of old] by (simp add: updCounters_def Let_def IS_FINISH_def IS_PEND_def)
  then show "\<exists>st'. updCounters env junk st j old = Some (st', j) \<and>
      qcnt st' (qPtr j) = Some (addCounters c (- numHostPtr j) 0 (- numHostPtr j) 0 0 0)"
    using move_out_ok [OF assms(1), of "zero_counters\<lparr>numJobs := - 1, numRUN := - 1\<rparr>" env junk
        "zero_counters\<lparr>numJobs := - numHostPtr j, numRUN := - numHostPtr j\<rparr>"]
      assms(2) by (auto simp: moved_def zero_counters_def)
qed

theorem updCounters_gaps_witness:
  "updCounters ex_env 0 ex_acct (ex_job\<lparr>jStatus := JOB_STAT_USUSP\<rparr>) JOB_STAT_PSUSP =
     Some (ex_acct, ex_job\<lparr>jStatus := JOB_STAT_USUSP\<rparr>)"
proof -
  let ?j = "ex_job\<lparr>jStatus := JOB_STAT_USUSP\<rparr>"
  have "job_ok ex_acct ?j"
    by (simp add: job_ok_def ex_acct_views ex_job_def user_ready_def groups_of_def)
  moreover have "qcnt ex_acct (qPtr ?j) = Some (zero_counters\<lparr>numJobs := 3, numPEND := 3\<rparr>)"
    by (simp add: ex_acct_views ex_job_def)
  moreover have "live_status JOB_STAT_PSUSP = JOB_STAT_PSUSP" "live_status (jStatus ?j) = JOB_STAT_USUSP"
    by (simp_all add: live_status_def MASK_STATUS_def)
  ultimately show ?thesis
    using updCounters_gaps [where st = ex_acct and j = ?j and env = ex_env and junk = 0
        and old = JOB_STAT_PSUSP] by blast
qed

end
