(* ===== verification/C_Strings.thy ===== *)
theory C_Strings
  imports Lava_Prelude
begin

text \<open>
  The character classes and string functions of the C library the parsers of the daemons use, on
  strings without the terminating zero, \<open>isint_\<close> of \<open>lsf/lib/lib.misc.c\<close>, and the decimal printing
  that inverts \<open>atoi\<close>.
\<close>

subsection \<open>Characters\<close>

definition isdigit :: "char \<Rightarrow> bool" where
  "isdigit c \<longleftrightarrow> of_char c \<ge> (48::nat) \<and> of_char c \<le> (57::nat)"

definition isalpha :: "char \<Rightarrow> bool" where
  "isalpha c \<longleftrightarrow> of_char c \<ge> (65::nat) \<and> of_char c \<le> (90::nat) \<or> of_char c \<ge> (97::nat) \<and> of_char c \<le> (122::nat)"

definition isalnum :: "char \<Rightarrow> bool" where
  "isalnum c \<longleftrightarrow> isalpha c \<or> isdigit c"

definition isspace :: "char \<Rightarrow> bool" where
  "isspace c \<longleftrightarrow> c = CHR '' '' \<or> of_char c \<ge> (9::nat) \<and> of_char c \<le> (13::nat)"

definition digit_val :: "char \<Rightarrow> int" where
  "digit_val c = int (of_char c) - 48"

definition digit_char :: "nat \<Rightarrow> char" where
  "digit_char d = char_of (48 + d)"

subsection \<open>Numbers\<close>

definition digits_val :: "string \<Rightarrow> int" where
  "digits_val = foldl (\<lambda>v c. 10 * v + digit_val c) 0"

definition clamp_long :: "int \<Rightarrow> int" where
  "clamp_long v = max (- (2 ^ 63)) (min v (2 ^ 63 - 1))"

text \<open>\<open>strtol\<close> in base 10: the value, the unconsumed rest and whether the range was exceeded.\<close>

definition strtol :: "string \<Rightarrow> int \<times> string \<times> bool" where
  "strtol s =
     (let s1 = dropWhile isspace s;
          neg = (s1 \<noteq> [] \<and> hd s1 = CHR ''-'');
          s2 = (if s1 \<noteq> [] \<and> (hd s1 = CHR ''-'' \<or> hd s1 = CHR ''+'') then tl s1 else s1);
          ds = takeWhile isdigit s2;
          v = (if neg then - digits_val ds else digits_val ds)
      in if ds = [] then (0, s, False)
         else (clamp_long v, dropWhile isdigit s2, clamp_long v \<noteq> v))"

definition atoi :: "string \<Rightarrow> int" where
  "atoi s = c_int (fst (strtol s))"

definition isint :: "string \<Rightarrow> bool" where
  "isint word \<longleftrightarrow>
     word \<noteq> [] \<and>
     (case strtol word of (number, rest, erange) \<Rightarrow>
        rest = [] \<and> \<not> erange \<and> c_int number \<le> INFINIT_INT \<and> c_int number > - INFINIT_INT)"

fun print_nat :: "nat \<Rightarrow> string" where
  "print_nat n = (if n < 10 then [digit_char n] else print_nat (n div 10) @ [digit_char (n mod 10)])"

declare print_nat.simps [simp del]

definition print_int :: "int \<Rightarrow> string" where
  "print_int i = (if i < 0 then CHR ''-'' # print_nat (nat (- i)) else print_nat (nat i))"

lemma digit_char: "d < 10 \<Longrightarrow> isdigit (digit_char d)" "d < 10 \<Longrightarrow> digit_val (digit_char d) = int d"
proof -
  assume "d < 10"
  then have "of_char (digit_char d) = (48 + d :: nat)" by (simp add: digit_char_def)
  then show "isdigit (digit_char d)" "digit_val (digit_char d) = int d"
    using \<open>d < 10\<close> by (simp_all add: isdigit_def digit_val_def)
qed

lemma print_nat_digits: "print_nat n \<noteq> []" "\<forall>c\<in>set (print_nat n). isdigit c"
  by (induction n rule: print_nat.induct) (subst print_nat.simps, simp add: digit_char)+

lemma digits_val_snoc: "digits_val (ds @ [c]) = 10 * digits_val ds + digit_val c"
  by (simp add: digits_val_def)

lemma digits_val_print: "digits_val (print_nat n) = int n"
proof (induction n rule: print_nat.induct)
  case (1 n)
  show ?case
  proof (cases "n < 10")
    case True
    then show ?thesis
      using digits_val_snoc [of "[]" "digit_char n"] digit_char
      by (simp add: print_nat.simps [of n] digits_val_def)
  next
    case False
    have "digits_val (print_nat n) = 10 * int (n div 10) + int (n mod 10)"
      using False 1 digit_char(2) [of "n mod 10"] by (subst print_nat.simps) (simp add: digits_val_snoc)
    then show ?thesis by presburger
  qed
qed

lemma digit_not_sign:
  "isdigit c \<Longrightarrow> \<not> isspace c \<and> c \<noteq> CHR ''-'' \<and> c \<noteq> CHR ''+'' \<and> c \<noteq> CHR '':'' \<and> c \<noteq> CHR '','' \<and>
     c \<noteq> CHR '']'' \<and> c \<noteq> CHR ''['' \<and> c \<noteq> CHR ''%''"
  by (auto simp: isdigit_def isspace_def)

lemma strtol_print:
  assumes "\<not> (rest \<noteq> [] \<and> isdigit (hd rest))"
  shows "strtol (print_nat n @ rest) = (clamp_long (int n), rest, clamp_long (int n) \<noteq> int n)"
proof -
  obtain c cs where p: "print_nat n = c # cs" using print_nat_digits(1) by (cases "print_nat n") auto
  have all: "\<forall>x\<in>set (c # cs). isdigit x" using print_nat_digits(2) [of n] p by simp
  have "takeWhile isdigit (c # cs @ rest) = c # cs" "dropWhile isdigit (c # cs @ rest) = rest"
    using all assms by (cases rest; simp add: takeWhile_append dropWhile_append)+
  moreover have "dropWhile isspace (c # cs @ rest) = c # cs @ rest" "c \<noteq> CHR ''-''" "c \<noteq> CHR ''+''"
    using digit_not_sign all by auto
  ultimately show ?thesis
    using digits_val_print [of n] p by (simp add: strtol_def Let_def)
qed

lemma atoi_print: "int n < 2 ^ 31 \<Longrightarrow> atoi (print_nat n) = int n"
  using strtol_print [of "[]" n] by (simp add: atoi_def clamp_long_def)

lemma isint_print: "int n < 2 ^ 31 \<Longrightarrow> isint (print_nat n)"
  using strtol_print [of "[]" n] print_nat_digits(1) [of n]
  by (simp add: isint_def clamp_long_def INFINIT_INT_def)

lemma print_nat_inj: "print_nat m = print_nat n \<longleftrightarrow> m = n"
  by (metis digits_val_print of_nat_eq_iff)

lemma print_nat_no_sign: "print_nat m \<noteq> CHR ''-'' # s"
  using print_nat_digits(2) [of m] by (auto simp: isdigit_def)

lemma inj_print_int: "inj print_int"
proof (rule injI)
  fix i j :: int
  assume eq: "print_int i = print_int j"
  show "i = j"
  proof (cases "i < 0"; cases "j < 0")
    assume "i < 0" "j < 0"
    then show "i = j" using eq by (simp add: print_int_def print_nat_inj)
  next
    assume "i < 0" "\<not> j < 0"
    then show "i = j" using eq print_nat_no_sign [of "nat j", symmetric] by (simp add: print_int_def)
  next
    assume "\<not> i < 0" "j < 0"
    then show "i = j" using eq print_nat_no_sign [of "nat i"] by (simp add: print_int_def)
  next
    assume "\<not> i < 0" "\<not> j < 0"
    then show "i = j" using eq by (simp add: print_int_def print_nat_inj)
  qed
qed

end
