(* ===== verification/Job_Array.thy ===== *)
theory Job_Array
  imports C_Strings "HOL-Library.Monad_Syntax"
begin

text \<open>
  Job arrays: the 64-bit job identifiers that pack a job number and an array index
  (\<open>lsbatch.h\<close>), the grammar of array index specifications \<open>name[1-10:2,15]%5\<close>
  (\<open>lsf/intlib/idx.y\<close> and its generated parser \<open>jidx.c\<close>, with the stack bound of that parser), the
  validation of the parsed ranges and the expansion of job identifier strings
  (\<open>lsbatch/daemons/mbd.jarray.c\<close>).

  The lexical rules are those of \<open>cal.l\<close> for white space, decimal numbers and single characters;
  every other token is refused by the grammar. Comments are not part of the model.
\<close>

subsection \<open>Job identifiers\<close>

type_synonym lsb_jobid = "64 word"

abbreviation LSB_MAX_ARRAY_IDX :: int where "LSB_MAX_ARRAY_IDX \<equiv> 0xFFFF"
abbreviation LSB_MAX_ARRAY_JOBID :: int where "LSB_MAX_ARRAY_JOBID \<equiv> 0xFFFFFFFF"

definition LSB_JOBID :: "int \<Rightarrow> int \<Rightarrow> lsb_jobid" where
  "LSB_JOBID array_jobId array_idx = push_bit 32 (word_of_int array_idx) OR word_of_int array_jobId"

definition LSB_ARRAY_IDX :: "lsb_jobid \<Rightarrow> int" where
  "LSB_ARRAY_IDX jobId = (if jobId = - 1 then 0 else uint (drop_bit 32 jobId AND 0xFFFF))"

definition LSB_ARRAY_JOBID :: "lsb_jobid \<Rightarrow> int" where
  "LSB_ARRAY_JOBID jobId = (if jobId = - 1 then - 1 else c_int (uint (jobId AND 0xFFFFFFFF)))"

subsection \<open>The grammar of index specifications\<close>

record idxList =
  i_start :: int
  i_end :: int
  i_step :: int

datatype idx_token = ICON string | Chr char

definition idx_white :: "char \<Rightarrow> bool" where
  "idx_white c \<longleftrightarrow> c = CHR '' '' \<or> c = CHR 0x09 \<or> c = CHR 0x0A"

function idxlex :: "string \<Rightarrow> idx_token list" where
  "idxlex [] = []"
| "idxlex (c # cs) =
     (if idx_white c then idxlex cs
      else if isdigit c then ICON (c # takeWhile isdigit cs) # idxlex (dropWhile isdigit cs)
      else Chr c # idxlex cs)"
  by pat_completeness auto
termination
  by (relation "measure length") (auto simp: le_imp_less_Suc length_dropWhile_le)

text \<open>
  A region with the number of symbols its right-hand side puts on the parser stack.
\<close>

fun idx_region :: "idx_token list \<Rightarrow> (int \<times> int \<times> nat \<times> idx_token list) option" where
  "idx_region (ICON a # Chr c # ICON b # ts) =
     (if c = CHR ''-'' then Some (atoi a, atoi b, 3, ts)
      else Some (atoi a, atoi a, 1, Chr c # ICON b # ts))"
| "idx_region (ICON a # Chr c # ts) =
     (if c = CHR ''-'' then Some (atoi a, INFINIT_INT, 2, ts) else Some (atoi a, atoi a, 1, Chr c # ts))"
| "idx_region (ICON a # ts) = Some (atoi a, atoi a, 1, ts)"
| "idx_region (Chr c # ICON b # ts) = (if c = CHR ''-'' then Some (1, atoi b, 2, ts) else None)"
| "idx_region ts = None"

definition idx_step :: "idx_token list \<Rightarrow> int \<times> nat \<times> idx_token list" where
  "idx_step ts =
     (case ts of Chr c # ICON s # ts' \<Rightarrow> if c = CHR '':'' then (atoi s, 3, ts') else (1, 0, ts) | _ \<Rightarrow> (1, 0, ts))"

definition idx_index :: "idx_token list \<Rightarrow> (idxList \<times> nat \<times> idx_token list) option" where
  "idx_index ts =
     (case idx_region ts of
        None \<Rightarrow> None
      | Some (s, e, n, ts1) \<Rightarrow>
          let (st, m, ts2) = idx_step ts1
          in if s < 1 \<or> s > e \<or> st \<le> 0 then None
             else Some (\<lparr>i_start = s, i_end = e, i_step = st\<rparr>, max n m, ts2))"

abbreviation YYMAXDEPTH :: nat where "YYMAXDEPTH \<equiv> 150"

lemma idx_region_shrinks:
  "idx_region ts = Some (s, e, n, ts1) \<Longrightarrow> length ts1 < length ts"
  by (induction ts rule: idx_region.induct) (auto split: if_splits)

lemma idx_index_shrinks:
  assumes "idx_index ts = Some (i, n, ts')"
  shows "length ts' < length ts"
proof -
  have "length (snd (snd (idx_step u))) \<le> length u" for u
    by (auto simp: idx_step_def split: list.splits idx_token.splits)
  then show ?thesis
    using assms idx_region_shrinks
    by (auto simp: idx_index_def Let_def split: option.splits prod.splits if_splits)
       (metis le_less_trans snd_conv)
qed

text \<open>\<open>depth\<close> is the number of states on the parser stack before the next index.\<close>

function idx_indcies :: "nat \<Rightarrow> idx_token list \<Rightarrow> (idxList list \<times> idx_token list) option" where
  "idx_indcies depth ts =
     (case idx_index ts of
        None \<Rightarrow> None
      | Some (i, n, ts1) \<Rightarrow>
          if depth + n > YYMAXDEPTH then None
          else (case ts1 of
              Chr c # ts2 \<Rightarrow>
                if c = CHR '','' then
                  (case idx_indcies (depth + 2) ts2 of
                     None \<Rightarrow> None
                   | Some (is, ts3) \<Rightarrow> Some (i # is, ts3))
                else Some ([i], ts1)
            | _ \<Rightarrow> Some ([i], ts1)))"
  by pat_completeness auto
termination
  by (relation "measure (\<lambda>(d, ts). length ts)") (auto dest: idx_index_shrinks)

declare idx_indcies.simps [simp del]

fun idxparse :: "idx_token list \<Rightarrow> int \<Rightarrow> (idxList list \<times> int) option" where
  "idxparse (Chr c # ts) maxJLimit =
     (if c = CHR ''['' then
        (case idx_indcies 2 ts of
           None \<Rightarrow> None
         | Some (is, [Chr d]) \<Rightarrow> if d = CHR '']'' then Some (is, maxJLimit) else None
         | Some (is, [Chr d, Chr p, ICON n]) \<Rightarrow>
             if d = CHR '']'' \<and> p = CHR ''%'' then Some (is, atoi n) else None
         | Some _ \<Rightarrow> None)
      else None)"
| "idxparse _ _ = None"

subsection \<open>Validation and expansion of index lists\<close>

datatype lsbe = LSBE_NO_ERROR | LSBE_BAD_JOB | LSBE_BAD_IDX | LSBE_BIG_IDX | LSBE_BAD_JOBID
  | LSBE_DEPEND_SYNTAX | LSBE_NO_JOB | LSBE_ARRAY_NULL | LSBE_DEP_ARRAY_SIZE

text \<open>Division of C integers, which truncates.\<close>

definition c_div :: "int \<Rightarrow> int \<Rightarrow> int" where
  "c_div a b = (if a \<ge> 0 then a div b else - ((- a) div b))"

fun check_ranges ::
  "bool \<Rightarrow> int \<Rightarrow> idxList list \<Rightarrow> lsbe \<Rightarrow> int \<Rightarrow> idxList list \<times> lsbe \<times> int" where
  "check_ranges replay maxJobArraySize [] err arraySize = ([], err, arraySize)"
| "check_ranges replay maxJobArraySize (idx # rest) err arraySize =
     (let err1 = (if i_start idx < 1 \<or> i_step idx < 1 then LSBE_BAD_IDX else err);
          e = (if i_end idx = INFINIT_INT
               then c_int (i_start idx + (maxJobArraySize - 1) * i_step idx) else i_end idx);
          err2 = (if i_start idx > e then LSBE_BAD_IDX else err1);
          err3 = (if \<not> replay \<and> e \<ge> LSB_MAX_ARRAY_IDX then LSBE_BIG_IDX else err2);
          (rest', err', size') =
            check_ranges replay maxJobArraySize rest err3
              (c_int (arraySize + c_div (c_int (e - i_start idx)) (i_step idx) + 1))
      in (idx\<lparr>i_end := e\<rparr> # rest', err', size'))"

definition strchr :: "string \<Rightarrow> char \<Rightarrow> string option" where
  "strchr s c = (case dropWhile (\<lambda>x. x \<noteq> c) s of [] \<Rightarrow> None | t \<Rightarrow> Some t)"

definition parseJobArrayIndex ::
  "bool \<Rightarrow> int \<Rightarrow> string \<Rightarrow> int \<Rightarrow> idxList list option \<times> lsbe \<times> int" where
  "parseJobArrayIndex replay maxJobArraySize job_name maxJLimit0 =
     (case strchr job_name (CHR ''['') of
        None \<Rightarrow> (None, LSBE_NO_ERROR, maxJLimit0)
      | Some index \<Rightarrow>
          (case idxparse (idxlex index) INFINIT_INT of
             None \<Rightarrow> (None, LSBE_BAD_JOB, INFINIT_INT)
           | Some (is, maxJLimit) \<Rightarrow>
               let (is', err, arraySize) = check_ranges replay maxJobArraySize is LSBE_NO_ERROR 0;
                   err' = (if \<not> replay \<and> arraySize > maxJobArraySize then LSBE_BIG_IDX else err)
               in if err' = LSBE_NO_ERROR then (Some is', LSBE_NO_ERROR, maxJLimit)
                  else (None, err', maxJLimit)))"

fun in_ranges :: "int \<Rightarrow> idxList list \<Rightarrow> bool" where
  "in_ranges i [] = False"
| "in_ranges i (idx # rest) =
     (if i < i_start idx \<or> i > i_end idx then in_ranges i rest
      else if (i - i_start idx) mod i_step idx = 0 then True
      else in_ranges i rest)"

definition inIdxList :: "lsb_jobid \<Rightarrow> idxList list option \<Rightarrow> bool" where
  "inIdxList jobId idxs =
     (case idxs of None \<Rightarrow> True | Some is \<Rightarrow> in_ranges (LSB_ARRAY_IDX jobId) is)"

definition getJobIdIndexList ::
  "bool \<Rightarrow> int \<Rightarrow> string \<Rightarrow> lsbe + int \<times> idxList list option" where
  "getJobIdIndexList replay maxJobArraySize jobIdStr =
     (case strchr jobIdStr (CHR ''['') of
        None \<Rightarrow>
          if \<not> isint jobIdStr \<or> atoi jobIdStr < 0 then Inl LSBE_BAD_JOBID
          else Inr (atoi jobIdStr, None)
      | Some _ \<Rightarrow>
          let num = takeWhile (\<lambda>c. c \<noteq> CHR ''['') jobIdStr
          in if \<not> isint num \<or> atoi num \<le> 0 \<or> atoi num > LSB_MAX_ARRAY_JOBID then Inl LSBE_BAD_JOBID
             else (case parseJobArrayIndex replay maxJobArraySize jobIdStr 0 of
                 (None, err, lim) \<Rightarrow> Inl err
               | (Some is, err, lim) \<Rightarrow> Inr (atoi num, Some is)))"

text \<open>The values of the loop variable of \<open>for (j = s; j <= e; j += step)\<close>, a 32-bit integer.\<close>

partial_function (option) range_loop :: "int \<Rightarrow> int \<Rightarrow> int \<Rightarrow> int list option" where
  "range_loop j e step =
     (if j \<le> e then Option.bind (range_loop (c_int (j + step)) e step) (\<lambda>js. Some (j # js))
      else Some [])"

definition add_new :: "'a list \<Rightarrow> 'a \<Rightarrow> 'a list" where
  "add_new xs x = (if x \<in> set xs then xs else xs @ [x])"

fun expand_ranges :: "int \<Rightarrow> idxList list \<Rightarrow> lsb_jobid list \<Rightarrow> lsb_jobid list option" where
  "expand_ranges jobId [] ids = Some ids"
| "expand_ranges jobId (idx # rest) ids = do {
     js \<leftarrow> range_loop (i_start idx) (i_end idx) (i_step idx);
     expand_ranges jobId rest (foldl add_new ids (map (LSB_JOBID jobId) js))
   }"

definition getJobIdList :: "bool \<Rightarrow> int \<Rightarrow> string \<Rightarrow> (lsbe + lsb_jobid list) option" where
  "getJobIdList replay maxJobArraySize jobIdStr =
     (case getJobIdIndexList replay maxJobArraySize jobIdStr of
        Inl err \<Rightarrow> Some (Inl err)
      | Inr (jobId, idxs) \<Rightarrow>
          if jobId \<le> 0 then Some (Inl LSBE_BAD_JOBID)
          else (case idxs of
              None \<Rightarrow> Some (Inr [word_of_int jobId])
            | Some is \<Rightarrow> map_option Inr (expand_ranges jobId is [])))"

subsection \<open>Packing and unpacking identifiers\<close>

lemma bit_small_int: "\<lbrakk>0 \<le> k; k < 2 ^ n; n \<le> m\<rbrakk> \<Longrightarrow> \<not> bit (k::int) m"
  by (metis bit_take_bit_iff linorder_not_le take_bit_int_eq_self)

lemma packed_parts:
  assumes "0 \<le> jid" "jid < 2 ^ 32" "0 \<le> idx" "idx \<le> LSB_MAX_ARRAY_IDX"
  shows "drop_bit 32 (LSB_JOBID jid idx) AND 0xFFFF = word_of_int idx"
    and "LSB_JOBID jid idx AND 0xFFFFFFFF = word_of_int jid"
proof -
  have idx: "idx < 2 ^ 16" using assms(4) by simp
  have small: "n < 32" if "bit idx n" for n
    using bit_small_int [OF assms(3) idx, of n] that by linarith
  have m16: "(0xFFFF :: 64 word) = mask 16" and m32: "(0xFFFFFFFF :: 64 word) = mask 32"
    by (simp_all add: mask_eq_exp_minus_1)
  show "drop_bit 32 (LSB_JOBID jid idx) AND 0xFFFF = word_of_int idx"
    unfolding m16
    using bit_small_int [OF assms(1,2)] bit_small_int [OF assms(3) idx] small
    by (intro bit_word_eqI) (auto simp: LSB_JOBID_def bit_simps not_less [symmetric])
  show "LSB_JOBID jid idx AND 0xFFFFFFFF = word_of_int jid"
    unfolding m32
    using bit_small_int [OF assms(1,2)]
    by (intro bit_word_eqI) (auto simp: LSB_JOBID_def bit_simps not_less [symmetric])
qed

lemma LSB_JOBID_not_minus1:
  assumes "0 \<le> jid" "jid < 2 ^ 31" "0 \<le> idx" "idx \<le> LSB_MAX_ARRAY_IDX"
  shows "LSB_JOBID jid idx \<noteq> - 1"
proof
  assume "LSB_JOBID jid idx = - 1"
  then have "word_of_int jid = (- 1 :: 64 word) AND 0xFFFFFFFF"
    using packed_parts(2) [of jid idx] assms by simp
  then have "uint (word_of_int jid :: 64 word) = 0xFFFFFFFF" by simp
  moreover have "uint (word_of_int jid :: 64 word) = jid"
    using assms(1,2) by (simp add: uint_word_of_int)
  ultimately show False using assms(2) by simp
qed

lemma unpack:
  assumes "0 \<le> jid" "jid < 2 ^ 31" "0 \<le> idx" "idx \<le> LSB_MAX_ARRAY_IDX"
  shows "LSB_ARRAY_IDX (LSB_JOBID jid idx) = idx" "LSB_ARRAY_JOBID (LSB_JOBID jid idx) = jid"
proof -
  have j32: "jid < 2 ^ 32" using assms(2) by simp
  note parts = packed_parts [OF assms(1) j32 assms(3,4)] LSB_JOBID_not_minus1 [OF assms]
  show "LSB_ARRAY_IDX (LSB_JOBID jid idx) = idx"
    using parts assms(3,4) by (simp add: LSB_ARRAY_IDX_def uint_word_of_int)
  show "LSB_ARRAY_JOBID (LSB_JOBID jid idx) = jid"
    using parts assms(1,2) by (simp add: LSB_ARRAY_JOBID_def uint_word_of_int)
qed

subsection \<open>Expansion\<close>

lemma range_loop_set:
  assumes "1 \<le> step" "e + step < 2 ^ 31" "- (2 ^ 31) \<le> j"
  shows "\<exists>js. range_loop j e step = Some js \<and> distinct js \<and>
    set js = {i. j \<le> i \<and> i \<le> e \<and> (i - j) mod step = 0}"
  using assms(3)
proof (induction "nat (e + 1 - j)" arbitrary: j rule: less_induct)
  case less
  show ?case
  proof (cases "j \<le> e")
    case False
    then have "range_loop j e step = Some []" by (simp add: range_loop.simps [of j])
    then show ?thesis using False by auto
  next
    case True
    have dec: "nat (e + 1 - (j + step)) < nat (e + 1 - j)" and low: "- (2 ^ 31) \<le> j + step"
      using less.prems True assms(1) by linarith+
    have c: "c_int (j + step) = j + step"
      by (rule c_int_id [OF low]) (use True assms(2) in linarith)
    obtain js where js: "range_loop (j + step) e step = Some js" "distinct js"
      "set js = {i. j + step \<le> i \<and> i \<le> e \<and> (i - (j + step)) mod step = 0}"
      using less.hyps [OF dec low] by blast
    have mod: "(i - (j + step)) mod step = (i - j) mod step" for i
      by (metis diff_diff_eq minus_mod_self2)
    have "i \<in> set (j # js) \<longleftrightarrow> j \<le> i \<and> i \<le> e \<and> (i - j) mod step = 0" for i
    proof (cases "step dvd i - j")
      case dvd: True
      then have "i = j \<or> j + step \<le> i" if "j \<le> i"
        using zdvd_imp_le [OF dvd] that by linarith
      with dvd show ?thesis
        using js(3) True assms(1) unfolding mod mod_eq_0_iff_dvd by auto
    next
      case False
      then have "i \<noteq> j" by auto
      with False show ?thesis using js(3) unfolding mod mod_eq_0_iff_dvd by simp
    qed
    then have "set (j # js) = {i. j \<le> i \<and> i \<le> e \<and> (i - j) mod step = 0}"
      by (intro set_eqI) (simp only: mem_Collect_eq)
    moreover have "distinct (j # js)" using js(2,3) assms(1) by simp
    moreover have "range_loop j e step = Some (j # js)"
      using js(1) True by (simp add: range_loop.simps [of j] c)
    ultimately show ?thesis by (intro exI [of _ "j # js"] conjI)
  qed
qed

lemma foldl_add_new:
  "set (foldl add_new xs ys) = set xs \<union> set ys" "distinct xs \<Longrightarrow> distinct (foldl add_new xs ys)"
  by (induction ys arbitrary: xs) (auto simp: add_new_def)

definition range_ok :: "idxList \<Rightarrow> bool" where
  "range_ok i \<longleftrightarrow> 1 \<le> i_start i \<and> i_start i \<le> i_end i \<and> i_end i < LSB_MAX_ARRAY_IDX \<and> 1 \<le> i_step i"

definition steps_fit :: "idxList list \<Rightarrow> bool" where
  "steps_fit is \<longleftrightarrow> (\<forall>i\<in>set is. i_end i + i_step i < 2 ^ 31)"

lemma expand_ranges_set:
  assumes "\<forall>i\<in>set is. range_ok i" "steps_fit is" "distinct ids"
  shows "\<exists>ids'. expand_ranges jobId is ids = Some ids' \<and> distinct ids' \<and>
    set ids' = set ids \<union> LSB_JOBID jobId ` {i. in_ranges i is}"
  using assms
proof (induction "is" arbitrary: ids)
  case (Cons idx rest)
  have ok: "1 \<le> i_step idx" "i_end idx + i_step idx < 2 ^ 31" "- (2 ^ 31) \<le> i_start idx"
    using Cons.prems by (auto simp: range_ok_def steps_fit_def)
  obtain js where js: "range_loop (i_start idx) (i_end idx) (i_step idx) = Some js"
    "set js = {i. i_start idx \<le> i \<and> i \<le> i_end idx \<and> (i - i_start idx) mod i_step idx = 0}"
    using range_loop_set [OF ok] by blast
  let ?ids = "foldl add_new ids (map (LSB_JOBID jobId) js)"
  obtain ids' where ids': "expand_ranges jobId rest ?ids = Some ids'" "distinct ids'"
    "set ids' = set ?ids \<union> LSB_JOBID jobId ` {i. in_ranges i rest}"
    using Cons.IH [of ?ids] Cons.prems foldl_add_new(2) [of ids] by (auto simp: steps_fit_def)
  have "{i. in_ranges i (idx # rest)} = set js \<union> {i. in_ranges i rest}"
    unfolding js(2)
    by (intro set_eqI; simp only: mem_Collect_eq Un_iff in_ranges.simps not_less [symmetric] simp_thms
        split: if_split) argo
  then show ?case
    using js(1) ids' by (auto simp: foldl_add_new(1))
qed simp

subsection \<open>Accepted specifications\<close>

definition range_size :: "idxList \<Rightarrow> int" where
  "range_size i = (i_end i - i_start i) div i_step i + 1"

lemma range_size_bounds: "range_ok i \<Longrightarrow> 1 \<le> range_size i \<and> range_size i \<le> 65535"
proof -
  assume ok: "range_ok i"
  then have "0 \<le> i_end i - i_start i" "i_end i - i_start i < 65534" "1 \<le> i_step i"
    by (auto simp: range_ok_def)
  moreover from this have "(i_end i - i_start i) div i_step i \<le> i_end i - i_start i"
    "0 \<le> (i_end i - i_start i) div i_step i"
    using zdiv_mono2 [of "i_end i - i_start i" 1 "i_step i"] by (simp_all add: pos_imp_zdiv_nonneg_iff)
  ultimately show ?thesis by (simp add: range_size_def)
qed

lemma check_ranges_ok:
  assumes "check_ranges False mx is err sz = (is', LSBE_NO_ERROR, sz')"
  shows "err = LSBE_NO_ERROR \<and> length is' = length is \<and> (\<forall>i\<in>set is'. range_ok i)"
  using assms
proof (induction "is" arbitrary: err sz is')
  case (Cons idx rest)
  let ?e = "if i_end idx = INFINIT_INT then c_int (i_start idx + (mx - 1) * i_step idx) else i_end idx"
  let ?err3 = "if ?e \<ge> LSB_MAX_ARRAY_IDX then LSBE_BIG_IDX
    else if i_start idx > ?e then LSBE_BAD_IDX
    else if i_start idx < 1 \<or> i_step idx < 1 then LSBE_BAD_IDX else err"
  obtain rest' where r: "is' = idx\<lparr>i_end := ?e\<rparr> # rest'"
    "check_ranges False mx rest ?err3 (c_int (sz + c_div (c_int (?e - i_start idx)) (i_step idx) + 1)) =
       (rest', LSBE_NO_ERROR, sz')"
    using Cons.prems by (auto simp: Let_def split: prod.splits)
  from Cons.IH [OF r(2)] have "?err3 = LSBE_NO_ERROR" "length rest' = length rest" "\<forall>i\<in>set rest'. range_ok i"
    by blast+
  then show ?case
    using r(1) by (auto simp: range_ok_def split: if_splits)
qed simp

lemma check_ranges_size:
  assumes "check_ranges False mx is err sz = (is', LSBE_NO_ERROR, sz')" "0 \<le> sz"
    "sz + 65535 * int (length is) < 2 ^ 31"
  shows "sz' = sz + (\<Sum>i\<leftarrow>is'. range_size i)"
  using assms
proof (induction "is" arbitrary: err sz is')
  case (Cons idx rest)
  define e where "e = (if i_end idx = INFINIT_INT then c_int (i_start idx + (mx - 1) * i_step idx) else i_end idx)"
  let ?s = "c_int (sz + c_div (c_int (e - i_start idx)) (i_step idx) + 1)" and ?n = "range_size (idx\<lparr>i_end := e\<rparr>)"
  obtain rest' err3 where r: "is' = idx\<lparr>i_end := e\<rparr> # rest'"
    "check_ranges False mx rest err3 ?s = (rest', LSBE_NO_ERROR, sz')"
    using Cons.prems(1) by (auto simp: Let_def e_def split: prod.splits)
  have ok: "range_ok (idx\<lparr>i_end := e\<rparr>)"
    using check_ranges_ok [OF Cons.prems(1)] r(1) by auto
  then have e: "c_int (e - i_start idx) = e - i_start idx" "0 \<le> e - i_start idx"
    by (auto simp: range_ok_def intro!: c_int_id)
  have n: "c_div (e - i_start idx) (i_step idx) + 1 = ?n"
    using e(2) by (simp add: c_div_def range_size_def)
  have "c_int (sz + ?n) = sz + ?n"
    using Cons.prems(2,3) range_size_bounds [OF ok] by (intro c_int_id) auto
  then have s: "?s = sz + ?n" unfolding e(1) using n by (simp add: add.assoc)
  have "sz' = ?s + (\<Sum>i\<leftarrow>rest'. range_size i)"
    using Cons.IH [OF r(2)] Cons.prems(2,3) s range_size_bounds [OF ok] by simp
  then show ?case using s r(1) by simp
qed simp

lemma idx_region_extra: "idx_region ts = Some (s, e, n, ts1) \<Longrightarrow> 1 \<le> n"
  by (induction ts rule: idx_region.induct) (auto split: if_splits)

lemma idx_index_extra: "idx_index ts = Some (i, n, ts1) \<Longrightarrow> 1 \<le> n"
  by (auto simp: idx_index_def Let_def dest!: idx_region_extra split: option.splits prod.splits if_splits)

lemma idx_indcies_length:
  "idx_indcies depth ts = Some (is, ts') \<Longrightarrow> is \<noteq> [] \<and> depth + 2 * length is \<le> 151"
proof (induction depth ts arbitrary: "is" ts' rule: idx_indcies.induct)
  case (1 depth ts)
  obtain i n ts1 where i: "idx_index ts = Some (i, n, ts1)" "depth + n \<le> 150" "1 \<le> n"
    using 1(2) idx_index_extra by (subst (asm) idx_indcies.simps) (auto split: option.splits if_splits)
  show ?case
    using 1(2) i 1(1) [OF i(1) refl]
    by (subst (asm) idx_indcies.simps) (fastforce split: list.splits idx_token.splits if_splits option.splits)
qed

subsection \<open>Printing specifications\<close>

definition print_idx :: "idxList \<Rightarrow> string" where
  "print_idx i = print_nat (nat (i_start i)) @ CHR ''-'' # print_nat (nat (i_end i)) @
     CHR '':'' # print_nat (nat (i_step i))"

fun print_idxs :: "idxList list \<Rightarrow> string" where
  "print_idxs [] = []"
| "print_idxs [i] = print_idx i"
| "print_idxs (i # is) = print_idx i @ CHR '','' # print_idxs is"

definition print_spec :: "string \<Rightarrow> idxList list \<Rightarrow> nat \<Rightarrow> string" where
  "print_spec name is limit = name @ CHR ''['' # print_idxs is @ CHR '']'' # CHR ''%'' # print_nat limit"

definition toks_idx :: "idxList \<Rightarrow> idx_token list" where
  "toks_idx i = [ICON (print_nat (nat (i_start i))), Chr (CHR ''-''), ICON (print_nat (nat (i_end i))),
     Chr (CHR '':''), ICON (print_nat (nat (i_step i)))]"

fun toks_idxs :: "idxList list \<Rightarrow> idx_token list" where
  "toks_idxs [] = []"
| "toks_idxs [i] = toks_idx i"
| "toks_idxs (i # is) = toks_idx i @ Chr (CHR '','') # toks_idxs is"

lemma idxlex_num:
  assumes "\<not> (rest \<noteq> [] \<and> isdigit (hd rest))"
  shows "idxlex (print_nat n @ rest) = ICON (print_nat n) # idxlex rest"
proof -
  obtain c cs where p: "print_nat n = c # cs" using print_nat_digits(1) by (cases "print_nat n") auto
  have all: "isdigit c" "\<forall>x\<in>set cs. isdigit x" using print_nat_digits(2) [of n] p by auto
  then have "\<not> idx_white c" by (auto simp: idx_white_def isdigit_def)
  moreover have "takeWhile isdigit (cs @ rest) = cs" "dropWhile isdigit (cs @ rest) = rest"
    using all(2) assms by (cases rest; simp add: takeWhile_append dropWhile_append)+
  ultimately show ?thesis using p all(1) by simp
qed

lemma idxlex_chr:
  "c \<in> {CHR ''-'', CHR '':'', CHR '','', CHR ''['', CHR '']'', CHR ''%''} \<Longrightarrow> idxlex (c # cs) = Chr c # idxlex cs"
  by (auto simp: idx_white_def isdigit_def)

lemma not_digit_simps [simp]:
  "\<not> isdigit (CHR ''-'')" "\<not> isdigit (CHR '':'')" "\<not> isdigit (CHR '','')" "\<not> isdigit (CHR ''['')"
  "\<not> isdigit (CHR '']'')" "\<not> isdigit (CHR ''%'')"
  by (simp_all add: isdigit_def)

lemma idxlex_idx:
  assumes "\<not> (rest \<noteq> [] \<and> isdigit (hd rest))"
  shows "idxlex (print_idx i @ rest) = toks_idx i @ idxlex rest"
  using assms by (simp add: print_idx_def toks_idx_def idxlex_num idxlex_chr del: idxlex.simps)

lemma idxlex_idxs:
  "is \<noteq> [] \<Longrightarrow> idxlex (print_idxs is @ CHR '']'' # rest) = toks_idxs is @ Chr (CHR '']'') # idxlex rest"
  by (induction "is" rule: print_idxs.induct) (simp_all add: idxlex_idx idxlex_chr del: idxlex.simps)

definition small_range :: "idxList \<Rightarrow> bool" where
  "small_range i \<longleftrightarrow> range_ok i \<and> i_step i < 2 ^ 31"

lemma idx_index_toks:
  assumes "small_range i"
  shows "idx_index (toks_idx i @ ts) = Some (i, 3, ts)"
proof -
  have "int (nat (i_start i)) = i_start i" "int (nat (i_end i)) = i_end i" "int (nat (i_step i)) = i_step i"
    "int (nat (i_start i)) < 2 ^ 31" "int (nat (i_end i)) < 2 ^ 31" "int (nat (i_step i)) < 2 ^ 31"
    using assms by (auto simp: small_range_def range_ok_def)
  then have "atoi (print_nat (nat (i_start i))) = i_start i" "atoi (print_nat (nat (i_end i))) = i_end i"
    "atoi (print_nat (nat (i_step i))) = i_step i"
    using atoi_print by metis+
  then show ?thesis
    using assms by (simp add: toks_idx_def idx_index_def idx_step_def small_range_def range_ok_def)
qed

lemma idx_indcies_toks:
  assumes "is \<noteq> []" "\<forall>i\<in>set is. small_range i" "depth + 2 * length is + 1 \<le> YYMAXDEPTH"
  shows "idx_indcies depth (toks_idxs is @ Chr (CHR '']'') # ts) = Some (is, Chr (CHR '']'') # ts)"
  using assms
  by (induction "is" arbitrary: depth rule: toks_idxs.induct)
     (simp_all add: idx_indcies.simps [of _ "toks_idx _ @ _"] idx_index_toks)

lemma check_ranges_valid:
  assumes "\<forall>i\<in>set is. range_ok i"
  shows "\<exists>sz'. check_ranges False mx is LSBE_NO_ERROR sz = (is, LSBE_NO_ERROR, sz')"
  using assms
proof (induction "is" arbitrary: sz)
  case (Cons i rest)
  then have "i_end i \<noteq> INFINIT_INT" "\<not> i_start i < 1" "\<not> i_step i < 1" "\<not> i_start i > i_end i"
    "\<not> i_end i \<ge> LSB_MAX_ARRAY_IDX"
    by (auto simp: range_ok_def INFINIT_INT_def)
  then show ?case
    using Cons.IH [of "c_int (sz + c_div (c_int (i_end i - i_start i)) (i_step i) + 1)"] Cons.prems
    by auto
qed simp

lemma strchr_spec: "CHR ''['' \<notin> set name \<Longrightarrow> strchr (name @ CHR ''['' # t) (CHR ''['') = Some (CHR ''['' # t)"
  by (induction name) (auto simp: strchr_def)

subsection \<open>Properties\<close>

text \<open>C19. Packing a job number and an array index into a 64-bit identifier loses nothing: for every
  32-bit non-negative job number and every index up to the maximum, the two unpacking macros return
  the number and the index, so different pairs have different identifiers.\<close>

theorem jobid_roundtrip:
  assumes "0 \<le> jid" "jid < 2 ^ 31" "0 \<le> idx" "idx \<le> LSB_MAX_ARRAY_IDX"
  shows "LSB_ARRAY_JOBID (LSB_JOBID jid idx) = jid \<and> LSB_ARRAY_IDX (LSB_JOBID jid idx) = idx \<and>
    (0 \<le> jid' \<and> jid' < 2 ^ 31 \<and> 0 \<le> idx' \<and> idx' \<le> LSB_MAX_ARRAY_IDX \<longrightarrow>
       LSB_JOBID jid idx = LSB_JOBID jid' idx' \<longrightarrow> jid = jid' \<and> idx = idx')"
  using unpack [OF assms] unpack [of jid' idx'] by metis

theorem jobid_roundtrip_witness:
  "LSB_ARRAY_JOBID (LSB_JOBID 1234 56) = 1234 \<and> LSB_ARRAY_IDX (LSB_JOBID 1234 56) = 56"
  using jobid_roundtrip [of 1234 56] by simp

text \<open>C7. Every index list \<open>parseJobArrayIndex\<close> accepts outside of event replay is safe to iterate
  over: it is not empty, each range starts at 1 or above, is not empty, ends below the largest array
  index and has a positive step, the ranges together have at most \<open>maxJobArraySize\<close> elements, and
  the stack of the generated parser admits no more than 74 ranges.\<close>

theorem parseJobArrayIndex_bounds:
  assumes "parseJobArrayIndex False maxJobArraySize job_name lim0 = (Some is, err, lim)"
  shows "err = LSBE_NO_ERROR \<and> is \<noteq> [] \<and> (\<forall>i\<in>set is. range_ok i) \<and>
    (\<Sum>i\<leftarrow>is. range_size i) \<le> maxJobArraySize \<and> length is \<le> 74"
proof -
  obtain index where index: "strchr job_name (CHR ''['') = Some index"
    using assms by (auto simp: parseJobArrayIndex_def split: option.splits)
  obtain is0 l where p: "idxparse (idxlex index) INFINIT_INT = Some (is0, l)"
    using assms index by (auto simp: parseJobArrayIndex_def split: option.splits)
  obtain sz where c: "check_ranges False maxJobArraySize is0 LSBE_NO_ERROR 0 = (is, LSBE_NO_ERROR, sz)"
    and sz: "sz \<le> maxJobArraySize" and err: "err = LSBE_NO_ERROR"
    using assms index p by (auto simp: parseJobArrayIndex_def Let_def split: prod.splits if_splits)
  have "\<exists>ts ts'. idx_indcies 2 ts = Some (is0, ts')"
    using p by (cases "(idxlex index, INFINIT_INT)" rule: idxparse.cases)
      (fastforce split: option.splits list.splits idx_token.splits if_splits prod.splits)+
  then have len: "is0 \<noteq> []" "length is0 \<le> 74" using idx_indcies_length by fastforce+
  have "sz = (\<Sum>i\<leftarrow>is. range_size i)"
    using check_ranges_size [OF c] len(2) by simp
  then show ?thesis
    using check_ranges_ok [OF c] len sz err by auto
qed

theorem parseJobArrayIndex_bounds_witness:
  "parseJobArrayIndex False 1000 ''a[1-9:2]'' 0 =
     (Some [\<lparr>i_start = 1, i_end = 9, i_step = 2\<rparr>], LSBE_NO_ERROR, INFINIT_INT) \<and>
   (\<Sum>i\<leftarrow>[\<lparr>i_start = 1, i_end = 9, i_step = 2\<rparr>]. range_size i) \<le> 1000"
proof -
  have p: "parseJobArrayIndex False 1000 ''a[1-9:2]'' 0 =
      (Some [\<lparr>i_start = 1, i_end = 9, i_step = 2\<rparr>], LSBE_NO_ERROR, INFINIT_INT)"
    by code_simp
  then show ?thesis using parseJobArrayIndex_bounds [OF p] by blast
qed

text \<open>C18. Printing and parsing are inverse: a specification printed from a job name, at most 73
  ranges within the limits and a job limit is parsed back into exactly these ranges and this limit.\<close>

theorem parseJobArrayIndex_print:
  assumes "CHR ''['' \<notin> set name" "is \<noteq> []" "\<forall>i\<in>set is. small_range i" "length is \<le> 73"
    "(\<Sum>i\<leftarrow>is. range_size i) \<le> maxJobArraySize" "int limit < 2 ^ 31"
  shows "parseJobArrayIndex False maxJobArraySize (print_spec name is limit) lim0 =
    (Some is, LSBE_NO_ERROR, int limit)"
proof -
  let ?index = "CHR ''['' # print_idxs is @ CHR '']'' # CHR ''%'' # print_nat limit"
  have "strchr (print_spec name is limit) (CHR ''['') = Some ?index"
    using strchr_spec [OF assms(1)] by (simp add: print_spec_def)
  moreover have "idxlex ?index =
      Chr (CHR ''['') # toks_idxs is @ [Chr (CHR '']''), Chr (CHR ''%''), ICON (print_nat limit)]"
    using idxlex_num [of "[]" limit] assms(2) by (simp add: idxlex_idxs idxlex_chr del: idxlex.simps(2))
  moreover have "idx_indcies 2 (toks_idxs is @ [Chr (CHR '']''), Chr (CHR ''%''), ICON (print_nat limit)]) =
      Some (is, [Chr (CHR '']''), Chr (CHR ''%''), ICON (print_nat limit)])"
    using idx_indcies_toks [of "is" 2 "[Chr (CHR ''%''), ICON (print_nat limit)]"] assms(2-4) by simp
  ultimately have parsed: "idxparse (idxlex ?index) INFINIT_INT = Some (is, int limit)"
    using atoi_print [OF assms(6)] by simp
  have ok: "\<forall>i\<in>set is. range_ok i" using assms(3) by (simp add: small_range_def)
  obtain sz where sz: "check_ranges False maxJobArraySize is LSBE_NO_ERROR 0 = (is, LSBE_NO_ERROR, sz)"
    using check_ranges_valid [OF ok] by blast
  moreover from this have "sz = (\<Sum>i\<leftarrow>is. range_size i)"
    using check_ranges_size [OF sz] assms(4) by simp
  ultimately show ?thesis
    using parsed assms(5) strchr_spec [OF assms(1)]
    by (simp add: parseJobArrayIndex_def print_spec_def)
qed

theorem parseJobArrayIndex_print_witness:
  "parseJobArrayIndex False 100
     (print_spec ''sim'' [\<lparr>i_start = 1, i_end = 9, i_step = 2\<rparr>, \<lparr>i_start = 20, i_end = 20, i_step = 1\<rparr>] 4) 0 =
   (Some [\<lparr>i_start = 1, i_end = 9, i_step = 2\<rparr>, \<lparr>i_start = 20, i_end = 20, i_step = 1\<rparr>], LSBE_NO_ERROR, 4)"
  using parseJobArrayIndex_print
    [of "''sim''" "[\<lparr>i_start = 1, i_end = 9, i_step = 2\<rparr>, \<lparr>i_start = 20, i_end = 20, i_step = 1\<rparr>]" 100 4 0]
  by (simp add: small_range_def range_ok_def range_size_def)

lemma getJobIdIndexList_ok:
  assumes "getJobIdIndexList False mx s = Inr (jid, Some is)"
  shows "0 < jid \<and> jid < 2 ^ 31 \<and> (\<forall>i\<in>set is. range_ok i)"
proof -
  let ?num = "takeWhile (\<lambda>c. c \<noteq> CHR ''['') s"
  obtain t where t: "strchr s (CHR ''['') = Some t"
    using assms by (auto simp: getJobIdIndexList_def split: option.splits if_splits)
  then obtain err lim where p: "parseJobArrayIndex False mx s 0 = (Some is, err, lim)"
    and j: "jid = atoi ?num" "\<not> atoi ?num \<le> 0"
    using assms by (auto simp: getJobIdIndexList_def Let_def split: option.splits if_splits prod.splits)
  obtain index where index: "strchr s (CHR ''['') = Some index" using t by blast
  have "\<forall>i\<in>set is. range_ok i"
    using p index check_ranges_ok
    by (fastforce simp: parseJobArrayIndex_def Let_def split: prod.splits if_splits option.splits)
  moreover have "atoi ?num < 2 ^ 31" unfolding atoi_def by (rule c_int_range)
  ultimately show ?thesis using j by simp
qed

text \<open>C6. Expanding a job identifier string such as \<open>1234[1-10:2]\<close> terminates and yields, without
  duplicates, exactly the identifiers of the job's elements whose index lies in one of the ranges;
  the membership test \<open>inIdxList\<close> agrees with it, and every identifier unpacks to the job number.
  The steps have to be small enough for the loop variable not to overflow.\<close>

theorem getJobIdList_expands:
  assumes "getJobIdIndexList False maxJobArraySize s = Inr (jid, Some is)" "steps_fit is"
  shows "\<exists>ids. getJobIdList False maxJobArraySize s = Some (Inr ids) \<and> distinct ids \<and>
    set ids = LSB_JOBID jid ` {i. in_ranges i is} \<and>
    (\<forall>w\<in>set ids. LSB_ARRAY_JOBID w = jid \<and> inIdxList w (Some is)) \<and>
    (\<forall>i. 0 \<le> i \<and> i \<le> LSB_MAX_ARRAY_IDX \<longrightarrow>
       (LSB_JOBID jid i \<in> set ids \<longleftrightarrow> inIdxList (LSB_JOBID jid i) (Some is)))"
proof -
  have ok: "0 < jid" "jid < 2 ^ 31" "\<forall>i\<in>set is. range_ok i"
    using getJobIdIndexList_ok [OF assms(1)] by auto
  obtain ids where ids: "expand_ranges jid is [] = Some ids" "distinct ids"
    "set ids = LSB_JOBID jid ` {i. in_ranges i is}"
    using expand_ranges_set [OF ok(3) assms(2), of "[]" jid] by auto
  have rng: "0 \<le> i \<and> i \<le> LSB_MAX_ARRAY_IDX" if "in_ranges i is" for i
    using that ok(3) by (induction "is") (auto simp: range_ok_def split: if_splits)
  have un: "LSB_ARRAY_IDX (LSB_JOBID jid i) = i" "LSB_ARRAY_JOBID (LSB_JOBID jid i) = jid"
    if "0 \<le> i \<and> i \<le> LSB_MAX_ARRAY_IDX" for i
    using unpack [of jid i] ok(1,2) that by auto
  have "getJobIdList False maxJobArraySize s = Some (Inr ids)"
    using assms(1) ok(1) ids(1) by (simp add: getJobIdList_def)
  moreover have "LSB_ARRAY_JOBID w = jid \<and> inIdxList w (Some is)" if "w \<in> set ids" for w
    using that ids(3) rng un by (auto simp: inIdxList_def)
  moreover have "LSB_JOBID jid i \<in> set ids \<longleftrightarrow> inIdxList (LSB_JOBID jid i) (Some is)"
    if "0 \<le> i \<and> i \<le> LSB_MAX_ARRAY_IDX" for i
    using ids(3) rng un that by (auto simp: inIdxList_def) (metis un(1) rng)
  ultimately show ?thesis using ids(2,3) by blast
qed

theorem getJobIdList_expands_witness:
  "\<exists>ids. getJobIdList False 1000 ''7[1-3:2,3]'' = Some (Inr ids) \<and> distinct ids \<and>
     (LSB_JOBID 7 3 \<in> set ids \<longleftrightarrow> inIdxList (LSB_JOBID 7 3) (Some
        [\<lparr>i_start = 1, i_end = 3, i_step = 2\<rparr>, \<lparr>i_start = 3, i_end = 3, i_step = 1\<rparr>]))"
proof -
  have "getJobIdIndexList False 1000 ''7[1-3:2,3]'' =
      Inr (7, Some [\<lparr>i_start = 1, i_end = 3, i_step = 2\<rparr>, \<lparr>i_start = 3, i_end = 3, i_step = 1\<rparr>])"
    by code_simp
  moreover have "steps_fit [\<lparr>i_start = 1, i_end = 3, i_step = 2\<rparr>, \<lparr>i_start = 3, i_end = 3, i_step = 1\<rparr>]"
    by (simp add: steps_fit_def)
  ultimately show ?thesis
    using getJobIdList_expands [of 1000 "''7[1-3:2,3]''" 7
        "[\<lparr>i_start = 1, i_end = 3, i_step = 2\<rparr>, \<lparr>i_start = 3, i_end = 3, i_step = 1\<rparr>]"] by auto
qed

text \<open>C35. The step bound is necessary: the specification \<open>[1-10:2147483647]\<close> is accepted as an array
  of one element, but the loop variable overflows on the first increment, and expanding the string
  yields three identifiers, two of them for the negative indices -2147483648 and -1.\<close>

theorem getJobIdList_step_overflow:
  "getJobIdIndexList False 1000 ''7[1-10:2147483647]'' =
     Inr (7, Some [\<lparr>i_start = 1, i_end = 10, i_step = 2147483647\<rparr>]) \<and>
   range_size \<lparr>i_start = 1, i_end = 10, i_step = 2147483647\<rparr> = 1 \<and>
   getJobIdList False 1000 ''7[1-10:2147483647]'' =
     Some (Inr [LSB_JOBID 7 1, LSB_JOBID 7 (- 2147483648), LSB_JOBID 7 (- 1)])"
proof (intro conjI)
  show i: "getJobIdIndexList False 1000 ''7[1-10:2147483647]'' =
     Inr (7, Some [\<lparr>i_start = 1, i_end = 10, i_step = 2147483647\<rparr>])"
    by code_simp
  show "range_size \<lparr>i_start = 1, i_end = 10, i_step = 2147483647\<rparr> = 1"
    by (simp add: range_size_def)
  have c: "c_int (1 + 2147483647) = - 2147483648" "c_int (- 2147483648 + 2147483647) = - 1"
    "c_int (- 1 + 2147483647) = 2147483646"
    by (simp_all add: c_int_def)
  have "range_loop 1 10 2147483647 = Some [1, - 2147483648, - 1]"
    using c by (simp add: range_loop.simps [of 1] range_loop.simps [of "- 2147483648"]
        range_loop.simps [of "- 1"] range_loop.simps [of 2147483646])
  moreover have "distinct [LSB_JOBID 7 1, LSB_JOBID 7 (- 2147483648), LSB_JOBID 7 (- 1)]"
    by code_simp
  ultimately show "getJobIdList False 1000 ''7[1-10:2147483647]'' =
     Some (Inr [LSB_JOBID 7 1, LSB_JOBID 7 (- 2147483648), LSB_JOBID 7 (- 1)])"
    using i by (auto simp: getJobIdList_def add_new_def)
qed

subsection \<open>The expansion always ends\<close>

lemma idx_index_step: "idx_index ts = Some (i, n, ts1) \<Longrightarrow> i_step i < 2 ^ 31"
proof -
  have "fst (idx_step ts) < 2 ^ 31" for ts
    using c_int_range(2) by (auto simp: idx_step_def atoi_def split: list.split idx_token.split)
  then show "idx_index ts = Some (i, n, ts1) \<Longrightarrow> i_step i < 2 ^ 31"
    by (auto simp: idx_index_def Let_def split: option.splits prod.splits if_splits) (metis fst_conv)
qed

lemma idx_indcies_step: "idx_indcies depth ts = Some (is, ts') \<Longrightarrow> i \<in> set is \<Longrightarrow> i_step i < 2 ^ 31"
proof (induction depth ts arbitrary: "is" ts' rule: idx_indcies.induct)
  case (1 depth ts)
  obtain j n ts1 where j: "idx_index ts = Some (j, n, ts1)" "depth + n \<le> 150"
    using 1(2) by (subst (asm) idx_indcies.simps) (auto split: option.splits if_splits)
  then show ?case
    using 1(2,3) 1(1) [OF j(1) refl] idx_index_step [OF j(1)]
    by (subst (asm) idx_indcies.simps) (fastforce split: list.splits idx_token.splits if_splits option.splits)
qed

lemma check_ranges_step:
  "check_ranges replay mx is err sz = (is', err', sz') \<Longrightarrow> map i_step is' = map i_step is"
  by (induction "is" arbitrary: err sz is') (fastforce simp: Let_def split: prod.splits)+

lemma parse_ranges:
  assumes "parseJobArrayIndex False mx s lim0 = (Some is, err, lim)"
  shows "\<forall>i\<in>set is. range_ok i \<and> i_step i < 2 ^ 31"
proof -
  obtain index is0 l sz where p: "strchr s (CHR ''['') = Some index" "idxparse (idxlex index) INFINIT_INT = Some (is0, l)"
    "check_ranges False mx is0 LSBE_NO_ERROR 0 = (is, LSBE_NO_ERROR, sz)"
    using assms by (auto simp: parseJobArrayIndex_def Let_def split: option.splits prod.splits if_splits)
  have "\<exists>ts ts'. idx_indcies 2 ts = Some (is0, ts')"
    using p(2) by (cases "(idxlex index, INFINIT_INT)" rule: idxparse.cases)
      (fastforce split: option.splits list.splits idx_token.splits if_splits prod.splits)+
  then have "\<forall>i\<in>set is0. i_step i < 2 ^ 31" using idx_indcies_step by blast
  then have "\<forall>i\<in>set is. i_step i < 2 ^ 31"
    using arg_cong [OF check_ranges_step [OF p(3)], of set] by (auto simp: image_def set_eq_iff) metis
  then show ?thesis using check_ranges_ok [OF p(3)] by blast
qed

text \<open>
  With a large step the loop variable wraps around. Two increments then lower it by twice the
  distance \<open>d\<close> of the step from \<open>2 ^ 31\<close>, until an increment leaves the range without wrapping.
\<close>

lemma range_loop_wraps:
  assumes "0 < d" "d \<le> e" "e < 65535" "- d \<le> i" "i \<le> e"
  shows "\<exists>js. range_loop i e (2 ^ 31 - d) = Some js"
  using assms(4,5)
proof (induction "nat (i + d)" arbitrary: i rule: less_induct)
  case less
  show ?case
  proof (cases "i < d")
    case True
    then have "c_int (i + (2 ^ 31 - d)) = i + (2 ^ 31 - d)" "\<not> i + (2 ^ 31 - d) \<le> e"
      using less.prems assms(1-3) by (auto intro!: c_int_id)
    then show ?thesis
      by (simp only: range_loop.simps [of i] range_loop.simps [of "i + (2 ^ 31 - d)"]) (simp add: less.prems)
  next
    case False
    have wrap: "c_int (i + (2 ^ 31 - d)) = i - d - 2 ^ 31"
    proof -
      have "(i - d + 2 ^ 32) mod 2 ^ 32 = i - d"
        using False less.prems assms(1,3) by (simp add: mod_pos_pos_trivial)
      then show ?thesis by (simp add: c_int_def algebra_simps)
    qed
    have again: "c_int (i - d - 2 ^ 31 + (2 ^ 31 - d)) = i - 2 * d"
      using False less.prems assms(1,3) by (subst c_int_id) auto
    obtain js where "range_loop (i - 2 * d) e (2 ^ 31 - d) = Some js"
      using less.hyps [of "i - 2 * d"] less.prems assms(1) False by auto
    then have "range_loop (i - d - 2 ^ 31) e (2 ^ 31 - d) = Some ((i - d - 2 ^ 31) # js)"
      using less.prems assms(1,3) by (subst range_loop.simps) (simp only: again, simp)
    then show ?thesis
      using less.prems by (subst range_loop.simps) (simp only: wrap, simp)
  qed
qed

lemma range_loop_returns:
  assumes "range_ok i" "i_step i < 2 ^ 31"
  shows "\<exists>js. range_loop (i_start i) (i_end i) (i_step i) = Some js"
proof (cases "i_end i + i_step i < 2 ^ 31")
  case True
  then show ?thesis using range_loop_set [of "i_step i" "i_end i" "i_start i"] assms(1) by (auto simp: range_ok_def)
next
  case False
  then show ?thesis
    using range_loop_wraps [of "2 ^ 31 - i_step i" "i_end i" "i_start i"] assms by (auto simp: range_ok_def)
qed

lemma expand_ranges_returns:
  "\<forall>i\<in>set is. range_ok i \<and> i_step i < 2 ^ 31 \<Longrightarrow> \<exists>ids'. expand_ranges jobId is ids = Some ids'"
proof (induction "is" arbitrary: ids)
  case (Cons i "is")
  then obtain js where "range_loop (i_start i) (i_end i) (i_step i) = Some js" using range_loop_returns [of i] by auto
  then show ?case using Cons by simp
qed simp

text \<open>C30. Expanding a job identifier string ends for every string, also where the loop variable
  overflows: outside of event replay the ranges that are accepted end below the largest array index,
  and a step that wraps around lowers the loop variable until an increment leaves the range.\<close>

theorem getJobIdList_returns: "\<exists>r. getJobIdList False maxJobArraySize s = Some r"
proof (cases "getJobIdIndexList False maxJobArraySize s")
  case (Inr p)
  obtain jid idxs where p: "p = (jid, idxs)" by force
  show ?thesis
  proof (cases idxs)
    case (Some "is")
    then have "\<exists>err lim. parseJobArrayIndex False maxJobArraySize s 0 = (Some is, err, lim)"
      using Inr p by (auto simp: getJobIdIndexList_def Let_def split: option.splits if_splits prod.splits)
    then have "\<forall>i\<in>set is. range_ok i \<and> i_step i < 2 ^ 31" using parse_ranges by blast
    then show ?thesis using Inr p Some expand_ranges_returns [of "is" jid "[]"] by (auto simp: getJobIdList_def)
  qed (use Inr p in \<open>simp add: getJobIdList_def\<close>)
qed (simp add: getJobIdList_def)

end
