(* ===== verification/Link_Ring.thy ===== *)
theory Link_Ring
  imports Lava_Prelude "HOL-Library.Monad_Syntax"
begin

text \<open>
  The circular doubly linked lists under every container of the daemons: a store of \<open>forw\<close> and
  \<open>backw\<close> (the \<open>back\<close> field) pointers, the splice operations of \<open>list.c\<close> (\<open>inList\<close>, \<open>offList\<close>, \<open>mkListHeader\<close>) and
  of \<open>lib.table.c\<close> (\<open>insList\<close>, \<open>remList\<close>, \<open>initList\<close>), and the representation predicate
  \<open>ring h s xs\<close>: the list with header \<open>s\<close> holds the entries \<open>xs\<close> in \<open>forw\<close> order.

  A load or store through \<open>NULL\<close> yields \<open>None\<close>, so that a theorem that an operation returns
  \<open>Some\<close> says that it dereferences no \<open>NULL\<close> pointer.
\<close>

subsection \<open>The pointer store\<close>

type_synonym addr = nat

abbreviation NULL :: addr where "NULL \<equiv> 0"

record links =
  forw :: "addr \<Rightarrow> addr"
  backw :: "addr \<Rightarrow> addr"

definition ld_forw :: "'a links_scheme \<Rightarrow> addr \<Rightarrow> addr option" where
  "ld_forw h p = (if p = NULL then None else Some (forw h p))"

definition ld_back :: "'a links_scheme \<Rightarrow> addr \<Rightarrow> addr option" where
  "ld_back h p = (if p = NULL then None else Some (backw h p))"

definition st_forw :: "'a links_scheme \<Rightarrow> addr \<Rightarrow> addr \<Rightarrow> 'a links_scheme option" where
  "st_forw h p v = (if p = NULL then None else Some (h\<lparr>forw := (forw h)(p := v)\<rparr>))"

definition st_back :: "'a links_scheme \<Rightarrow> addr \<Rightarrow> addr \<Rightarrow> 'a links_scheme option" where
  "st_back h p v = (if p = NULL then None else Some (h\<lparr>backw := (backw h)(p := v)\<rparr>))"

lemmas store_defs = ld_forw_def ld_back_def st_forw_def st_back_def

subsection \<open>Segments and rings\<close>

fun lseg :: "'a links_scheme \<Rightarrow> addr \<Rightarrow> addr list \<Rightarrow> addr \<Rightarrow> bool" where
  "lseg h p [] q \<longleftrightarrow> forw h p = q \<and> backw h q = p"
| "lseg h p (x # xs) q \<longleftrightarrow> forw h p = x \<and> backw h x = p \<and> lseg h x xs q"

definition ring :: "'a links_scheme \<Rightarrow> addr \<Rightarrow> addr list \<Rightarrow> bool" where
  "ring h s xs \<longleftrightarrow> distinct (NULL # s # xs) \<and> lseg h s xs s"

lemma lseg_append [simp]:
  "lseg h p (xs @ y # ys) q \<longleftrightarrow> lseg h p xs y \<and> lseg h y ys q"
  by (induction xs arbitrary: p) auto

lemma lseg_forw: "lseg h p xs q \<Longrightarrow> forw h p = hd (xs @ [q])"
  by (cases xs) auto

lemma lseg_back: "lseg h p xs q \<Longrightarrow> backw h q = last (p # xs)"
  by (induction xs arbitrary: p) auto

lemma lseg_cong:
  assumes "\<And>a. a \<in> set (p # xs) \<Longrightarrow> forw h' a = forw h a"
    and "\<And>a. a \<in> set (xs @ [q]) \<Longrightarrow> backw h' a = backw h a"
  shows "lseg h' p xs q = lseg h p xs q"
  using assms by (induction xs arbitrary: p) auto

lemma ring_cong:
  assumes "\<And>a. a \<in> set (s # xs) \<Longrightarrow> forw h' a = forw h a"
    and "\<And>a. a \<in> set (s # xs) \<Longrightarrow> backw h' a = backw h a"
  shows "ring h' s xs = ring h s xs"
proof -
  have "lseg h' s xs s = lseg h s xs s"
    by (rule lseg_cong) (use assms in auto)
  then show ?thesis by (simp add: ring_def)
qed

lemma ring_forw [simp]: "ring h s xs \<Longrightarrow> forw h s = hd (xs @ [s])"
  by (simp add: ring_def lseg_forw)

lemma ring_back [simp]: "ring h s xs \<Longrightarrow> backw h s = last (s # xs)"
  unfolding ring_def by (blast dest: lseg_back)

lemma ring_nonnull: "ring h s xs \<Longrightarrow> s \<noteq> NULL" "ring h s xs \<Longrightarrow> NULL \<notin> set xs"
  by (auto simp: ring_def)

lemma ring_distinct: "ring h s xs \<Longrightarrow> distinct (s # xs)"
  by (simp add: ring_def)

lemma ring_is_empty: "ring h s xs \<Longrightarrow> forw h s = s \<longleftrightarrow> xs = []"
  by (cases xs) (auto simp: ring_def)

lemma ring_split_links:
  assumes "ring h s (xs @ y # ys)"
  shows "forw h y = hd (ys @ [s])" and "backw h y = last (s # xs)"
proof -
  from assms have "lseg h s xs y" "lseg h y ys s"
    by (simp_all add: ring_def)
  then show "forw h y = hd (ys @ [s])" "backw h y = last (s # xs)"
    by (blast dest: lseg_forw lseg_back)+
qed

text \<open>The one splice all insertions perform, between the neighbours \<open>b\<close> and \<open>q\<close>.\<close>

definition splice_in :: "'a links_scheme \<Rightarrow> addr \<Rightarrow> addr \<Rightarrow> addr \<Rightarrow> 'a links_scheme" where
  "splice_in h b e q =
     h\<lparr>forw := (forw h)(e := q, b := e), backw := (backw h)(e := b, q := e)\<rparr>"

definition splice_out :: "'a links_scheme \<Rightarrow> addr \<Rightarrow> 'a links_scheme" where
  "splice_out h e =
     h\<lparr>forw := (forw h)(backw h e := forw h e), backw := (backw h)(forw h e := backw h e)\<rparr>"

lemma lseg_splice_in:
  assumes seg: "lseg h p xs q" and dist: "distinct (p # xs)" "q \<notin> set xs"
    and e: "e \<notin> set (p # xs)" "e \<noteq> q"
  shows "lseg (splice_in h (last (p # xs)) e q) p (xs @ [e]) q"
proof (cases xs rule: rev_cases)
  case Nil
  with seg e show ?thesis by (simp add: splice_in_def)
next
  case (snoc xs' b)
  let ?h' = "splice_in h b e q"
  from seg snoc have "lseg h p xs' b" by simp
  moreover have "lseg ?h' p xs' b = lseg h p xs' b"
    by (rule lseg_cong) (use dist e snoc in \<open>auto simp: splice_in_def\<close>)
  ultimately show ?thesis
    using e snoc by (simp add: splice_in_def)
qed

lemma lseg_splice_out:
  assumes seg: "lseg h p (xs @ [e]) q" and dist: "distinct (p # xs @ [e])" "q \<notin> set xs" "q \<noteq> e"
  shows "lseg (splice_out h e) p xs q"
proof -
  from seg have sege: "lseg h p xs e" "forw h e = q" by simp_all
  from sege have b: "backw h e = last (p # xs)" by (blast dest: lseg_back)
  show ?thesis
  proof (cases xs rule: rev_cases)
    case Nil
    with sege b dist show ?thesis by (simp add: splice_out_def)
  next
    case (snoc xs' b')
    from sege snoc have "lseg h p xs' b'" by simp
    moreover have "lseg (splice_out h e) p xs' b' = lseg h p xs' b'"
      by (rule lseg_cong) (use dist sege b snoc in \<open>auto simp: splice_out_def\<close>)
    ultimately show ?thesis
      using sege b snoc by (simp add: splice_out_def)
  qed
qed

lemma last_hd_distinct:
  assumes "distinct (s # xs @ y # ys)"
  shows "last (s # xs) \<notin> set (y # ys)"
  using assms by (cases xs rule: rev_cases) auto

lemma ring_splice_in:
  assumes r: "ring h s (xs @ ys)" and e: "e \<notin> set (NULL # s # xs @ ys)"
  shows "ring (splice_in h (last (s # xs)) e (hd (ys @ [s]))) s (xs @ e # ys)"
proof (cases ys)
  case Nil
  with r e have "lseg (splice_in h (last (s # xs)) e s) s (xs @ [e]) s"
    by (intro lseg_splice_in) (auto simp: ring_def)
  with Nil r e show ?thesis by (auto simp: ring_def)
next
  case (Cons y ys')
  let ?h' = "splice_in h (last (s # xs)) e y"
  from r Cons have segs: "lseg h s xs y" "lseg h y ys' s" and dist: "distinct (NULL # s # xs @ y # ys')"
    by (simp_all add: ring_def)
  have "lseg ?h' s (xs @ [e]) y"
    by (rule lseg_splice_in) (use segs dist e Cons in auto)
  moreover have "lseg ?h' y ys' s = lseg h y ys' s"
    by (rule lseg_cong) (use dist e Cons last_hd_distinct [of s xs y ys'] in \<open>auto simp: splice_in_def\<close>)
  ultimately show ?thesis
    using segs dist e Cons by (auto simp: ring_def)
qed

lemma ring_splice_out:
  assumes r: "ring h s (xs @ e # ys)"
  shows "ring (splice_out h e) s (xs @ ys)"
proof (cases ys)
  case Nil
  with r have "lseg (splice_out h e) s xs s"
    by (intro lseg_splice_out) (auto simp: ring_def)
  with Nil r show ?thesis by (auto simp: ring_def)
next
  case (Cons y ys')
  from r Cons have segs: "lseg h s (xs @ [e]) y" "lseg h y ys' s"
    and dist: "distinct (NULL # s # xs @ e # y # ys')"
    by (simp_all add: ring_def)
  have nb: "forw h e = y" "backw h e = last (s # xs)"
    using ring_split_links [OF r] Cons by simp_all
  have "lseg (splice_out h e) s xs y"
    by (rule lseg_splice_out) (use segs dist in auto)
  moreover have "lseg (splice_out h e) y ys' s = lseg h y ys' s"
    by (rule lseg_cong)
      (use dist nb last_hd_distinct [of s xs y ys'] in \<open>auto simp: splice_out_def\<close>)
  ultimately show ?thesis
    using segs dist Cons by (auto simp: ring_def)
qed

text \<open>Links outside the neighbourhood of a splice are untouched; other rings stay as they are.\<close>

lemma ring_splice_in_frame:
  assumes "ring h s xs" "b \<notin> set (s # xs)" "q \<notin> set (s # xs)" "e \<notin> set (s # xs)"
  shows "ring (splice_in h b e q) s xs"
proof -
  have "ring (splice_in h b e q) s xs = ring h s xs"
    by (rule ring_cong) (use assms in \<open>auto simp: splice_in_def\<close>)
  with assms show ?thesis by simp
qed

lemma ring_splice_out_frame:
  assumes "ring h s xs" "backw h e \<notin> set (s # xs)" "forw h e \<notin> set (s # xs)"
  shows "ring (splice_out h e) s xs"
proof -
  have "ring (splice_out h e) s xs = ring h s xs"
    by (rule ring_cong) (use assms in \<open>auto simp: splice_out_def\<close>)
  with assms show ?thesis by simp
qed

subsection \<open>Splice operations of list.c\<close>

definition inList :: "'a links_scheme \<Rightarrow> addr \<Rightarrow> addr \<Rightarrow> 'a links_scheme option" where
  "inList h pred entry = do {
     h \<leftarrow> st_forw h entry pred;
     b \<leftarrow> ld_back h pred;
     h \<leftarrow> st_back h entry b;
     b \<leftarrow> ld_back h pred;
     h \<leftarrow> st_forw h b entry;
     st_back h pred entry
   }"

definition offList :: "'a links_scheme \<Rightarrow> addr \<Rightarrow> 'a links_scheme option" where
  "offList h entry = do {
     b \<leftarrow> ld_back h entry;
     f \<leftarrow> ld_forw h entry;
     h \<leftarrow> st_forw h b f;
     f \<leftarrow> ld_forw h entry;
     b \<leftarrow> ld_back h entry;
     st_back h f b
   }"

definition mkListHeader :: "'a links_scheme \<Rightarrow> addr \<Rightarrow> 'a links_scheme \<times> addr" where
  "mkListHeader h q =
     (if q = NULL then (h, NULL)
      else (h\<lparr>forw := (forw h)(q := q), backw := (backw h)(q := q)\<rparr>, q))"

subsection \<open>Slot lists of lib.table.c\<close>

text \<open>
  \<open>fwPtr\<close> and \<open>bwPtr\<close> of \<open>struct hLinks\<close> are the \<open>forw\<close> and \<open>backw\<close> fields here. Entries are
  added at the \<open>bwPtr\<close> side of the slot header, and every walk over a slot follows \<open>bwPtr\<close>.
\<close>

definition insList :: "'a links_scheme \<Rightarrow> addr \<Rightarrow> addr \<Rightarrow> 'a links_scheme option" where
  "insList h elemPtr destPtr = do {
     b \<leftarrow> ld_back h destPtr;
     h \<leftarrow> st_back h elemPtr b;
     h \<leftarrow> st_forw h elemPtr destPtr;
     b \<leftarrow> ld_back h destPtr;
     h \<leftarrow> st_forw h b elemPtr;
     st_back h destPtr elemPtr
   }"

definition remList :: "'a links_scheme \<Rightarrow> addr \<Rightarrow> 'a links_scheme option" where
  "remList h elemPtr =
     (if elemPtr = NULL \<or> elemPtr = backw h elemPtr then Some h
      else do {
        f \<leftarrow> ld_forw h elemPtr;
        b \<leftarrow> ld_back h elemPtr;
        h \<leftarrow> st_back h f b;
        b \<leftarrow> ld_back h elemPtr;
        f \<leftarrow> ld_forw h elemPtr;
        st_forw h b f
      })"

definition initList :: "'a links_scheme \<Rightarrow> addr \<Rightarrow> 'a links_scheme option" where
  "initList h headPtr = do {
     h \<leftarrow> st_back h headPtr headPtr;
     st_forw h headPtr headPtr
   }"

lemma ring_new: "p \<noteq> NULL \<Longrightarrow> ring (h\<lparr>forw := (forw h)(p := p), backw := (backw h)(p := p)\<rparr>) p []"
  by (simp add: ring_def)

lemma ring_neighbours:
  assumes "ring h s (xs @ ys)"
  shows "hd (ys @ [s]) \<in> set (s # ys)" "last (s # xs) \<in> set (s # xs)"
    "hd (ys @ [s]) \<noteq> NULL" "last (s # xs) \<noteq> NULL" "backw h (hd (ys @ [s])) = last (s # xs)"
proof -
  show in1: "hd (ys @ [s]) \<in> set (s # ys)" by (cases ys) auto
  show in2: "last (s # xs) \<in> set (s # xs)" by (cases xs rule: rev_cases) auto
  show "hd (ys @ [s]) \<noteq> NULL" "last (s # xs) \<noteq> NULL"
    using in1 in2 assms by (auto simp: ring_def)
  show "backw h (hd (ys @ [s])) = last (s # xs)"
  proof (cases ys)
    case Nil
    with assms show ?thesis using ring_back [of h s xs] by simp
  next
    case (Cons y ys')
    with assms show ?thesis by (simp add: ring_split_links)
  qed
qed

lemma ring_neighbours_notin:
  assumes "ring h s (xs @ ys)" "set (s # xs @ ys) \<inter> A = {}"
  shows "last (s # xs) \<notin> A" "hd (ys @ [s]) \<notin> A"
proof -
  have "last (s # xs) \<in> set (s # xs @ ys)" "hd (ys @ [s]) \<in> set (s # xs @ ys)"
    using ring_neighbours(1,2) [OF assms(1)] by (simp_all del: last.simps) blast+
  then show "last (s # xs) \<notin> A" "hd (ys @ [s]) \<notin> A"
    using assms(2) by blast+
qed

lemma ring_entry_links:
  assumes "ring h s (xs @ e # ys)"
  shows "e \<noteq> NULL" "forw h e \<noteq> NULL" "backw h e \<noteq> NULL" "backw h e \<noteq> e" "forw h e \<noteq> e"
proof -
  show "e \<noteq> NULL" using ring_nonnull(2) [OF assms] by auto
  have d: "distinct (s # xs @ e # ys)" using ring_distinct [OF assms] .
  have f: "forw h e = hd (ys @ [s])" and b: "backw h e = last (s # xs)"
    using ring_split_links [OF assms] by blast+
  show "forw h e \<noteq> NULL"
    using ring_neighbours(3) [of h s "xs @ [e]" ys] assms f by simp
  show "backw h e \<noteq> NULL"
    using ring_neighbours(4) [OF assms] b by simp
  show "backw h e \<noteq> e"
    using last_hd_distinct [OF d] b by auto
  show "forw h e \<noteq> e"
    using f d by (cases ys) auto
qed

lemma inList_eq:
  assumes "ring h s (xs @ ys)" "e \<notin> set (NULL # s # xs @ ys)"
  shows "inList h (hd (ys @ [s])) e = Some (splice_in h (last (s # xs)) e (hd (ys @ [s])))"
  using assms ring_neighbours [OF assms(1)]
  by (auto simp: inList_def store_defs splice_in_def fun_upd_twist)

lemma insList_eq:
  assumes "ring h s (xs @ ys)" "e \<notin> set (NULL # s # xs @ ys)"
  shows "insList h e (hd (ys @ [s])) = Some (splice_in h (last (s # xs)) e (hd (ys @ [s])))"
  using assms ring_neighbours [OF assms(1)]
  by (auto simp: insList_def store_defs splice_in_def fun_upd_twist)

lemma offList_eq:
  assumes "ring h s (xs @ e # ys)"
  shows "offList h e = Some (splice_out h e)"
  using ring_entry_links [OF assms]
  by (simp add: offList_def store_defs splice_out_def)

lemma remList_eq:
  assumes "ring h s (xs @ e # ys)"
  shows "remList h e = Some (splice_out h e)"
  using ring_entry_links [OF assms]
  by (auto simp: remList_def store_defs splice_out_def)

end
