(* ===== verification/Lava_List.thy ===== *)
theory Lava_List
  imports Link_Ring
begin

text \<open>
  The list module of \<open>lsf/intlib/list.c\<close>: lists with a header, an entry counter and observers that
  are told when an entry enters or leaves. The job lists of the master daemon (pending, started,
  migrating) and its observers are instances of it.

  The heap is the pointer store of \<open>Link_Ring\<close> extended by the header fields of \<open>LIST_T\<close>, the fields
  of \<open>LIST_OBSERVER_T\<close>, a payload word per entry, the addresses \<open>calloc\<close> will hand out (\<open>pool\<close>; an
  empty pool is an allocation failure) and the state \<open>cstate\<close> the observers' callbacks act on.
  Callbacks are supplied by the clients of the module; they are functions on \<open>cstate\<close>.
\<close>

subsection \<open>State\<close>

datatype levent_type = LIST_EVENT_ENTER | LIST_EVENT_LEAVE | LIST_EVENT_NULL

record levent =
  ev_type :: levent_type
  ev_entry :: addr

type_synonym 'c lcallback = "addr \<Rightarrow> levent \<Rightarrow> 'c \<Rightarrow> 'c"

record 'c listObserver =
  obs_list :: addr
  obs_select :: "(levent \<Rightarrow> bool) option"
  obs_enter :: "'c lcallback option"
  obs_leave :: "'c lcallback option"

datatype list_err = LIST_ERR_NOERR | LIST_ERR_BADARG | LIST_ERR_NOMEM | LIST_ERR_NOOBSVR

record 'c lheap = links +
  numEnts :: "addr \<Rightarrow> int"
  allowObservers :: "addr \<Rightarrow> bool"
  observers :: "addr \<Rightarrow> addr"
  obs :: "addr \<Rightarrow> 'c listObserver"
  payload :: "addr \<Rightarrow> int"
  cstate :: 'c
  pool :: "addr list"
  listerrno :: list_err

record listIterator =
  it_list :: addr
  it_cur :: addr

subsection \<open>Allocation\<close>

definition calloc_entry :: "'c lheap \<Rightarrow> addr \<times> 'c lheap" where
  "calloc_entry h =
     (case pool h of
        [] \<Rightarrow> (NULL, h)
      | p # ps \<Rightarrow>
          (p, h\<lparr>forw := (forw h)(p := NULL), backw := (backw h)(p := NULL),
                numEnts := (numEnts h)(p := 0), allowObservers := (allowObservers h)(p := False),
                observers := (observers h)(p := NULL), payload := (payload h)(p := 0), pool := ps\<rparr>))"

definition free_entry :: "'c lheap \<Rightarrow> addr \<Rightarrow> 'c lheap" where
  "free_entry h p = h\<lparr>pool := p # pool h\<rparr>"

subsection \<open>Iterators\<close>

definition LIST_IS_EMPTY :: "'c lheap \<Rightarrow> addr \<Rightarrow> bool option" where
  "LIST_IS_EMPTY h l = map_option (\<lambda>f. f = l) (ld_forw h l)"

definition listIteratorAttach :: "'c lheap \<Rightarrow> addr \<Rightarrow> listIterator option" where
  "listIteratorAttach h l = map_option (\<lambda>f. \<lparr>it_list = l, it_cur = f\<rparr>) (ld_forw h l)"

definition listIteratorDetach :: "listIterator \<Rightarrow> listIterator" where
  "listIteratorDetach it = it\<lparr>it_list := NULL, it_cur := NULL\<rparr>"

definition listIteratorGetSubjectList :: "listIterator \<Rightarrow> addr" where
  "listIteratorGetSubjectList it = it_list it"

definition listIteratorGetCurEntry :: "listIterator \<Rightarrow> addr" where
  "listIteratorGetCurEntry it = (if it_cur it = it_list it then NULL else it_cur it)"

definition listIteratorNext :: "'c lheap \<Rightarrow> listIterator \<Rightarrow> (listIterator \<times> addr) option" where
  "listIteratorNext h it = do {
     f \<leftarrow> ld_forw h (it_cur it);
     let it' = it\<lparr>it_cur := f\<rparr>;
     Some (it', listIteratorGetCurEntry it')
   }"

definition listIteratorPrev :: "'c lheap \<Rightarrow> listIterator \<Rightarrow> (listIterator \<times> addr) option" where
  "listIteratorPrev h it = do {
     b \<leftarrow> ld_back h (it_cur it);
     let it' = it\<lparr>it_cur := b\<rparr>;
     Some (it', listIteratorGetCurEntry it')
   }"

definition listIteratorIsEndOfList :: "listIterator \<Rightarrow> bool" where
  "listIteratorIsEndOfList it \<longleftrightarrow> it_cur it = it_list it"

definition listGetFrontEntry :: "'c lheap \<Rightarrow> addr \<Rightarrow> addr option" where
  "listGetFrontEntry h l = do {
     f \<leftarrow> ld_forw h l;
     Some (if f = l then NULL else f)
   }"

definition listGetBackEntry :: "'c lheap \<Rightarrow> addr \<Rightarrow> addr option" where
  "listGetBackEntry h l = do {
     f \<leftarrow> ld_forw h l;
     b \<leftarrow> ld_back h l;
     Some (if f = l then NULL else b)
   }"

partial_function (option) validate_loop ::
  "'c lheap \<Rightarrow> listIterator \<Rightarrow> addr \<Rightarrow> addr \<Rightarrow> bool option" where
  "validate_loop h it ent entry =
     (if listIteratorIsEndOfList it then Some False
      else if ent = entry then Some True
      else Option.bind (listIteratorNext h it) (\<lambda>(it', ent'). validate_loop h it' ent' entry))"

definition listIteratorSetCurEntry ::
  "'c lheap \<Rightarrow> listIterator \<Rightarrow> addr \<Rightarrow> bool \<Rightarrow> (int \<times> 'c lheap \<times> listIterator) option" where
  "listIteratorSetCurEntry h it entry validateEnt =
     (if validateEnt then do {
        f \<leftarrow> listGetFrontEntry h (it_list it);
        let it0 = it\<lparr>it_cur := f\<rparr>;
        found \<leftarrow> validate_loop h it0 (listIteratorGetCurEntry it0) entry;
        Some (if found then (0, h, it\<lparr>it_cur := entry\<rparr>)
              else (-1, h\<lparr>listerrno := LIST_ERR_BADARG\<rparr>, it))
      } else Some (0, h, it\<lparr>it_cur := entry\<rparr>))"

subsection \<open>Observers\<close>

definition observer_skips :: "'c listObserver \<Rightarrow> levent \<Rightarrow> bool" where
  "observer_skips ob ev = (case obs_select ob of None \<Rightarrow> False | Some f \<Rightarrow> \<not> f ev)"

definition run_callback :: "'c lcallback option \<Rightarrow> addr \<Rightarrow> levent \<Rightarrow> 'c lheap \<Rightarrow> 'c lheap" where
  "run_callback cb l ev h =
     (case cb of None \<Rightarrow> h | Some f \<Rightarrow> h\<lparr>cstate := f l ev (cstate h)\<rparr>)"

partial_function (option) notify_loop ::
  "'c lheap \<Rightarrow> addr \<Rightarrow> levent \<Rightarrow> listIterator \<Rightarrow> addr \<Rightarrow> (int \<times> 'c lheap) option" where
  "notify_loop h l ev it observer =
     (if listIteratorIsEndOfList it then Some (0, h)
      else if observer_skips (obs h observer) ev
        then Option.bind (listIteratorNext h it) (\<lambda>(it', ob'). notify_loop h l ev it' ob')
      else (case ev_type ev of
          LIST_EVENT_ENTER \<Rightarrow>
            Option.bind (listIteratorNext (run_callback (obs_enter (obs h observer)) l ev h) it)
              (\<lambda>(it', ob'). notify_loop (run_callback (obs_enter (obs h observer)) l ev h) l ev it' ob')
        | LIST_EVENT_LEAVE \<Rightarrow>
            Option.bind (listIteratorNext (run_callback (obs_leave (obs h observer)) l ev h) it)
              (\<lambda>(it', ob'). notify_loop (run_callback (obs_leave (obs h observer)) l ev h) l ev it' ob')
        | LIST_EVENT_NULL \<Rightarrow> Some (-1, h\<lparr>listerrno := LIST_ERR_BADARG\<rparr>)))"

definition listNotifyObservers :: "'c lheap \<Rightarrow> addr \<Rightarrow> levent \<Rightarrow> (int \<times> 'c lheap) option" where
  "listNotifyObservers h l ev = do {
     it \<leftarrow> listIteratorAttach h (observers h l);
     notify_loop h l ev it (listIteratorGetCurEntry it)
   }"

definition notify_if_observed :: "'c lheap \<Rightarrow> addr \<Rightarrow> levent_type \<Rightarrow> addr \<Rightarrow> 'c lheap option" where
  "notify_if_observed h l ty entry =
     (if allowObservers h l then do {
        empty \<leftarrow> LIST_IS_EMPTY h (observers h l);
        if empty then Some h
        else map_option snd (listNotifyObservers h l \<lparr>ev_type = ty, ev_entry = entry\<rparr>)
      } else Some h)"

subsection \<open>Lists\<close>

definition listCreate :: "'c lheap \<Rightarrow> addr \<times> 'c lheap" where
  "listCreate h =
     (let (l, h1) = calloc_entry h
      in if l = NULL then (NULL, h1)
         else (l, h1\<lparr>forw := (forw h1)(l := l), backw := (backw h1)(l := l)\<rparr>))"

definition listAllowObservers :: "'c lheap \<Rightarrow> addr \<Rightarrow> int \<times> 'c lheap" where
  "listAllowObservers h l =
     (if allowObservers h l then (0, h)
      else let h1 = h\<lparr>allowObservers := (allowObservers h)(l := True)\<rparr>;
               (ol, h2) = listCreate h1;
               h3 = h2\<lparr>observers := (observers h2)(l := ol)\<rparr>
           in (if ol = NULL then -1 else 0, h3))"

definition listInsertEntryBefore ::
  "'c lheap \<Rightarrow> addr \<Rightarrow> addr \<Rightarrow> addr \<Rightarrow> (int \<times> 'c lheap) option" where
  "listInsertEntryBefore h l succ entry = do {
     h \<leftarrow> st_forw h entry succ;
     b \<leftarrow> ld_back h succ;
     h \<leftarrow> st_back h entry b;
     b \<leftarrow> ld_back h succ;
     h \<leftarrow> st_forw h b entry;
     h \<leftarrow> st_back h succ entry;
     h \<leftarrow> notify_if_observed h l LIST_EVENT_ENTER entry;
     Some (0, h\<lparr>numEnts := (numEnts h)(l := numEnts h l + 1)\<rparr>)
   }"

definition listInsertEntryAfter ::
  "'c lheap \<Rightarrow> addr \<Rightarrow> addr \<Rightarrow> addr \<Rightarrow> (int \<times> 'c lheap) option" where
  "listInsertEntryAfter h l pred entry =
     Option.bind (ld_forw h pred) (\<lambda>f. listInsertEntryBefore h l f entry)"

definition listInsertEntryAtFront :: "'c lheap \<Rightarrow> addr \<Rightarrow> addr \<Rightarrow> (int \<times> 'c lheap) option" where
  "listInsertEntryAtFront h l entry =
     Option.bind (ld_forw h l) (\<lambda>f. listInsertEntryBefore h l f entry)"

definition listInsertEntryAtBack :: "'c lheap \<Rightarrow> addr \<Rightarrow> addr \<Rightarrow> (int \<times> 'c lheap) option" where
  "listInsertEntryAtBack h l entry = listInsertEntryBefore h l l entry"

definition listRemoveEntry :: "'c lheap \<Rightarrow> addr \<Rightarrow> addr \<Rightarrow> 'c lheap option" where
  "listRemoveEntry h l entry = do {
     b \<leftarrow> ld_back h entry;
     f \<leftarrow> ld_forw h entry;
     if b = NULL \<or> f = NULL then Some h
     else do {
       h \<leftarrow> st_forw h b f;
       f \<leftarrow> ld_forw h entry;
       b \<leftarrow> ld_back h entry;
       h \<leftarrow> st_back h f b;
       h \<leftarrow> notify_if_observed h l LIST_EVENT_LEAVE entry;
       Some (h\<lparr>numEnts := (numEnts h)(l := numEnts h l - 1)\<rparr>)
     }
   }"

partial_function (option) search_loop ::
  "'c lheap \<Rightarrow> (addr \<Rightarrow> bool) \<Rightarrow> listIterator \<Rightarrow> addr \<Rightarrow> addr option" where
  "search_loop h eq it ent =
     (if ent = NULL then Some NULL
      else if eq ent then Some ent
      else Option.bind (listIteratorNext h it) (\<lambda>(it', ent'). search_loop h eq it' ent'))"

definition listSearchEntry :: "'c lheap \<Rightarrow> addr \<Rightarrow> (addr \<Rightarrow> bool) \<Rightarrow> addr option" where
  "listSearchEntry h l eq = do {
     it \<leftarrow> listIteratorAttach h l;
     search_loop h eq it (listIteratorGetCurEntry it)
   }"

subsection \<open>Traversals\<close>

abbreviation LIST_TRAVERSE_FORWARD :: c_word where "LIST_TRAVERSE_FORWARD \<equiv> 0x1"
abbreviation LIST_TRAVERSE_BACKWARD :: c_word where "LIST_TRAVERSE_BACKWARD \<equiv> 0x2"

definition traverse_step ::
  "'c lheap \<Rightarrow> c_word \<Rightarrow> listIterator \<Rightarrow> (listIterator \<times> addr) option" where
  "traverse_step h direction it =
     (if flag direction LIST_TRAVERSE_FORWARD then listIteratorNext h it else listIteratorPrev h it)"

definition traverse_start :: "'c lheap \<Rightarrow> addr \<Rightarrow> c_word \<Rightarrow> listIterator option" where
  "traverse_start h l direction = do {
     it \<leftarrow> listIteratorAttach h l;
     if flag direction LIST_TRAVERSE_BACKWARD then do {
       b \<leftarrow> listGetBackEntry h l;
       (rc, h', it') \<leftarrow> listIteratorSetCurEntry h it b False;
       Some it'
     } else Some it
   }"

partial_function (option) vector_loop ::
  "'c lheap \<Rightarrow> c_word \<Rightarrow> listIterator \<Rightarrow> addr \<Rightarrow> addr list \<Rightarrow> addr list option" where
  "vector_loop h direction it entry vector =
     (if entry = NULL then Some vector
      else Option.bind (traverse_step h direction it)
             (\<lambda>(it', entry'). vector_loop h direction it' entry' (vector @ [entry])))"

definition list2Vector :: "'c lheap \<Rightarrow> addr \<Rightarrow> c_word \<Rightarrow> addr list option" where
  "list2Vector h l direction0 = do {
     let direction = (if direction0 = 0 then LIST_TRAVERSE_FORWARD else direction0);
     it \<leftarrow> traverse_start h l direction;
     vector_loop h direction it (listIteratorGetCurEntry it) []
   }"

partial_function (option) cat_loop ::
  "'c lheap \<Rightarrow> c_word \<Rightarrow> int \<Rightarrow> (addr \<Rightarrow> string option) \<Rightarrow> listIterator \<Rightarrow> addr \<Rightarrow> string \<Rightarrow>
   string option" where
  "cat_loop h direction bufferSize catFunc it entry buffer =
     (if entry = NULL then Some buffer
      else (case catFunc entry of
          None \<Rightarrow> Option.bind (traverse_step h direction it)
                    (\<lambda>(it', entry'). cat_loop h direction bufferSize catFunc it' entry' buffer)
        | Some str \<Rightarrow>
            if int (length buffer) + int (length str) > bufferSize - 1 then Some buffer
            else Option.bind (traverse_step h direction it)
                   (\<lambda>(it', entry'). cat_loop h direction bufferSize catFunc it' entry' (buffer @ str))))"

definition listCat ::
  "'c lheap \<Rightarrow> addr \<Rightarrow> c_word \<Rightarrow> int \<Rightarrow> (addr \<Rightarrow> string option) \<Rightarrow> string option" where
  "listCat h l direction0 bufferSize catFunc = do {
     let direction = (if direction0 = 0 then LIST_TRAVERSE_FORWARD else direction0);
     it \<leftarrow> traverse_start h l direction;
     cat_loop h direction bufferSize catFunc it (listIteratorGetCurEntry it) []
   }"

partial_function (option) dup_loop ::
  "'c lheap \<Rightarrow> addr \<Rightarrow> listIterator \<Rightarrow> addr \<Rightarrow> 'c lheap option" where
  "dup_loop h newList it entry =
     (if entry = NULL then Some h
      else (case calloc_entry h of (newEntry, h1) \<Rightarrow>
        if newEntry = NULL then None
        else Option.bind
          (listInsertEntryAtBack
             (h1\<lparr>payload := (payload h1)(newEntry := payload h1 entry),
                 forw := (forw h1)(newEntry := forw h1 entry),
                 backw := (backw h1)(newEntry := backw h1 entry)\<rparr>) newList newEntry)
          (\<lambda>(rc, h2). Option.bind (listIteratorNext h2 it)
             (\<lambda>(it', entry'). dup_loop h2 newList it' entry'))))"

definition listDup :: "'c lheap \<Rightarrow> addr \<Rightarrow> (addr \<times> 'c lheap) option" where
  "listDup h l =
     (let (newList, h1) = listCreate h
      in if newList = NULL then Some (NULL, h1)
         else do {
           it \<leftarrow> listIteratorAttach h1 l;
           h2 \<leftarrow> dup_loop h1 newList it (listIteratorGetCurEntry it);
           Some (newList, h2)
         })"

subsection \<open>Destruction and observer registration\<close>

partial_function (option) destroy_loop ::
  "'c lheap \<Rightarrow> addr \<Rightarrow> (addr \<Rightarrow> 'c \<Rightarrow> 'c) option \<Rightarrow> 'c lheap option" where
  "destroy_loop h l destroy =
     Option.bind (ld_forw h l) (\<lambda>entry.
       if entry = l then Some h
       else Option.bind (listRemoveEntry h l entry) (\<lambda>h1.
         destroy_loop
           (case destroy of
              Some f \<Rightarrow> h1\<lparr>cstate := f entry (cstate h1)\<rparr>
            | None \<Rightarrow> free_entry h1 entry) l destroy))"

partial_function (option) listDestroy ::
  "'c lheap \<Rightarrow> addr \<Rightarrow> (addr \<Rightarrow> 'c \<Rightarrow> 'c) option \<Rightarrow> 'c lheap option" where
  "listDestroy h l destroy =
     Option.bind (destroy_loop h l destroy) (\<lambda>h1.
       Option.bind (if allowObservers h1 l then listDestroy h1 (observers h1 l) None else Some h1)
         (\<lambda>h2. Some (free_entry h2 l)))"

definition listObserverAttach :: "'c lheap \<Rightarrow> addr \<Rightarrow> addr \<Rightarrow> (int \<times> 'c lheap) option" where
  "listObserverAttach h observer l =
     (if \<not> allowObservers h l then Some (-1, h\<lparr>listerrno := LIST_ERR_NOOBSVR\<rparr>)
      else do {
        (cc, h1) \<leftarrow> listInsertEntryBefore h (observers h l) (observers h l) observer;
        if cc < 0 then Some (cc, h1)
        else Some (0, h1\<lparr>obs := (obs h1)(observer := (obs h1 observer)\<lparr>obs_list := l\<rparr>)\<rparr>)
      })"

definition listObserverDetach :: "'c lheap \<Rightarrow> addr \<Rightarrow> 'c lheap option" where
  "listObserverDetach h observer = do {
     h1 \<leftarrow> (if obs_list (obs h observer) \<noteq> NULL
            then listRemoveEntry h (obs_list (obs h observer)) observer else Some h);
     Some (h1\<lparr>obs := (obs h1)(observer := (obs h1 observer)\<lparr>obs_list := NULL\<rparr>)\<rparr>)
   }"

subsection \<open>Cursors\<close>

text \<open>An iterator standing at the first entry of \<open>ys\<close>, or at the header when \<open>ys\<close> is empty.\<close>

definition cursor :: "addr \<Rightarrow> addr list \<Rightarrow> listIterator" where
  "cursor l ys = \<lparr>it_list = l, it_cur = hd (ys @ [l])\<rparr>"

definition rcursor :: "addr \<Rightarrow> addr list \<Rightarrow> listIterator" where
  "rcursor l xs = \<lparr>it_list = l, it_cur = last (l # xs)\<rparr>"

fun entry_of :: "addr list \<Rightarrow> addr" where
  "entry_of [] = NULL"
| "entry_of (y # ys) = y"

lemma cursor_entry:
  "ring h l (xs @ ys) \<Longrightarrow> listIteratorGetCurEntry (cursor l ys) = entry_of ys"
  by (cases ys) (auto simp: listIteratorGetCurEntry_def cursor_def ring_def)

lemma cursor_end:
  "ring h l (xs @ ys) \<Longrightarrow> listIteratorIsEndOfList (cursor l ys) \<longleftrightarrow> ys = []"
  by (cases ys) (auto simp: listIteratorIsEndOfList_def cursor_def ring_def)

lemma rcursor_entry:
  "ring h l (xs @ ys) \<Longrightarrow> listIteratorGetCurEntry (rcursor l xs) = entry_of (rev xs)"
  by (cases xs rule: rev_cases) (auto simp: listIteratorGetCurEntry_def rcursor_def ring_def)

lemma entry_of_NULL: "ring h l (xs @ ys) \<Longrightarrow> entry_of ys = NULL \<longleftrightarrow> ys = []"
  by (cases ys) (auto simp: ring_def)

lemma rentry_of_NULL: "ring h l (xs @ ys) \<Longrightarrow> entry_of (rev xs) = NULL \<longleftrightarrow> xs = []"
  by (cases xs rule: rev_cases) (auto simp: ring_def)

lemma attach_cursor: "ring h l xs \<Longrightarrow> listIteratorAttach h l = Some (cursor l xs)"
  by (auto simp: listIteratorAttach_def cursor_def ld_forw_def ring_nonnull)

lemma cursor_next:
  assumes "ring h l (xs @ y # ys)"
  shows "listIteratorNext h (cursor l (y # ys)) = Some (cursor l ys, entry_of ys)"
proof -
  have "y \<noteq> NULL" "forw h y = hd (ys @ [l])"
    using ring_split_links [OF assms] ring_nonnull [OF assms] by auto
  moreover have "listIteratorGetCurEntry (cursor l ys) = entry_of ys"
    using assms cursor_entry [of h l "xs @ [y]" ys] by simp
  ultimately show ?thesis
    by (simp add: listIteratorNext_def cursor_def ld_forw_def)
qed

lemma rcursor_prev:
  assumes "ring h l (xs @ y # ys)"
  shows "listIteratorPrev h (rcursor l (xs @ [y])) = Some (rcursor l xs, entry_of (rev xs))"
proof -
  have "y \<noteq> NULL" "backw h y = last (l # xs)"
    using ring_split_links [OF assms] ring_nonnull [OF assms] by auto
  moreover have "listIteratorGetCurEntry (rcursor l xs) = entry_of (rev xs)"
    using assms rcursor_entry by blast
  ultimately show ?thesis
    by (simp add: listIteratorPrev_def rcursor_def ld_back_def)
qed

subsection \<open>Representation\<close>

definition list_ok :: "'c lheap \<Rightarrow> addr \<Rightarrow> addr list \<Rightarrow> addr list \<Rightarrow> bool" where
  "list_ok h l xs os \<longleftrightarrow>
     ring h l xs \<and> numEnts h l = int (length xs) \<and>
     (if allowObservers h l
      then ring h (observers h l) os \<and> set (l # xs) \<inter> set (observers h l # os) = {}
      else os = [])"

definition fresh_for :: "'c lheap \<Rightarrow> addr \<Rightarrow> addr list \<Rightarrow> addr list \<Rightarrow> addr \<Rightarrow> bool" where
  "fresh_for h l xs os e \<longleftrightarrow>
     e \<notin> set (NULL # l # xs) \<and> (allowObservers h l \<longrightarrow> e \<notin> set (observers h l # os))"

text \<open>What one observer does with an event, and what the whole observer list does.\<close>

definition obs_deliver :: "addr \<Rightarrow> levent \<Rightarrow> 'c listObserver \<Rightarrow> 'c \<Rightarrow> 'c" where
  "obs_deliver l ev ob c =
     (if observer_skips ob ev then c
      else (case (case ev_type ev of LIST_EVENT_ENTER \<Rightarrow> obs_enter ob | _ \<Rightarrow> obs_leave ob) of
          None \<Rightarrow> c
        | Some f \<Rightarrow> f l ev c))"

definition deliver_all :: "'c lheap \<Rightarrow> addr \<Rightarrow> levent \<Rightarrow> addr list \<Rightarrow> 'c \<Rightarrow> 'c" where
  "deliver_all h l ev os = fold (\<lambda>ob. obs_deliver l ev (obs h ob)) os"

lemma run_callback_eq:
  "run_callback cb l ev h = h\<lparr>cstate := (case cb of None \<Rightarrow> cstate h | Some f \<Rightarrow> f l ev (cstate h))\<rparr>"
  by (cases cb) (simp_all add: run_callback_def)

lemma ring_cstate [simp]: "ring (h\<lparr>cstate := c\<rparr>) s xs = ring h s xs"
  by (rule ring_cong) auto

lemma ring_numEnts [simp]: "ring (h\<lparr>numEnts := c\<rparr>) s xs = ring h s xs"
  by (rule ring_cong) auto

lemma notify_loop_eq:
  assumes "ring h ol (xs @ ys)" "ev_type ev \<noteq> LIST_EVENT_NULL"
  shows "notify_loop h l ev (cursor ol ys) (entry_of ys) =
         Some (0, h\<lparr>cstate := deliver_all h l ev ys (cstate h)\<rparr>)"
  using assms
proof (induction ys arbitrary: xs h)
  case Nil
  then show ?case
    by (simp add: notify_loop.simps cursor_end deliver_all_def)
next
  case (Cons y ys)
  let ?h' = "h\<lparr>cstate := obs_deliver l ev (obs h y) (cstate h)\<rparr>"
  have r: "ring ?h' ol ((xs @ [y]) @ ys)"
    using Cons.prems by simp
  have IH: "notify_loop ?h' l ev (cursor ol ys) (entry_of ys) =
      Some (0, ?h'\<lparr>cstate := deliver_all ?h' l ev ys (cstate ?h')\<rparr>)"
    by (rule Cons.IH [OF r Cons.prems(2)])
  have nxt: "listIteratorNext (h\<lparr>cstate := c\<rparr>) (cursor ol (y # ys)) = Some (cursor ol ys, entry_of ys)" for c
    using Cons.prems(1) by (intro cursor_next [where xs = xs]) simp
  have nxt0: "listIteratorNext h (cursor ol (y # ys)) = Some (cursor ol ys, entry_of ys)"
    using Cons.prems(1) by (rule cursor_next)
  have same: "h\<lparr>cstate := cstate h\<rparr> = h" by simp
  have "notify_loop h l ev (cursor ol (y # ys)) (entry_of (y # ys)) =
      notify_loop ?h' l ev (cursor ol ys) (entry_of ys)"
    using Cons.prems
    by (subst notify_loop.simps)
       (auto simp: cursor_end run_callback_eq obs_deliver_def nxt nxt0 split: levent_type.splits)
  then show ?case
    using IH by (simp add: deliver_all_def)
qed

lemma notify_if_observed_eq:
  assumes "allowObservers h l \<Longrightarrow> ring h (observers h l) os" "\<not> allowObservers h l \<Longrightarrow> os = []"
    and "ty \<noteq> LIST_EVENT_NULL"
  shows "notify_if_observed h l ty e =
    Some (h\<lparr>cstate := deliver_all h l \<lparr>ev_type = ty, ev_entry = e\<rparr> os (cstate h)\<rparr>)"
proof (cases "allowObservers h l")
  case True
  with assms have r: "ring h (observers h l) os" by simp
  then have ne: "observers h l \<noteq> NULL" by (rule ring_nonnull)
  have "LIST_IS_EMPTY h (observers h l) = Some (os = [])"
    using ring_is_empty [OF r] ne by (auto simp: LIST_IS_EMPTY_def ld_forw_def)
  moreover have "listNotifyObservers h l \<lparr>ev_type = ty, ev_entry = e\<rparr> =
      Some (0, h\<lparr>cstate := deliver_all h l \<lparr>ev_type = ty, ev_entry = e\<rparr> os (cstate h)\<rparr>)"
    using r assms(3) notify_loop_eq [of h "observers h l" "[]" os]
    by (simp add: listNotifyObservers_def attach_cursor cursor_entry [of h _ "[]"])
  ultimately show ?thesis
    using True by (auto simp: notify_if_observed_def deliver_all_def)
next
  case False
  with assms(2) show ?thesis by (simp add: notify_if_observed_def deliver_all_def)
qed

subsection \<open>Insertion and removal\<close>

abbreviation enter_event :: "addr \<Rightarrow> levent" where
  "enter_event e \<equiv> \<lparr>ev_type = LIST_EVENT_ENTER, ev_entry = e\<rparr>"

abbreviation leave_event :: "addr \<Rightarrow> levent" where
  "leave_event e \<equiv> \<lparr>ev_type = LIST_EVENT_LEAVE, ev_entry = e\<rparr>"

lemma splice_in_frame_simps [simp]:
  "numEnts (splice_in h b e q) = numEnts h" "allowObservers (splice_in h b e q) = allowObservers h"
  "observers (splice_in h b e q) = observers h" "obs (splice_in h b e q) = obs h"
  "cstate (splice_in h b e q) = cstate h" "payload (splice_in h b e q) = payload h"
  "pool (splice_in h b e q) = pool h"
  by (simp_all add: splice_in_def)

lemma splice_out_frame_simps [simp]:
  "numEnts (splice_out h e) = numEnts h" "allowObservers (splice_out h e) = allowObservers h"
  "observers (splice_out h e) = observers h" "obs (splice_out h e) = obs h"
  "cstate (splice_out h e) = cstate h" "payload (splice_out h e) = payload h"
  "pool (splice_out h e) = pool h"
  by (simp_all add: splice_out_def)

lemma deliver_all_cong [simp]:
  "deliver_all (splice_in h b e q) l ev os = deliver_all h l ev os"
  "deliver_all (splice_out h e) l ev os = deliver_all h l ev os"
  by (simp_all add: deliver_all_def)

definition after_insert :: "'c lheap \<Rightarrow> addr \<Rightarrow> addr list \<Rightarrow> addr \<Rightarrow> addr \<Rightarrow> addr \<Rightarrow> 'c lheap" where
  "after_insert h l os b e q =
     (splice_in h b e q)\<lparr>cstate := deliver_all h l (enter_event e) os (cstate h),
                         numEnts := (numEnts h)(l := numEnts h l + 1)\<rparr>"

definition after_remove :: "'c lheap \<Rightarrow> addr \<Rightarrow> addr list \<Rightarrow> addr \<Rightarrow> 'c lheap" where
  "after_remove h l os e =
     (splice_out h e)\<lparr>cstate := deliver_all h l (leave_event e) os (cstate h),
                      numEnts := (numEnts h)(l := numEnts h l - 1)\<rparr>"

lemma observers_ring_splice_in:
  assumes "list_ok h l (xs @ ys) os" "fresh_for h l (xs @ ys) os e" "allowObservers h l"
  shows "ring (splice_in h (last (l # xs)) e (hd (ys @ [l]))) (observers h l) os"
proof (rule ring_splice_in_frame)
  show "ring h (observers h l) os"
    using assms by (simp add: list_ok_def)
  have r: "ring h l (xs @ ys)" using assms by (simp add: list_ok_def)
  show "last (l # xs) \<notin> set (observers h l # os)" "hd (ys @ [l]) \<notin> set (observers h l # os)"
    using ring_neighbours_notin [OF r, of "set (observers h l # os)"] assms
    by (simp_all add: list_ok_def del: last.simps)
  show "e \<notin> set (observers h l # os)"
    using assms by (simp add: fresh_for_def)
qed

lemma insert_before_eq:
  assumes ok: "list_ok h l (xs @ ys) os" and fr: "fresh_for h l (xs @ ys) os e"
  shows "listInsertEntryBefore h l (hd (ys @ [l])) e =
    Some (0, after_insert h l os (last (l # xs)) e (hd (ys @ [l])))"
proof -
  let ?q = "hd (ys @ [l])" and ?b = "last (l # xs)"
  let ?h' = "splice_in h ?b e ?q"
  have r: "ring h l (xs @ ys)" using ok by (simp add: list_ok_def)
  have e: "e \<notin> set (NULL # l # xs @ ys)" using fr by (simp add: fresh_for_def)
  have "notify_if_observed ?h' l LIST_EVENT_ENTER e =
      Some (?h'\<lparr>cstate := deliver_all h l (enter_event e) os (cstate h)\<rparr>)"
    using notify_if_observed_eq [of ?h' l os LIST_EVENT_ENTER e] ok
      observers_ring_splice_in [OF ok fr]
    by (simp add: list_ok_def)
  moreover have "listInsertEntryBefore h l ?q e =
      do { h \<leftarrow> inList h ?q e;
           h \<leftarrow> notify_if_observed h l LIST_EVENT_ENTER e;
           Some (0, h\<lparr>numEnts := (numEnts h)(l := numEnts h l + 1)\<rparr>) }"
    by (simp add: listInsertEntryBefore_def inList_def)
  ultimately show ?thesis
    using inList_eq [OF r e] by (simp add: after_insert_def)
qed

lemma insert_before_ok:
  assumes ok: "list_ok h l (xs @ ys) os" and fr: "fresh_for h l (xs @ ys) os e"
  shows "list_ok (after_insert h l os (last (l # xs)) e (hd (ys @ [l]))) l (xs @ e # ys) os"
proof -
  have r: "ring h l (xs @ ys)" using ok by (simp add: list_ok_def)
  have e: "e \<notin> set (NULL # l # xs @ ys)" using fr by (simp add: fresh_for_def)
  show ?thesis
    using ok fr ring_splice_in [OF r e] observers_ring_splice_in [OF ok fr]
    by (auto simp: list_ok_def after_insert_def fresh_for_def)
qed

lemma observers_ring_splice_out:
  assumes "list_ok h l (xs @ e # ys) os" "allowObservers h l"
  shows "ring (splice_out h e) (observers h l) os"
proof (rule ring_splice_out_frame)
  show "ring h (observers h l) os"
    using assms by (simp add: list_ok_def)
  have r: "ring h l (xs @ e # ys)" using assms by (simp add: list_ok_def)
  have r': "ring h l ((xs @ [e]) @ ys)" using r by simp
  show "backw h e \<notin> set (observers h l # os)" "forw h e \<notin> set (observers h l # os)"
    using ring_neighbours_notin(1) [OF r, of "set (observers h l # os)"]
      ring_neighbours_notin(2) [OF r', of "set (observers h l # os)"] ring_split_links [OF r] assms
    by (simp_all add: list_ok_def del: last.simps)
qed

lemma remove_linked_entry:
  assumes r: "ring h s (xs @ e # ys)"
    and obs: "allowObservers h l \<Longrightarrow> ring (splice_out h e) (observers h l) os"
      "\<not> allowObservers h l \<Longrightarrow> os = []"
  shows "listRemoveEntry h l e = Some (after_remove h l os e)"
proof -
  note ring_entry_links [OF r]
  moreover have "notify_if_observed (splice_out h e) l LIST_EVENT_LEAVE e =
      Some ((splice_out h e)\<lparr>cstate := deliver_all h l (leave_event e) os (cstate h)\<rparr>)"
    using notify_if_observed_eq [of "splice_out h e" l os LIST_EVENT_LEAVE e] obs by simp
  ultimately show ?thesis
    by (simp add: listRemoveEntry_def store_defs splice_out_def after_remove_def)
qed

lemma remove_entry_eq:
  assumes ok: "list_ok h l (xs @ e # ys) os"
  shows "listRemoveEntry h l e = Some (after_remove h l os e)"
  using ok observers_ring_splice_out [OF ok]
  by (intro remove_linked_entry [of h l xs e ys]) (simp_all add: list_ok_def)

lemma remove_entry_ok:
  assumes ok: "list_ok h l (xs @ e # ys) os"
  shows "list_ok (after_remove h l os e) l (xs @ ys) os"
proof -
  have r: "ring h l (xs @ e # ys)" using ok by (simp add: list_ok_def)
  show ?thesis
    using ok ring_splice_out [OF r] observers_ring_splice_out [OF ok]
    by (auto simp: list_ok_def after_remove_def)
qed

lemma insert_derived:
  assumes "list_ok h l zs os"
  shows "listInsertEntryAtFront h l e = listInsertEntryBefore h l (hd (zs @ [l])) e"
    and "listInsertEntryAtBack h l e = listInsertEntryBefore h l (hd ([] @ [l])) e"
    and "zs = xs @ p # ys \<Longrightarrow> listInsertEntryAfter h l p e = listInsertEntryBefore h l (hd (ys @ [l])) e"
proof -
  have r: "ring h l zs" using assms by (simp add: list_ok_def)
  show "listInsertEntryAtFront h l e = listInsertEntryBefore h l (hd (zs @ [l])) e"
    using r by (simp add: listInsertEntryAtFront_def ld_forw_def ring_nonnull)
  show "listInsertEntryAtBack h l e = listInsertEntryBefore h l (hd ([] @ [l])) e"
    by (simp add: listInsertEntryAtBack_def)
  assume "zs = xs @ p # ys"
  with r have "p \<noteq> NULL" "forw h p = hd (ys @ [l])"
    using ring_split_links [of h l xs p ys] ring_nonnull [of h l zs] by auto
  then show "listInsertEntryAfter h l p e = listInsertEntryBefore h l (hd (ys @ [l])) e"
    by (simp add: listInsertEntryAfter_def ld_forw_def)
qed

subsection \<open>Search and traversal\<close>

lemma search_loop_eq:
  assumes "ring h l (xs @ ys)"
  shows "search_loop h eq (cursor l ys) (entry_of ys) = Some (entry_of (dropWhile (\<lambda>e. \<not> eq e) ys))"
  using assms
proof (induction ys arbitrary: xs)
  case Nil
  then show ?case by (simp add: search_loop.simps)
next
  case (Cons y ys)
  have "y \<noteq> NULL" using Cons.prems by (auto simp: ring_def)
  moreover have "search_loop h eq (cursor l ys) (entry_of ys) =
      Some (entry_of (dropWhile (\<lambda>e. \<not> eq e) ys))"
    by (rule Cons.IH [of "xs @ [y]"]) (use Cons.prems in simp)
  ultimately show ?case
    using cursor_next [OF Cons.prems] by (simp add: search_loop.simps [of _ _ "cursor l (y # ys)"])
qed

lemma vector_loop_forward:
  assumes "ring h l (xs @ ys)" "flag d LIST_TRAVERSE_FORWARD"
  shows "vector_loop h d (cursor l ys) (entry_of ys) acc = Some (acc @ ys)"
  using assms
proof (induction ys arbitrary: xs acc)
  case Nil
  then show ?case by (simp add: vector_loop.simps)
next
  case (Cons y ys)
  have "y \<noteq> NULL" using Cons.prems by (auto simp: ring_def)
  moreover have "vector_loop h d (cursor l ys) (entry_of ys) (acc @ [y]) = Some ((acc @ [y]) @ ys)"
    by (rule Cons.IH [of "xs @ [y]"]) (use Cons.prems in simp_all)
  ultimately show ?case
    using cursor_next [OF Cons.prems(1)] Cons.prems(2)
    by (simp add: vector_loop.simps [of _ _ "cursor l (y # ys)"] traverse_step_def)
qed

lemma vector_loop_backward:
  assumes "ring h l (xs @ ys)" "\<not> flag d LIST_TRAVERSE_FORWARD"
  shows "vector_loop h d (rcursor l xs) (entry_of (rev xs)) acc = Some (acc @ rev xs)"
  using assms
proof (induction xs arbitrary: ys acc rule: rev_induct)
  case Nil
  then show ?case by (simp add: vector_loop.simps)
next
  case (snoc x xs)
  then have r: "ring h l (xs @ x # ys)" by simp
  then have "x \<noteq> NULL" by (auto simp: ring_def)
  moreover have "vector_loop h d (rcursor l xs) (entry_of (rev xs)) (acc @ [x]) =
      Some ((acc @ [x]) @ rev xs)"
    by (rule snoc.IH [OF r snoc.prems(2)])
  ultimately show ?case
    using rcursor_prev [OF r] snoc.prems(2)
    by (simp add: vector_loop.simps [of _ _ "rcursor l (xs @ [x])"] traverse_step_def)
qed

lemma front_back_entry:
  assumes "ring h l xs"
  shows "listGetFrontEntry h l = Some (entry_of xs)" "listGetBackEntry h l = Some (entry_of (rev xs))"
proof -
  have n: "l \<noteq> NULL" using assms by (rule ring_nonnull)
  show "listGetFrontEntry h l = Some (entry_of xs)"
    using assms n by (cases xs) (auto simp: listGetFrontEntry_def ld_forw_def ring_def)
  show "listGetBackEntry h l = Some (entry_of (rev xs))"
    using assms n ring_is_empty [OF assms] ring_back [OF assms]
    by (cases xs rule: rev_cases) (auto simp: listGetBackEntry_def store_defs)
qed

lemma traverse_start_eq:
  assumes "ring h l xs"
  shows "\<not> flag d LIST_TRAVERSE_BACKWARD \<Longrightarrow> traverse_start h l d = Some (cursor l xs)"
    and "flag d LIST_TRAVERSE_BACKWARD \<Longrightarrow>
           traverse_start h l d = Some \<lparr>it_list = l, it_cur = entry_of (rev xs)\<rparr>"
  using assms
  by (simp_all add: traverse_start_def attach_cursor front_back_entry listIteratorSetCurEntry_def
      cursor_def)

lemma backward_entry:
  assumes "ring h l xs"
  shows "listIteratorGetCurEntry \<lparr>it_list = l, it_cur = entry_of (rev xs)\<rparr> = entry_of (rev xs)"
    and "xs \<noteq> [] \<Longrightarrow> \<lparr>it_list = l, it_cur = entry_of (rev xs)\<rparr> = rcursor l xs"
  using assms
  by (cases xs rule: rev_cases; auto simp: listIteratorGetCurEntry_def rcursor_def ring_def)+

lemma list2Vector_forward: "ring h l xs \<Longrightarrow> list2Vector h l LIST_TRAVERSE_FORWARD = Some xs"
  using vector_loop_forward [of h l "[]" xs LIST_TRAVERSE_FORWARD "[]"]
  by (simp add: list2Vector_def traverse_start_eq flag_def cursor_entry [of h l "[]"])

lemma list2Vector_backward: "ring h l xs \<Longrightarrow> list2Vector h l LIST_TRAVERSE_BACKWARD = Some (rev xs)"
proof -
  assume r: "ring h l xs"
  have d: "flag LIST_TRAVERSE_BACKWARD LIST_TRAVERSE_BACKWARD"
    "\<not> flag LIST_TRAVERSE_BACKWARD LIST_TRAVERSE_FORWARD"
    by (simp_all add: flag_def)
  show ?thesis
  proof (cases "xs = []")
    case True
    with r d show ?thesis
      by (simp add: list2Vector_def traverse_start_eq(2) listIteratorGetCurEntry_def vector_loop.simps)
  next
    case False
    with r d show ?thesis
      using vector_loop_backward [of h l xs "[]" LIST_TRAVERSE_BACKWARD "[]"] backward_entry [OF r]
        rcursor_entry [of h l xs "[]"]
      by (simp add: list2Vector_def traverse_start_eq(2))
  qed
qed

lemma validate_loop_eq:
  assumes "ring h l (xs @ ys)"
  shows "validate_loop h (cursor l ys) (entry_of ys) e = Some (e \<in> set ys)"
  using assms
proof (induction ys arbitrary: xs)
  case Nil
  then show ?case by (simp add: validate_loop.simps cursor_end)
next
  case (Cons y ys)
  have "validate_loop h (cursor l ys) (entry_of ys) e = Some (e \<in> set ys)"
    by (rule Cons.IH [of "xs @ [y]"]) (use Cons.prems in simp)
  moreover have "\<not> listIteratorIsEndOfList (cursor l (y # ys))"
    using cursor_end [OF Cons.prems] by simp
  ultimately show ?case
    using cursor_next [OF Cons.prems] by (auto simp: validate_loop.simps [of _ "cursor l (y # ys)"])
qed

text \<open>The text \<open>listCat\<close> leaves in its buffer: entries are skipped when they print nothing, and
  the traversal stops at the first text that does not fit.\<close>

fun cat_upto :: "int \<Rightarrow> (addr \<Rightarrow> string option) \<Rightarrow> addr list \<Rightarrow> string \<Rightarrow> string" where
  "cat_upto n f [] acc = acc"
| "cat_upto n f (x # xs) acc =
     (case f x of
        None \<Rightarrow> cat_upto n f xs acc
      | Some str \<Rightarrow> if int (length acc) + int (length str) > n - 1 then acc
                    else cat_upto n f xs (acc @ str))"

lemma cat_loop_forward:
  assumes "ring h l (xs @ ys)" "flag d LIST_TRAVERSE_FORWARD"
  shows "cat_loop h d n f (cursor l ys) (entry_of ys) acc = Some (cat_upto n f ys acc)"
  using assms
proof (induction ys arbitrary: xs acc)
  case Nil
  then show ?case by (simp add: cat_loop.simps)
next
  case (Cons y ys)
  have "y \<noteq> NULL" using Cons.prems by (auto simp: ring_def)
  moreover have "cat_loop h d n f (cursor l ys) (entry_of ys) a = Some (cat_upto n f ys a)" for a
    by (rule Cons.IH [of "xs @ [y]"]) (use Cons.prems in simp_all)
  ultimately show ?case
    using cursor_next [OF Cons.prems(1)] Cons.prems(2)
    by (auto simp: cat_loop.simps [of _ _ _ _ "cursor l (y # ys)"] traverse_step_def
        split: option.splits)
qed

lemma listCat_forward: "ring h l xs \<Longrightarrow> listCat h l 0 n f = Some (cat_upto n f xs [])"
  using cat_loop_forward [of h l "[]" xs LIST_TRAVERSE_FORWARD n f "[]"]
  by (simp add: listCat_def traverse_start_eq flag_def cursor_entry [of h l "[]"])

lemma cat_upto_fits: "int (length acc) \<le> n - 1 \<Longrightarrow> int (length (cat_upto n f xs acc)) \<le> n - 1"
  by (induction n f xs acc rule: cat_upto.induct) (auto split: option.splits)

subsection \<open>Duplication\<close>

definition dup_entry :: "'c lheap \<Rightarrow> addr \<Rightarrow> addr \<Rightarrow> 'c lheap" where
  "dup_entry h e src =
     (let h1 = snd (calloc_entry h)
      in h1\<lparr>payload := (payload h1)(e := payload h1 src), forw := (forw h1)(e := forw h1 src),
            backw := (backw h1)(e := backw h1 src)\<rparr>)"

lemma dup_entry_frame:
  assumes "pool h = e # ps"
  shows "a \<noteq> e \<Longrightarrow> forw (dup_entry h e src) a = forw h a"
    "a \<noteq> e \<Longrightarrow> backw (dup_entry h e src) a = backw h a"
    "a \<noteq> e \<Longrightarrow> numEnts (dup_entry h e src) a = numEnts h a"
    "a \<noteq> e \<Longrightarrow> allowObservers (dup_entry h e src) a = allowObservers h a"
    "a \<noteq> e \<Longrightarrow> observers (dup_entry h e src) a = observers h a"
    "payload (dup_entry h e src) = (payload h)(e := (if src = e then 0 else payload h src))"
    "pool (dup_entry h e src) = ps"
  using assms by (auto simp: dup_entry_def calloc_entry_def Let_def)

lemma dup_entry_ring:
  "\<lbrakk>pool h = e # ps; e \<notin> set (s # xs); ring h s xs\<rbrakk> \<Longrightarrow> ring (dup_entry h e src) s xs"
  by (subst ring_cong [of s xs "dup_entry h e src" h])
     (auto intro!: dup_entry_frame(1,2))

lemma dup_loop_eq:
  assumes "ring h l (xs @ ys)" "list_ok h nl ds []" "\<not> allowObservers h nl"
    "pool h = es @ rest" "length es = length ys"
    "distinct (nl # ds @ es)" "NULL \<notin> set es"
    "set (l # xs @ ys) \<inter> set (nl # ds @ es) = {}"
  shows "\<exists>h'. dup_loop h nl (cursor l ys) (entry_of ys) = Some h' \<and>
    list_ok h' nl (ds @ es) [] \<and> ring h' l (xs @ ys) \<and>
    map (payload h') es = map (payload h) ys \<and> pool h' = rest \<and>
    (\<forall>a. a \<notin> set es \<longrightarrow> payload h' a = payload h a)"
  using assms
proof (induction ys arbitrary: xs ds es h)
  case Nil
  then show ?case by (simp add: dup_loop.simps)
next
  case (Cons y ys)
  then obtain e es' where es: "es = e # es'" by (cases es) auto
  let ?h1 = "dup_entry h e y"
  let ?h2 = "after_insert ?h1 nl [] (last (nl # ds)) e nl"
  have pool: "pool h = e # es' @ rest" using Cons.prems(4) es by simp
  have r1: "ring ?h1 l (xs @ y # ys)"
    using Cons.prems(1,8) es by (intro dup_entry_ring [OF pool]) auto
  have nl: "e \<noteq> nl" "e \<notin> set ds" "e \<noteq> NULL" using Cons.prems(6,7) es by auto
  have ok1: "list_ok ?h1 nl (ds @ []) []"
    using Cons.prems(2,3) nl dup_entry_ring [OF pool, of nl ds y]
    by (simp add: list_ok_def dup_entry_frame [OF pool])
  have fr1: "fresh_for ?h1 nl (ds @ []) [] e"
    using nl Cons.prems(3) by (simp add: fresh_for_def dup_entry_frame [OF pool])
  have ins: "listInsertEntryAtBack ?h1 nl e = Some (0, ?h2)"
    using insert_before_eq [OF ok1 fr1] insert_derived(2) [of ?h1 nl ds "[]"] ok1 by simp
  have ok2: "list_ok ?h2 nl (ds @ [e]) []"
    using insert_before_ok [OF ok1 fr1] by simp
  have "ring (splice_in ?h1 (last (nl # ds)) e nl) l (xs @ y # ys)"
  proof (rule ring_splice_in_frame [OF r1])
    show "last (nl # ds) \<notin> set (l # xs @ y # ys)"
      using ring_neighbours_notin(1) [of ?h1 nl ds "[]" "set (l # xs @ y # ys)"] ok1 Cons.prems(8)
      by (simp add: list_ok_def Int_commute del: last.simps) blast
    show "nl \<notin> set (l # xs @ y # ys)" "e \<notin> set (l # xs @ y # ys)"
      using Cons.prems(8) es by auto
  qed
  then have r2: "ring ?h2 l ((xs @ [y]) @ ys)"
    by (simp add: after_insert_def)
  have nobs: "\<not> allowObservers ?h2 nl"
    using Cons.prems(3) nl by (simp add: after_insert_def dup_entry_frame [OF pool])
  have pool2: "pool ?h2 = es' @ rest"
    by (simp add: after_insert_def dup_entry_frame [OF pool])
  have side: "length es' = length ys" "distinct (nl # (ds @ [e]) @ es')" "NULL \<notin> set es'"
    "set (l # (xs @ [y]) @ ys) \<inter> set (nl # (ds @ [e]) @ es') = {}"
    using Cons.prems(5,6,7,8) es by simp_all
  obtain h' where h': "dup_loop ?h2 nl (cursor l ys) (entry_of ys) = Some h'"
    "list_ok h' nl ((ds @ [e]) @ es') []" "ring h' l ((xs @ [y]) @ ys)"
    "map (payload h') es' = map (payload ?h2) ys" "pool h' = rest"
    "\<forall>a. a \<notin> set es' \<longrightarrow> payload h' a = payload ?h2 a"
    using Cons.IH [OF r2 ok2 nobs pool2 side] by blast
  have step: "dup_loop h nl (cursor l (y # ys)) (entry_of (y # ys)) =
      dup_loop ?h2 nl (cursor l ys) (entry_of ys)"
  proof -
    obtain h1 where "calloc_entry h = (e, h1)"
      using pool by (simp add: calloc_entry_def)
    moreover from this have "?h1 = h1\<lparr>payload := (payload h1)(e := payload h1 y),
        forw := (forw h1)(e := forw h1 y), backw := (backw h1)(e := backw h1 y)\<rparr>"
      by (simp add: dup_entry_def)
    moreover have "y \<noteq> NULL"
      using Cons.prems(1) by (auto simp: ring_def)
    moreover have "listIteratorNext ?h2 (cursor l (y # ys)) = Some (cursor l ys, entry_of ys)"
      by (rule cursor_next [where xs = xs]) (use r2 in simp)
    ultimately show ?thesis
      using ins nl(3) by (simp add: dup_loop.simps [of h nl "cursor l (y # ys)"])
  qed
  have pay: "payload ?h2 = (payload h)(e := payload h y)"
  proof -
    have "y \<noteq> e" using Cons.prems(8) es by auto
    then show ?thesis by (simp add: after_insert_def dup_entry_frame [OF pool])
  qed
  show ?case
  proof (intro exI [of _ h'] conjI)
    show "dup_loop h nl (cursor l (y # ys)) (entry_of (y # ys)) = Some h'"
      using step h'(1) by simp
    show "list_ok h' nl (ds @ es) []" "ring h' l (xs @ y # ys)" "pool h' = rest"
      using h' es by simp_all
    have "e \<notin> set es'" "e \<notin> set ys" using Cons.prems(6,8) es by auto
    then show "map (payload h') es = map (payload h) (y # ys)"
      using h'(4,6) es pay by (auto intro: map_cong)
    show "\<forall>a. a \<notin> set es \<longrightarrow> payload h' a = payload h a"
      using h'(6) es pay by auto
  qed
qed

subsection \<open>Creation, destruction\<close>

lemma calloc_entry_pool: "pool h = e # ps \<Longrightarrow> \<exists>h1. calloc_entry h = (e, h1) \<and> pool h1 = ps \<and>
    numEnts h1 e = 0 \<and> \<not> allowObservers h1 e \<and> payload h1 = (payload h)(e := 0) \<and>
    (\<forall>a. a \<noteq> e \<longrightarrow> forw h1 a = forw h a \<and> backw h1 a = backw h a)"
  by (simp add: calloc_entry_def)

lemma listCreate_eq:
  assumes "pool h = e # ps" "e \<noteq> NULL"
  shows "\<exists>h1. listCreate h = (e, h1) \<and> list_ok h1 e [] [] \<and> \<not> allowObservers h1 e \<and> pool h1 = ps \<and>
    (\<forall>a. a \<noteq> e \<longrightarrow> payload h1 a = payload h a) \<and>
    (\<forall>s xs. e \<notin> set (s # xs) \<longrightarrow> ring h1 s xs = ring h s xs)"
proof -
  obtain h0 where h0: "calloc_entry h = (e, h0)" "pool h0 = ps" "numEnts h0 e = 0"
    "\<not> allowObservers h0 e" "payload h0 = (payload h)(e := 0)"
    "\<And>a. a \<noteq> e \<Longrightarrow> forw h0 a = forw h a" "\<And>a. a \<noteq> e \<Longrightarrow> backw h0 a = backw h a"
    using calloc_entry_pool [OF assms(1)] by blast
  let ?h1 = "h0\<lparr>forw := (forw h0)(e := e), backw := (backw h0)(e := e)\<rparr>"
  have "ring ?h1 s xs = ring h s xs" if "e \<notin> set (s # xs)" for s xs
    by (rule ring_cong) (use that h0(6,7) in auto)
  moreover have "listCreate h = (e, ?h1)"
    using h0(1) assms(2) by (simp add: listCreate_def)
  moreover have "list_ok ?h1 e [] []"
    using ring_new [of e h0] assms(2) h0(3,4) by (simp add: list_ok_def)
  ultimately show ?thesis using h0 by auto
qed

text \<open>The client state after the entries \<open>xs\<close> have left one by one, each destroyed in turn.\<close>

fun destroyed :: "'c lheap \<Rightarrow> addr \<Rightarrow> addr list \<Rightarrow> (addr \<Rightarrow> 'c \<Rightarrow> 'c) option \<Rightarrow> addr list \<Rightarrow> 'c \<Rightarrow> 'c" where
  "destroyed h l os d [] c = c"
| "destroyed h l os d (x # xs) c =
     destroyed h l os d xs
       ((case d of Some f \<Rightarrow> f x | None \<Rightarrow> id) (deliver_all h l (leave_event x) os c))"

lemma destroyed_cong: "obs h' = obs h \<Longrightarrow> destroyed h' l os d xs c = destroyed h l os d xs c"
  by (induction xs arbitrary: c) (simp_all add: deliver_all_def)

definition after_destroy ::
  "'c lheap \<Rightarrow> addr \<Rightarrow> addr list \<Rightarrow> (addr \<Rightarrow> 'c \<Rightarrow> 'c) option \<Rightarrow> addr \<Rightarrow> 'c lheap" where
  "after_destroy h l os d e =
     (let h1 = after_remove h l os e
      in case d of Some f \<Rightarrow> h1\<lparr>cstate := f e (cstate h1)\<rparr> | None \<Rightarrow> free_entry h1 e)"

lemma after_destroy_frame:
  "allowObservers (after_destroy h l os d e) = allowObservers h"
  "observers (after_destroy h l os d e) = observers h" "obs (after_destroy h l os d e) = obs h"
  "cstate (after_destroy h l os d e) =
     (case d of Some f \<Rightarrow> f e | None \<Rightarrow> id) (deliver_all h l (leave_event e) os (cstate h))"
  "pool (after_destroy h l os d e) = (if d = None then [e] else []) @ pool h"
  "a \<noteq> l \<Longrightarrow> numEnts (after_destroy h l os d e) a = numEnts h a"
  by (simp_all add: after_destroy_def after_remove_def free_entry_def Let_def split: option.splits)

lemma list_ok_frame [simp]:
  "list_ok (h\<lparr>cstate := c\<rparr>) l xs os = list_ok h l xs os"
  "list_ok (free_entry h e) l xs os = list_ok h l xs os"
proof -
  have "ring (free_entry h e) s ys = ring h s ys" for s ys
    by (rule ring_cong) (simp_all add: free_entry_def)
  then show "list_ok (free_entry h e) l xs os = list_ok h l xs os"
    by (simp add: list_ok_def) (simp add: free_entry_def)
qed (simp add: list_ok_def)

lemma after_destroy_ok:
  assumes "list_ok h l (e # xs) os"
  shows "list_ok (after_destroy h l os d e) l xs os"
  using remove_entry_ok [of h l "[]"] assms
  by (simp add: after_destroy_def Let_def split: option.split)

lemma destroy_loop_eq:
  assumes "list_ok h l xs os"
  shows "\<exists>h'. destroy_loop h l d = Some h' \<and> list_ok h' l [] os \<and> obs h' = obs h \<and>
    allowObservers h' = allowObservers h \<and> observers h' = observers h \<and>
    cstate h' = destroyed h l os d xs (cstate h) \<and>
    pool h' = (if d = None then rev xs else []) @ pool h \<and>
    (\<forall>a. a \<noteq> l \<longrightarrow> numEnts h' a = numEnts h a)"
  using assms
proof (induction xs arbitrary: h)
  case Nil
  then have "ring h l []" by (simp add: list_ok_def)
  then have "forw h l = l" "l \<noteq> NULL" using ring_nonnull(1) by (auto simp: ring_def)
  then show ?case
    using Nil by (simp add: destroy_loop.simps [of h l] ld_forw_def)
next
  case (Cons x xs)
  let ?h1 = "after_destroy h l os d x"
  have r: "ring h l (x # xs)" using Cons.prems by (simp add: list_ok_def)
  have "destroy_loop h l d = destroy_loop ?h1 l d"
    using remove_entry_eq [of h l "[]" x xs os] Cons.prems ring_nonnull [OF r] ring_distinct [OF r] r
    by (subst destroy_loop.simps) (auto simp: ld_forw_def after_destroy_def Let_def)
  moreover obtain h' where "destroy_loop ?h1 l d = Some h'" "list_ok h' l [] os" "obs h' = obs ?h1"
    "allowObservers h' = allowObservers ?h1" "observers h' = observers ?h1"
    "cstate h' = destroyed ?h1 l os d xs (cstate ?h1)"
    "pool h' = (if d = None then rev xs else []) @ pool ?h1"
    "\<forall>a. a \<noteq> l \<longrightarrow> numEnts h' a = numEnts ?h1 a"
    using Cons.IH [OF after_destroy_ok [OF Cons.prems]] by blast
  ultimately show ?case
    by (simp add: after_destroy_frame destroyed_cong [of ?h1 h])
qed

lemma destroyed_silent: "destroyed h l [] None xs c = c"
  by (induction xs arbitrary: c) (simp_all add: deliver_all_def)

lemma listDestroy_plain:
  assumes "list_ok h l xs []" "\<not> allowObservers h l"
  shows "\<exists>h'. listDestroy h l d = Some h' \<and> cstate h' = destroyed h l [] d xs (cstate h) \<and>
    pool h' = l # (if d = None then rev xs else []) @ pool h"
proof -
  obtain h1 where "destroy_loop h l d = Some h1" "allowObservers h1 = allowObservers h"
    "cstate h1 = destroyed h l [] d xs (cstate h)"
    "pool h1 = (if d = None then rev xs else []) @ pool h"
    using destroy_loop_eq [OF assms(1)] by blast
  then show ?thesis
    using assms(2) by (simp add: listDestroy.simps [of h l] free_entry_def)
qed

subsection \<open>An example heap\<close>

text \<open>
  A list at 10 with the entries 2 and 3, observed by the observer 5 (of the observer list 4), which
  adds the entry to the client state when it enters and removes it when it leaves.
\<close>

definition ex_heap :: "nat list lheap" where
  "ex_heap =
     \<lparr>forw = (\<lambda>_. 0)(10 := 2, 2 := 3, 3 := 10, 4 := 5, 5 := 4),
      backw = (\<lambda>_. 0)(10 := 3, 3 := 2, 2 := 10, 4 := 5, 5 := 4),
      numEnts = (\<lambda>_. 0)(10 := 2, 4 := 1), allowObservers = (\<lambda>_. False)(10 := True),
      observers = (\<lambda>_. 0)(10 := 4),
      obs = (\<lambda>_. \<lparr>obs_list = 10, obs_select = None,
                  obs_enter = Some (\<lambda>l ev c. ev_entry ev # c),
                  obs_leave = Some (\<lambda>l ev c. remove1 (ev_entry ev) c)\<rparr>),
      payload = (\<lambda>_. 0)(2 := 20, 3 := 30), cstate = [2, 3], pool = [6, 7, 8, 9],
      listerrno = LIST_ERR_NOERR\<rparr>"

lemma ex_heap_ok: "list_ok ex_heap 10 [2, 3] [5]"
  by (simp add: list_ok_def ring_def ex_heap_def)

lemma ex_heap_fresh: "fresh_for ex_heap 10 [2, 3] [5] 6"
  by (simp add: fresh_for_def ex_heap_def)

lemma ex_heap_deliver:
  "deliver_all ex_heap 10 (enter_event e) [5] c = e # c"
  "deliver_all ex_heap 10 (leave_event e) [5] c = remove1 e c"
  by (simp_all add: deliver_all_def obs_deliver_def observer_skips_def ex_heap_def)

subsection \<open>Properties\<close>

text \<open>The contract of an operation that adds \<open>e\<close>, leaving the list with the entries \<open>zs\<close>.\<close>

definition enters ::
  "'c lheap \<Rightarrow> addr \<Rightarrow> addr list \<Rightarrow> addr \<Rightarrow> addr list \<Rightarrow> (int \<times> 'c lheap) option \<Rightarrow> bool" where
  "enters h l os e zs r \<longleftrightarrow>
     (\<exists>h'. r = Some (0, h') \<and> list_ok h' l zs os \<and>
           cstate h' = deliver_all h l (enter_event e) os (cstate h))"

lemma insert_before_enters:
  assumes "list_ok h l (xs @ ys) os" "fresh_for h l (xs @ ys) os e"
  shows "enters h l os e (xs @ e # ys) (listInsertEntryBefore h l (hd (ys @ [l])) e)"
  using insert_before_eq [OF assms] insert_before_ok [OF assms]
  by (simp add: enters_def after_insert_def)

lemma insert_after_eq_before:
  assumes "list_ok h l (xs @ ys) os"
  shows "listInsertEntryAfter h l (last (l # xs)) e = listInsertEntryBefore h l (hd (ys @ [l])) e"
proof (cases xs rule: rev_cases)
  case Nil
  then have "ring h l ys" using assms by (simp add: list_ok_def)
  then show ?thesis
    using Nil by (simp add: listInsertEntryAfter_def ld_forw_def ring_nonnull)
next
  case (snoc xs' p)
  then show ?thesis
    using insert_derived(3) [OF assms, of xs' p ys] by simp
qed

text \<open>C8. Each of the four insert operations of \<open>list.c\<close> places the entry at its position of the
  abstract sequence, keeps the counter and both rings of the list well formed, dereferences no
  \<open>NULL\<close> pointer, and delivers exactly one enter event for the entry to every observer in
  registration order.\<close>

theorem listInsert_refines:
  assumes "list_ok h l (xs @ ys) os" "fresh_for h l (xs @ ys) os e"
  shows "enters h l os e (xs @ e # ys) (listInsertEntryBefore h l (hd (ys @ [l])) e) \<and>
         enters h l os e (xs @ e # ys) (listInsertEntryAfter h l (last (l # xs)) e) \<and>
         enters h l os e (e # xs @ ys) (listInsertEntryAtFront h l e) \<and>
         enters h l os e (xs @ ys @ [e]) (listInsertEntryAtBack h l e)"
proof (intro conjI)
  show "enters h l os e (xs @ e # ys) (listInsertEntryBefore h l (hd (ys @ [l])) e)"
    by (rule insert_before_enters [OF assms])
  then show "enters h l os e (xs @ e # ys) (listInsertEntryAfter h l (last (l # xs)) e)"
    using insert_after_eq_before [OF assms(1)] by simp
  show "enters h l os e (e # xs @ ys) (listInsertEntryAtFront h l e)"
    using insert_before_enters [of h l "[]" "xs @ ys" os e] insert_derived(1) [OF assms(1)] assms by simp
  show "enters h l os e (xs @ ys @ [e]) (listInsertEntryAtBack h l e)"
    using insert_before_enters [of h l "xs @ ys" "[]" os e] insert_derived(2) [OF assms(1)] assms by simp
qed

theorem listInsert_refines_witness:
  "enters ex_heap 10 [5] 6 [2, 6, 3] (listInsertEntryBefore ex_heap 10 3 6) \<and>
   enters ex_heap 10 [5] 6 [2, 6, 3] (listInsertEntryAfter ex_heap 10 2 6) \<and>
   enters ex_heap 10 [5] 6 [6, 2, 3] (listInsertEntryAtFront ex_heap 10 6) \<and>
   enters ex_heap 10 [5] 6 [2, 3, 6] (listInsertEntryAtBack ex_heap 10 6)"
  using listInsert_refines [of ex_heap 10 "[2]" "[3]" "[5]" 6] ex_heap_ok ex_heap_fresh by simp

text \<open>C9. Removing an entry takes exactly that entry out of the abstract sequence, keeps the list
  well formed, decrements the counter and delivers one leave event for it to every observer; and
  inserting an entry at any position and then removing it leaves the sequence and the counter as they were.\<close>

theorem listRemoveEntry_refines:
  assumes "list_ok h l (xs @ e # ys) os"
  shows "(\<exists>h'. listRemoveEntry h l e = Some h' \<and> list_ok h' l (xs @ ys) os \<and>
           numEnts h' l = numEnts h l - 1 \<and>
           cstate h' = deliver_all h l (leave_event e) os (cstate h)) \<and>
    (\<forall>h0. list_ok h0 l (xs @ ys) os \<and> fresh_for h0 l (xs @ ys) os e \<longrightarrow>
      (\<exists>h1 h2. listInsertEntryBefore h0 l (hd (ys @ [l])) e = Some (0, h1) \<and> listRemoveEntry h1 l e = Some h2 \<and>
         list_ok h2 l (xs @ ys) os \<and> numEnts h2 l = numEnts h0 l))"
proof (intro conjI allI impI)
  show "\<exists>h'. listRemoveEntry h l e = Some h' \<and> list_ok h' l (xs @ ys) os \<and> numEnts h' l = numEnts h l - 1 \<and>
      cstate h' = deliver_all h l (leave_event e) os (cstate h)"
    using remove_entry_eq [OF assms] remove_entry_ok [OF assms] by (simp add: after_remove_def)
next
  fix h0 assume h0: "list_ok h0 l (xs @ ys) os \<and> fresh_for h0 l (xs @ ys) os e"
  let ?h1 = "after_insert h0 l os (last (l # xs)) e (hd (ys @ [l]))"
  have ok: "list_ok ?h1 l (xs @ e # ys) os" using h0 insert_before_ok by blast
  have "numEnts (after_remove ?h1 l os e) l = numEnts h0 l"
    using remove_entry_ok [OF ok] h0 by (simp add: list_ok_def)
  then show "\<exists>h1 h2. listInsertEntryBefore h0 l (hd (ys @ [l])) e = Some (0, h1) \<and> listRemoveEntry h1 l e = Some h2 \<and>
      list_ok h2 l (xs @ ys) os \<and> numEnts h2 l = numEnts h0 l"
    using h0 insert_before_eq remove_entry_eq [OF ok] remove_entry_ok [OF ok] by blast
qed

theorem listRemoveEntry_refines_witness:
  "\<exists>h'. listRemoveEntry ex_heap 10 2 = Some h' \<and> list_ok h' 10 [3] [5] \<and> cstate h' = [3]"
proof -
  obtain h' where "listRemoveEntry ex_heap 10 2 = Some h'" "list_ok h' 10 ([] @ [3]) [5]"
    "cstate h' = deliver_all ex_heap 10 (leave_event 2) [5] (cstate ex_heap)"
    using conjunct1 [OF listRemoveEntry_refines [of ex_heap 10 "[]" 2 "[3]" "[5]"]] ex_heap_ok by auto
  moreover have "cstate ex_heap = [2, 3]" by (simp add: ex_heap_def)
  ultimately show ?thesis by (simp add: ex_heap_deliver)
qed

lemma setCurEntry_validated:
  assumes "ring h l xs" "xs \<noteq> []" "it_list it = l"
  shows "listIteratorSetCurEntry h it e True =
    Some (if e \<in> set xs then (0, h, it\<lparr>it_cur := e\<rparr>)
          else (-1, h\<lparr>listerrno := LIST_ERR_BADARG\<rparr>, it))"
proof -
  have "it\<lparr>it_cur := entry_of xs\<rparr> = cursor l xs"
    using assms(2,3) by (cases xs) (simp_all add: cursor_def)
  then show ?thesis
    using assms validate_loop_eq [of h l "[]" xs e] cursor_entry [of h l "[]" xs]
    by (simp add: listIteratorSetCurEntry_def front_back_entry)
qed

text \<open>C21. Every read operation terminates on a well-formed list and agrees with the abstract
  sequence: search returns the first matching entry (\<open>NULL\<close> if there is none), both traversal
  directions yield the sequence and its reverse, the two end accessors its ends, \<open>listCat\<close>
  concatenates the texts in order and never writes past its buffer, and a validated iterator
  placement succeeds exactly for the members of a non-empty list.\<close>

theorem list_reads_refine:
  assumes "ring h l xs"
  shows "listSearchEntry h l eq = Some (entry_of (filter eq xs)) \<and>
    list2Vector h l LIST_TRAVERSE_FORWARD = Some xs \<and>
    list2Vector h l LIST_TRAVERSE_BACKWARD = Some (rev xs) \<and>
    listGetFrontEntry h l = Some (entry_of xs) \<and>
    listGetBackEntry h l = Some (entry_of (rev xs)) \<and>
    (0 < n \<longrightarrow> (\<exists>buf. listCat h l 0 n f = Some buf \<and> int (length buf) \<le> n - 1 \<and>
        (int (length (concat (map (\<lambda>x. case f x of None \<Rightarrow> [] | Some t \<Rightarrow> t) xs))) \<le> n - 1 \<longrightarrow>
           buf = concat (map (\<lambda>x. case f x of None \<Rightarrow> [] | Some t \<Rightarrow> t) xs)))) \<and>
    (xs \<noteq> [] \<and> it_list it = l \<longrightarrow>
       map_option fst (listIteratorSetCurEntry h it e True) = Some (if e \<in> set xs then 0 else -1))"
proof (intro conjI impI)
  have "entry_of (dropWhile (\<lambda>e. \<not> eq e) xs) = entry_of (filter eq xs)"
    by (induction xs) auto
  then show "listSearchEntry h l eq = Some (entry_of (filter eq xs))"
    using search_loop_eq [of h l "[]" xs eq] assms
    by (simp add: listSearchEntry_def attach_cursor cursor_entry [of h l "[]"])
  have "cat_upto n f xs acc = acc @ concat (map (\<lambda>x. case f x of None \<Rightarrow> [] | Some t \<Rightarrow> t) xs)"
    if "int (length acc) + int (length (concat (map (\<lambda>x. case f x of None \<Rightarrow> [] | Some t \<Rightarrow> t) xs))) \<le> n - 1"
    for acc
    using that by (induction n f xs acc rule: cat_upto.induct) (auto split: option.splits)
  then show "\<exists>buf. listCat h l 0 n f = Some buf \<and> int (length buf) \<le> n - 1 \<and>
        (int (length (concat (map (\<lambda>x. case f x of None \<Rightarrow> [] | Some t \<Rightarrow> t) xs))) \<le> n - 1 \<longrightarrow>
           buf = concat (map (\<lambda>x. case f x of None \<Rightarrow> [] | Some t \<Rightarrow> t) xs))" if "0 < n"
    using that assms cat_upto_fits [of "[]" n f xs] by (simp add: listCat_forward)
qed (use assms in \<open>simp_all add: list2Vector_forward list2Vector_backward front_back_entry
       setCurEntry_validated\<close>)

theorem list_reads_refine_witness:
  "listSearchEntry ex_heap 10 (\<lambda>e. 2 < e) = Some 3 \<and>
   list2Vector ex_heap 10 LIST_TRAVERSE_BACKWARD = Some [3, 2] \<and>
   listCat ex_heap 10 0 3 (\<lambda>e. if e = 2 then None else Some ''ab'') = Some ''ab'' \<and>
   map_option fst (listIteratorSetCurEntry ex_heap \<lparr>it_list = 10, it_cur = 2\<rparr> 3 True) = Some 0"
proof -
  have r: "ring ex_heap 10 [2, 3]" using ex_heap_ok by (simp add: list_ok_def)
  show ?thesis
    using list_reads_refine [OF r, of "\<lambda>e. 2 < e" 3 "\<lambda>e. if e = 2 then None else Some ''ab''"
        "\<lparr>it_list = 10, it_cur = 2\<rparr>" 3]
    by auto
qed

text \<open>Duplicating a list, given enough memory, returns a new well-formed list of fresh entries
  with the same payloads in the same order, and leaves the original list and its payloads as they
  were.\<close>

theorem listDup_copies:
  assumes "ring h l xs" "pool h = nl # es @ rest" "length es = length xs"
    "distinct (NULL # nl # es)" "set (l # xs) \<inter> set (nl # es) = {}"
  shows "\<exists>h'. listDup h l = Some (nl, h') \<and> list_ok h' nl es [] \<and> ring h' l xs \<and>
    map (payload h') es = map (payload h) xs \<and> map (payload h') xs = map (payload h) xs \<and>
    pool h' = rest"
proof -
  obtain h1 where h1: "listCreate h = (nl, h1)" "list_ok h1 nl [] []" "\<not> allowObservers h1 nl"
    "pool h1 = es @ rest" "\<And>a. a \<noteq> nl \<Longrightarrow> payload h1 a = payload h a"
    "\<And>s ys. nl \<notin> set (s # ys) \<Longrightarrow> ring h1 s ys = ring h s ys"
    using listCreate_eq [OF assms(2)] assms(4) by auto
  have r1: "ring h1 l ([] @ xs)" using h1(6) [of l xs] assms(1,5) by simp
  obtain h' where h': "dup_loop h1 nl (cursor l xs) (entry_of xs) = Some h'"
    "list_ok h' nl ([] @ es) []" "ring h' l ([] @ xs)" "map (payload h') es = map (payload h1) xs"
    "pool h' = rest" "\<forall>a. a \<notin> set es \<longrightarrow> payload h' a = payload h1 a"
    using dup_loop_eq [OF r1 h1(2,3,4) assms(3)] assms(4,5) by auto
  have "listDup h l = Some (nl, h')"
    using h1(1) h'(1) r1 assms(4)
    by (simp add: listDup_def attach_cursor cursor_entry [of h1 l "[]"])
  moreover have "map (payload h1) xs = map (payload h) xs"
    using h1(5) assms(5) by (metis (no_types, lifting) disjoint_iff list.set_intros(1,2) map_cong)
  moreover have "map (payload h') xs = map (payload h1) xs"
    using h'(6) assms(5) by auto
  ultimately show ?thesis using h' by auto
qed

theorem listDup_copies_witness:
  "\<exists>h'. listDup ex_heap 10 = Some (6, h') \<and> list_ok h' 6 [7, 8] [] \<and> map (payload h') [7, 8] = [20, 30]"
proof -
  have "ring ex_heap 10 [2, 3]" using ex_heap_ok by (simp add: list_ok_def)
  moreover have "pool ex_heap = 6 # [7, 8] @ [9]" "map (payload ex_heap) [2, 3] = [20, 30]"
    by (simp_all add: ex_heap_def)
  ultimately show ?thesis
    using listDup_copies [of ex_heap 10 "[2, 3]" 6 "[7, 8]" "[9]"] by auto
qed

text \<open>C22. Destroying a list terminates, tells the observers that every entry left, in order, calls
  the destructor once per entry, and returns to the allocator each entry (when no destructor is
  given), each observer, the observer list and the header exactly once.\<close>

theorem listDestroy_frees_all:
  assumes "list_ok h l xs os" "list_ok h (observers h l) os []" "allowObservers h l"
    "\<not> allowObservers h (observers h l)"
  shows "\<exists>h'. listDestroy h l d = Some h' \<and> cstate h' = destroyed h l os d xs (cstate h) \<and>
    pool h' = l # observers h l # rev os @ (if d = None then rev xs else []) @ pool h"
proof -
  obtain h1 where h1: "destroy_loop h l d = Some h1" "list_ok h1 l [] os"
    "allowObservers h1 = allowObservers h" "observers h1 = observers h"
    "cstate h1 = destroyed h l os d xs (cstate h)"
    "pool h1 = (if d = None then rev xs else []) @ pool h"
    "\<forall>a. a \<noteq> l \<longrightarrow> numEnts h1 a = numEnts h a"
    using destroy_loop_eq [OF assms(1)] by blast
  have "observers h l \<noteq> l" using assms(3,4) by auto
  then have "list_ok h1 (observers h l) os []"
    using h1(2,3,4,7) assms(2,3,4) by (simp add: list_ok_def)
  then obtain h2 where "listDestroy h1 (observers h l) None = Some h2" "cstate h2 = cstate h1"
    "pool h2 = observers h l # rev os @ pool h1"
    using listDestroy_plain [of h1 "observers h l" os None] h1(3) assms(4)
    by (auto simp: destroyed_silent)
  then show ?thesis
    using h1 assms(3) by (simp add: listDestroy.simps [of h l] free_entry_def)
qed

theorem listDestroy_frees_all_witness:
  "\<exists>h'. listDestroy ex_heap 10 None = Some h' \<and> cstate h' = [] \<and>
     pool h' = [10, 4, 5, 3, 2, 6, 7, 8, 9]"
proof -
  have "list_ok ex_heap (observers ex_heap 10) [5] []" "allowObservers ex_heap 10"
    "\<not> allowObservers ex_heap (observers ex_heap 10)" "observers ex_heap 10 = 4"
    "pool ex_heap = [6, 7, 8, 9]" "cstate ex_heap = [2, 3]"
    by (simp_all add: ex_heap_def list_ok_def ring_def)
  then show ?thesis
    using listDestroy_frees_all [OF ex_heap_ok, of None] by (simp add: ex_heap_deliver)
qed

lemma attach_observer_ok:
  assumes "list_ok h l xs os" "list_ok h (observers h l) os []" "allowObservers h l"
    "\<not> allowObservers h (observers h l)" "ob \<notin> set (NULL # l # xs @ observers h l # os)"
  shows "\<exists>h'. listObserverAttach h ob l = Some (0, h') \<and> list_ok h' l xs (os @ [ob]) \<and>
    list_ok h' (observers h l) (os @ [ob]) [] \<and> obs_list (obs h' ob) = l"
proof -
  let ?ol = "observers h l"
  let ?h1 = "after_insert h ?ol [] (last (?ol # os)) ob (hd ([] @ [?ol]))"
  let ?h2 = "?h1\<lparr>obs := (obs ?h1)(ob := (obs ?h1 ob)\<lparr>obs_list := l\<rparr>)\<rparr>"
  have ok: "list_ok h ?ol (os @ []) []" and fr: "fresh_for h ?ol (os @ []) [] ob"
    using assms(2,4,5) by (auto simp: fresh_for_def)
  have ok1: "list_ok ?h1 ?ol (os @ [ob]) []" using insert_before_ok [OF ok fr] by simp
  have "last (?ol # os) \<notin> set (l # xs)"
    using ring_neighbours_notin(1) [of h ?ol os "[]" "set (l # xs)"] assms(1,2,3)
    by (simp add: list_ok_def del: last.simps) blast
  then have "ring (splice_in h (last (?ol # os)) ob ?ol) l xs"
    using assms(1,3,5) by (intro ring_splice_in_frame) (auto simp: list_ok_def)
  moreover have sim: "ring (g\<lparr>obs := z\<rparr>) s ys = ring g s ys" for g :: "'a lheap" and z s ys
    by (rule ring_cong) simp_all
  ultimately have "list_ok ?h2 l xs (os @ [ob])" "list_ok ?h2 ?ol (os @ [ob]) []"
    using ok1 assms(1,3,4,5) by (auto simp: list_ok_def after_insert_def)
  moreover have "listObserverAttach h ob l = Some (0, ?h2)"
    using insert_before_eq [OF ok fr] assms(3) by (simp add: listObserverAttach_def)
  ultimately show ?thesis by (intro exI [of _ ?h2]) simp
qed

text \<open>C36. Attaching a new observer to an observed list adds it to the observer list and keeps both lists well formed; detaching it with
  \<open>listObserverDetach\<close> does unlink it, but on the wrong list: the counter of the observed list loses
  one although all its entries are still there (so the list is no longer well formed), the counter
  of the observer list keeps counting the detached observer, and the remaining observers are told
  that an entry left.\<close>

theorem listObserverDetach_miscounts:
  assumes "list_ok h l xs (os @ ob # ps)" "list_ok h (observers h l) (os @ ob # ps) []"
    "allowObservers h l" "obs_list (obs h ob) = l"
  shows "(\<exists>h'. listObserverDetach h ob = Some h' \<and> ring h' (observers h l) (os @ ps) \<and>
      ring h' l xs \<and> numEnts h' l = int (length xs) - 1 \<and> \<not> list_ok h' l xs (os @ ps) \<and>
      numEnts h' (observers h l) = int (length (os @ ps)) + 1 \<and>
      cstate h' = deliver_all h l (leave_event ob) (os @ ps) (cstate h)) \<and>
    (\<forall>new. \<not> allowObservers h (observers h l) \<and> new \<notin> set (NULL # l # xs @ observers h l # os @ ob # ps) \<longrightarrow>
      (\<exists>h'. listObserverAttach h new l = Some (0, h') \<and> list_ok h' l xs ((os @ ob # ps) @ [new]) \<and>
         list_ok h' (observers h l) ((os @ ob # ps) @ [new]) [] \<and> obs_list (obs h' new) = l))"
proof (intro conjI allI impI)
  fix new assume "\<not> allowObservers h (observers h l) \<and> new \<notin> set (NULL # l # xs @ observers h l # os @ ob # ps)"
  then show "\<exists>h'. listObserverAttach h new l = Some (0, h') \<and> list_ok h' l xs ((os @ ob # ps) @ [new]) \<and>
         list_ok h' (observers h l) ((os @ ob # ps) @ [new]) [] \<and> obs_list (obs h' new) = l"
    using attach_observer_ok [OF assms(1-3)] by blast
next
  let ?ol = "observers h l" and ?h1 = "after_remove h l (os @ ps) ob"
  have r: "ring h ?ol (os @ ob # ps)" and rl: "ring h l xs" and n: "numEnts h l = int (length xs)"
    and disj: "set (?ol # os @ ob # ps) \<inter> set (l # xs) = {}"
    using assms(1,3) by (auto simp: list_ok_def)
  have ro: "ring (splice_out h ob) ?ol (os @ ps)" by (rule ring_splice_out [OF r])
  have "ring (splice_out h ob) l xs"
    using ring_neighbours_notin(1) [OF r disj] r disj
      ring_neighbours_notin(2) [of h ?ol "os @ [ob]" ps "set (l # xs)"] ring_split_links [OF r]
    by (intro ring_splice_out_frame [OF rl]) (simp_all del: last.simps)
  moreover have "listRemoveEntry h l ob = Some ?h1"
    using ro assms(3) by (intro remove_linked_entry [OF r]) simp_all
  moreover have "l \<noteq> ?ol" using disj by auto
  moreover have "ring (g\<lparr>obs := z\<rparr>) s ys = ring g s ys" for g :: "'a lheap" and z s ys
    by (rule ring_cong) simp_all
  ultimately show "\<exists>h'. listObserverDetach h ob = Some h' \<and> ring h' (observers h l) (os @ ps) \<and>
      ring h' l xs \<and> numEnts h' l = int (length xs) - 1 \<and> \<not> list_ok h' l xs (os @ ps) \<and>
      numEnts h' (observers h l) = int (length (os @ ps)) + 1 \<and>
      cstate h' = deliver_all h l (leave_event ob) (os @ ps) (cstate h)"
    using assms(2,4) ro n ring_nonnull(1) [OF rl]
    by (auto simp: listObserverDetach_def after_remove_def list_ok_def)
qed

theorem listObserverDetach_miscounts_witness:
  "\<exists>h'. listObserverDetach ex_heap 5 = Some h' \<and> numEnts h' 10 = 1 \<and> ring h' 10 [2, 3] \<and>
     numEnts h' 4 = 1 \<and> ring h' 4 []"
proof -
  have "list_ok ex_heap (observers ex_heap 10) ([] @ 5 # []) []" "allowObservers ex_heap 10"
    "obs_list (obs ex_heap 5) = 10" "observers ex_heap 10 = 4"
    by (simp_all add: ex_heap_def list_ok_def ring_def)
  then show ?thesis
    using conjunct1 [OF listObserverDetach_miscounts [of ex_heap 10 "[2, 3]" "[]" 5 "[]"]] ex_heap_ok by auto
qed

text \<open>\<open>listAllowObservers\<close> makes a list observable with an empty observer list and
  \<open>listObserverAttach\<close> then registers observers at its end, while it refuses a list that does not
  allow them. When memory is exhausted \<open>listAllowObservers\<close> reports failure but has already marked
  the list as observed: the list pointer it left is \<open>NULL\<close>, and every later insertion faults.\<close>

theorem observer_registration:
  assumes "list_ok h l xs []" "\<not> allowObservers h l"
  shows "map_option fst (listObserverAttach h ob l) = Some (-1) \<and>
    (\<forall>ol ps. pool h = ol # ps \<and> ol \<notin> set (NULL # l # xs) \<longrightarrow>
       (\<exists>h'. listAllowObservers h l = (0, h') \<and> allowObservers h' l \<and> list_ok h' l xs [] \<and>
          (ob \<notin> set (NULL # l # ol # xs) \<longrightarrow>
             (\<exists>h''. listObserverAttach h' ob l = Some (0, h'') \<and> list_ok h'' l xs [ob])))) \<and>
    (pool h = [] \<longrightarrow>
       (\<exists>h'. listAllowObservers h l = (-1, h') \<and> allowObservers h' l \<and>
          listInsertEntryBefore h' l p e = None))"
proof (intro conjI allI impI)
  show "map_option fst (listObserverAttach h ob l) = Some (-1)"
    using assms(2) by (simp add: listObserverAttach_def)
next
  fix ol ps
  assume pool: "pool h = ol # ps \<and> ol \<notin> set (NULL # l # xs)"
  define h' where "h' = snd (listAllowObservers h l)"
  have h': "listAllowObservers h l = (0, h')" "allowObservers h' l" "observers h' l = ol"
    "\<not> allowObservers h' ol" "numEnts h' = (numEnts h)(ol := 0)"
    using pool assms(2)
    by (auto simp: h'_def listAllowObservers_def listCreate_def calloc_entry_def Let_def)
  have "ring h' l xs = ring h l xs"
    using pool assms(2)
    by (intro ring_cong) (auto simp: h'_def listAllowObservers_def listCreate_def calloc_entry_def Let_def)
  moreover have "ring h' ol []"
    using pool assms(2)
    by (auto simp: h'_def listAllowObservers_def listCreate_def calloc_entry_def Let_def ring_def)
  ultimately have ok: "list_ok h' l xs []" "list_ok h' ol [] []"
    using assms(1) h' pool by (auto simp: list_ok_def)
  then show "\<exists>h'. listAllowObservers h l = (0, h') \<and> allowObservers h' l \<and> list_ok h' l xs [] \<and>
          (ob \<notin> set (NULL # l # ol # xs) \<longrightarrow>
             (\<exists>h''. listObserverAttach h' ob l = Some (0, h'') \<and> list_ok h'' l xs [ob]))"
    using h' attach_observer_ok [of h' l xs "[]" ob] by auto
next
  assume "pool h = []"
  then show "\<exists>h'. listAllowObservers h l = (-1, h') \<and> allowObservers h' l \<and>
          listInsertEntryBefore h' l p e = None"
    using assms(2)
    by (auto simp: listAllowObservers_def listCreate_def calloc_entry_def Let_def
        listInsertEntryBefore_def notify_if_observed_def LIST_IS_EMPTY_def store_defs
        split: bind_splits)
qed

theorem observer_registration_witness:
  "\<exists>h'. listAllowObservers (ex_heap\<lparr>allowObservers := \<lambda>_. False, observers := \<lambda>_. NULL\<rparr>) 10 = (0, h') \<and>
     (\<exists>h''. listObserverAttach h' 5 10 = Some (0, h'') \<and> list_ok h'' 10 [2, 3] [5])"
proof -
  let ?h = "ex_heap\<lparr>allowObservers := \<lambda>_. False, observers := \<lambda>_. NULL\<rparr>"
  have "list_ok ?h 10 [2, 3] []" "\<not> allowObservers ?h 10"
    "pool ?h = 6 # [7, 8, 9]"
    by (simp_all add: ex_heap_def list_ok_def ring_def)
  then show ?thesis
    using observer_registration [of ?h 10 "[2, 3]" 5] by auto
qed

end
