(* ===== verification/C_Float.thy ===== *)
theory C_Float
  imports Complex_Main "HOL-Library.Log_Nat"
begin

text \<open>
  The binary floating point numbers of C as the rational numbers they denote: rounding to the nearest
  number with a given number of significant bits, ties to the even one (\<open>float\<close> has 24 bits,
  \<open>double\<close> 53). The range of the exponents is not bounded; the programs compute with hours of a day
  and with seconds since 1970, which stay far inside it.
\<close>

definition pow2 :: "int \<Rightarrow> rat" where
  "pow2 k = (if k \<ge> 0 then 2 ^ nat k else 1 / 2 ^ nat (- k))"

definition round_even :: "rat \<Rightarrow> int" where
  "round_even x =
     (let f = \<lfloor>x\<rfloor>; d = x - of_int f
      in if d < 1 / 2 then f else if d > 1 / 2 then f + 1 else if even f then f else f + 1)"

text \<open>The exponent of the leading bit of a positive number.\<close>

definition flog2 :: "rat \<Rightarrow> int" where
  "flog2 x =
     (let (n, d) = quotient_of x;
          k = bitlen n - bitlen d
      in if pow2 k \<le> x then k else k - 1)"

definition rnd :: "nat \<Rightarrow> rat \<Rightarrow> rat" where
  "rnd p x =
     (if x = 0 then 0
      else let u = pow2 (flog2 \<bar>x\<bar> - int p + 1) in of_int (round_even (x / u)) * u)"

abbreviation flt :: "rat \<Rightarrow> rat" where "flt \<equiv> rnd 24"
abbreviation dbl :: "rat \<Rightarrow> rat" where "dbl \<equiv> rnd 53"

subsection \<open>Powers of two\<close>

lemma pow2_pos [simp]: "0 < pow2 k"
  by (simp add: pow2_def)

lemma pow2_powi: "pow2 k = 2 powi k"
  by (cases "k \<ge> 0") (auto simp: pow2_def power_int_def power_one_over inverse_eq_divide)

lemma pow2_add: "pow2 (a + b) = pow2 a * pow2 b"
  by (simp add: pow2_powi power_int_add)

lemma pow2_diff: "pow2 (a - b) = pow2 a / pow2 b"
  by (simp add: pow2_powi power_int_diff)

lemma pow2_nat: "pow2 (int n) = 2 ^ n"
  by (simp add: pow2_def)

lemma pow2_mono: "k \<le> l \<Longrightarrow> pow2 k \<le> pow2 l"
  using pow2_add [of k "l - k"] by (simp add: pow2_def [of "l - k"])

lemma pow2_minus: "pow2 (- int k) = 1 / 2 ^ k"
  by (cases "k = 0") (simp_all add: pow2_def)

lemma round_even_error: "\<bar>of_int (round_even x) - x\<bar> \<le> 1 / 2"
proof -
  define d where "d = x - of_int \<lfloor>x\<rfloor>"
  have d: "0 \<le> d" "d < 1" unfolding d_def by linarith+
  have "of_int (round_even x) - x = (if d < 1 / 2 \<or> d = 1 / 2 \<and> even \<lfloor>x\<rfloor> then - d else 1 - d)"
    by (simp add: round_even_def Let_def d_def)
  then show ?thesis using d by (simp add: abs_if)
qed

lemma floorlog_sandwich:
  assumes "0 < n"
  shows "2 ^ floorlog 2 n \<le> 2 * n" "n < 2 ^ floorlog 2 n"
proof -
  show "n < 2 ^ floorlog 2 n"
    using floorlog_bounds [of n 2] assms by simp
  have "2 ^ (floorlog 2 n - 1) \<le> n" "0 < floorlog 2 n"
    using floorlog_bounds [of n 2] assms by (auto simp: floorlog_def)
  then show "2 ^ floorlog 2 n \<le> 2 * n"
    by (cases "floorlog 2 n") auto
qed

lemma flog2_le:
  assumes "0 < x"
  shows "pow2 (flog2 x) \<le> x"
proof -
  obtain n d where q: "quotient_of x = (n, d)" by (cases "quotient_of x")
  have d: "0 < d" and x: "x = of_int n / of_int d"
    using quotient_of_denom_pos [OF q] quotient_of_div [OF q] by auto
  have n: "0 < n" using assms d x by (simp add: zero_less_divide_iff)
  define a b where "a = floorlog 2 (nat n)" and "b = floorlog 2 (nat d)"
  have "2 ^ a \<le> 2 * nat n" "nat d < 2 ^ b"
    using floorlog_sandwich [of "nat n"] floorlog_sandwich [of "nat d"] n d by (simp_all add: a_def b_def)
  then have "2 ^ a \<le> 2 * n" "d < 2 ^ b"
    using n d by (simp_all add: nat_less_iff zle_int [symmetric])
  then have A: "(2::rat) ^ a \<le> 2 * of_int n" "of_int d < (2::rat) ^ b"
    by (metis of_int_le_iff of_int_mult of_int_numeral of_int_power)
       (metis \<open>d < 2 ^ b\<close> of_int_less_iff of_int_numeral of_int_power)
  have "pow2 (int a - int b - 1) = 2 ^ a / (2 * 2 ^ b)"
    by (simp add: pow2_diff pow2_nat) (simp add: pow2_def)
  also have "\<dots> \<le> of_int n / 2 ^ b"
    using A(1) by (simp add: field_simps)
  also have "\<dots> \<le> x"
    using A(2) d n unfolding x by (intro divide_left_mono) auto
  finally show ?thesis
    by (simp add: flog2_def q a_def b_def bitlen_def Let_def)
qed

text \<open>The relative rounding error.\<close>

lemma rnd_error: "\<bar>rnd p x - x\<bar> \<le> \<bar>x\<bar> / 2 ^ p"
proof (cases "x = 0")
  case False
  define u where "u = pow2 (flog2 \<bar>x\<bar> - int p + 1)"
  have u: "0 < u" by (simp add: u_def)
  have "rnd p x - x = (of_int (round_even (x / u)) - x / u) * u"
    using False u unfolding rnd_def Let_def u_def [symmetric] by (simp add: left_diff_distrib)
  then have "\<bar>rnd p x - x\<bar> = \<bar>of_int (round_even (x / u)) - x / u\<bar> * u"
    using u by (simp add: abs_mult)
  also have "\<dots> \<le> u / 2"
    using round_even_error [of "x / u"] u by (simp add: mult_right_mono [of _ "1/2"])
  also have "u / 2 = pow2 (flog2 \<bar>x\<bar>) / 2 ^ p"
    by (simp add: u_def pow2_add pow2_diff pow2_nat) (simp add: pow2_def)
  also have "\<dots> \<le> \<bar>x\<bar> / 2 ^ p"
    using flog2_le [of "\<bar>x\<bar>"] False by (simp add: divide_right_mono)
  finally show ?thesis .
qed (simp add: rnd_def)

end
