(* ===== verification/Time_Window.thy ===== *)
theory Time_Window
  imports C_Float C_Strings
begin

text \<open>
  Time windows: the parser of window expressions such as \<open>1:20:30-5:8\<close> and the merging of the
  windows of a day (\<open>lsf/intlib/window.c\<close>), and the windows of dependency conditions, which cache
  their status until the next edge (\<open>lsbatch/daemons/mbd.window.c\<close>).

  An hour is the rational number a \<open>float\<close> denotes. The windows of a day are a list, \<open>[]\<close> for
  \<open>NULL\<close>; a week maps the day numbers 1 (Monday) to 7 (Sunday) to lists. The calendar fields that
  \<open>ctime\<close> prints are those of the local clock: \<open>tz t\<close> is its offset from universal time at time \<open>t\<close>.
\<close>

subsection \<open>Windows of a day\<close>

record wind =
  opentime :: rat
  closetime :: rat

type_synonym week = "int \<Rightarrow> wind list"

definition new_wind :: wind where
  "new_wind = \<lparr>opentime = 25, closetime = 25\<rparr>"

definition mergeW :: "wind \<Rightarrow> rat \<Rightarrow> rat \<Rightarrow> bool \<times> wind" where
  "mergeW wp ohour chour =
     (if opentime wp = - 1 \<and> closetime wp = 25 then (True, wp)
      else if ohour = - 1 \<and> chour = 25 then (True, \<lparr>opentime = - 1, closetime = 25\<rparr>)
      else if ohour = 25 \<and> chour = 25 then (True, wp)
      else if ohour \<ge> chour then (True, wp)
      else if opentime wp = 25 \<and> closetime wp = 25 then (True, \<lparr>opentime = ohour, closetime = chour\<rparr>)
      else
        let oh = (if ohour \<le> 0 then - 1 else ohour);
            ch = (if chour \<ge> 24 then 25 else chour)
        in if \<not> opentime wp > ch \<and> \<not> oh > closetime wp
           then (True, \<lparr>opentime = min oh (opentime wp), closetime = max ch (closetime wp)\<rparr>)
           else (False, wp))"

definition set_hours :: "rat \<Rightarrow> rat \<Rightarrow> wind" where
  "set_hours ohour chour =
     (if ohour < chour then new_wind\<lparr>opentime := ohour, closetime := chour\<rparr> else new_wind)"

text \<open>
  A merge re-inserts the windows behind the first into the list of the first alone. The first
  argument bounds the depth of these calls; the length of the list is enough, see
  \<open>insertW_unfold\<close>.
\<close>

fun insert_upto :: "nat \<Rightarrow> wind list \<Rightarrow> rat \<Rightarrow> rat \<Rightarrow> wind list" where
  "insert_upto n [] ohour chour = [set_hours ohour chour]"
| "insert_upto n (w # ws) ohour chour =
     (let ms = map (\<lambda>wp. mergeW wp ohour chour) (w # ws)
      in if list_ex fst ms
         then (case n of
             0 \<Rightarrow> map snd ms
           | Suc m \<Rightarrow> foldl (\<lambda>acc wp. insert_upto m acc (opentime wp) (closetime wp))
                        [snd (hd ms)] (map snd (tl ms)))
         else w # ws @ [set_hours ohour chour])"

definition insertW :: "wind list \<Rightarrow> rat \<Rightarrow> rat \<Rightarrow> wind list" where
  "insertW ws ohour chour = insert_upto (length ws) ws ohour chour"

subsection \<open>Window expressions\<close>

definition strrchr_split :: "char \<Rightarrow> string \<Rightarrow> (string \<times> string) option" where
  "strrchr_split c s =
     (if c \<in> set s
      then Some (rev (tl (dropWhile (\<lambda>x. x \<noteq> c) (rev s))), rev (takeWhile (\<lambda>x. x \<noteq> c) (rev s)))
      else None)"

definition strchr_split :: "char \<Rightarrow> string \<Rightarrow> (string \<times> string) option" where
  "strchr_split c s =
     (if c \<in> set s then Some (takeWhile (\<lambda>x. x \<noteq> c) s, tl (dropWhile (\<lambda>x. x \<noteq> c) s)) else None)"

text \<open>\<open>atof\<close> of a word that \<open>isint_\<close> accepts, stored in a \<open>float\<close>.\<close>

definition atof_int :: "string \<Rightarrow> rat" where
  "atof_int s = flt (of_int (fst (strtol s)))"

definition nonneg_int :: "string \<Rightarrow> bool" where
  "nonneg_int s \<longleftrightarrow> isint s \<and> \<not> atoi s < 0"

text \<open>The float value of \<open>hour + min/60.0\<close>.\<close>

definition hour_min :: "rat \<Rightarrow> rat \<Rightarrow> rat" where
  "hour_min hour mins = flt (dbl (hour + dbl (mins / 60)))"

definition parse_hour :: "string \<Rightarrow> rat option" where
  "parse_hour word =
     (if \<not> nonneg_int word \<or> atof_int word > 23 then None else Some (atof_int word))"

definition parse_time :: "string \<Rightarrow> (rat \<times> int) option" where
  "parse_time word =
     (case strrchr_split (CHR '':'') word of
        None \<Rightarrow> map_option (\<lambda>hour. (hour_min hour 0, 0)) (parse_hour word)
      | Some (word1, sp) \<Rightarrow>
          if \<not> nonneg_int sp \<or> atoi sp > 59 then None
          else (case strrchr_split (CHR '':'') word1 of
              None \<Rightarrow> map_option (\<lambda>hour. (hour_min hour (of_int (atoi sp)), 0)) (parse_hour word1)
            | Some (word2, sp1) \<Rightarrow>
                (case parse_hour sp1 of
                   None \<Rightarrow> None
                 | Some hour \<Rightarrow>
                     if \<not> nonneg_int word2 then None
                     else
                       let day = (if atoi word2 = 0 then 7 else atoi word2)
                       in if day < 1 \<or> day > 7 then None
                          else Some (hour_min hour (of_int (atoi sp)), day))))"

definition insert_day :: "int \<Rightarrow> rat \<Rightarrow> rat \<Rightarrow> week \<Rightarrow> week" where
  "insert_day i ohour chour week = week(i := insertW (week i) ohour chour)"

definition fill_closed :: "week \<Rightarrow> week" where
  "fill_closed = fold (\<lambda>j week. if week j = [] then insert_day j 25 25 week else week) [1..7]"

partial_function (option) span_loop ::
  "int \<Rightarrow> int \<Rightarrow> int \<Rightarrow> rat \<Rightarrow> rat \<Rightarrow> week \<Rightarrow> week option" where
  "span_loop i0 oday cday ohour chour week =
     (let i = (if i0 = 8 then 1 else i0)
      in if i = oday then span_loop (i + 1) oday cday ohour chour (insert_day i ohour 25 week)
         else if i = cday then Some (fill_closed (insert_day i (- 1) chour week))
         else span_loop (i + 1) oday cday ohour chour (insert_day i (- 1) 25 week))"

text \<open>The outcome of \<open>addWindow\<close>: \<open>None\<close> inside for the result \<open>-1\<close>, which leaves the week as it is.\<close>

definition addWindow :: "string \<Rightarrow> week \<Rightarrow> week option option" where
  "addWindow wordpair week =
     (case strchr_split (CHR ''-'') wordpair of
        None \<Rightarrow> Some None
      | Some (oword, cword) \<Rightarrow>
          (case (parse_time cword, parse_time oword) of
             (Some (chour0, cday), Some (ohour0, oday)) \<Rightarrow>
               if \<not> (oday \<noteq> 0 \<and> cday \<noteq> 0) \<and> oday \<noteq> cday then Some None
               else
                 let same = (oday = 0 \<and> cday = 0 \<and> ohour0 = chour0);
                     ohour = (if same then 25 else ohour0);
                     chour = (if same then 25 else chour0)
                 in if oday = 0 then
                      (if ohour > chour
                       then Some (Some (fold (\<lambda>i w. insert_day i (- 1) chour (insert_day i ohour 25 w)) [1..7] week))
                       else Some (Some (fold (\<lambda>i w. insert_day i ohour chour w) [1..7] week)))
                    else if oday = cday then
                      (if ohour > chour then Some None
                       else Some (Some (fill_closed
                              (if ohour = chour then insert_day oday 25 25 week
                               else insert_day oday ohour chour week))))
                    else map_option Some (span_loop oday oday cday ohour chour week)
           | _ \<Rightarrow> Some None))"

subsection \<open>Cached windows\<close>

record timeWindow =
  w_open :: bool
  w_windows :: string
  w_week :: week
  w_windEdge :: c_time

definition newTimeWindow :: timeWindow where
  "newTimeWindow = \<lparr>w_open = True, w_windows = [], w_week = (\<lambda>_. []), w_windEdge = 0\<rparr>"

text \<open>The weekday, hour and minute fields of \<open>ctime\<close>.\<close>

definition ctime_fields :: "(c_time \<Rightarrow> int) \<Rightarrow> c_time \<Rightarrow> string \<times> int \<times> int" where
  "ctime_fields tz t =
     (let s = t + tz t
      in ([''Sun'', ''Mon'', ''Tue'', ''Wed'', ''Thu'', ''Fri'', ''Sat''] ! nat ((s div 86400 + 4) mod 7),
          s mod 86400 div 3600, s mod 3600 div 60))"

definition getDayHour :: "(c_time \<Rightarrow> int) \<Rightarrow> c_time \<Rightarrow> int \<times> rat" where
  "getDayHour tz nowtime =
     (case ctime_fields tz nowtime of (name, hh, mm) \<Rightarrow>
        (if name = ''Sun'' then 7 else if name = ''Mon'' then 1 else if name = ''Tue'' then 2
         else if name = ''Wed'' then 3 else if name = ''Thu'' then 4 else if name = ''Fri'' then 5 else 6,
         hour_min (flt (of_int hh)) (of_int mm)))"

text \<open>A rational number converted to an integer type: truncation towards zero.\<close>

definition to_int :: "rat \<Rightarrow> int" where
  "to_int x = (if x \<ge> 0 then \<lfloor>x\<rfloor> else \<lceil>x\<rceil>)"

text \<open>
  \<open>now + hours * 3600\<close> with \<open>hours\<close> a \<open>float\<close>: the sum is computed in \<open>float\<close> as well, in contrast to
  the sum with the \<open>double\<close> \<open>(24.0 - hour) * 3600.0\<close>.
\<close>

definition float_edge :: "c_time \<Rightarrow> rat \<Rightarrow> c_time" where
  "float_edge now hours = to_int (flt (flt (of_int now) + flt (flt hours * 3600)))"

definition midnight_edge :: "c_time \<Rightarrow> rat \<Rightarrow> c_time" where
  "midnight_edge now hour = to_int (dbl (of_int now + dbl (dbl (24 - hour) * 3600)))"

definition checkWindow :: "rat \<Rightarrow> c_time \<Rightarrow> c_time \<Rightarrow> wind \<Rightarrow> bool \<times> c_time" where
  "checkWindow hour wind_edge now wp =
     (if hour \<ge> opentime wp \<and> hour < closetime wp
      then (True, min (float_edge now (closetime wp - hour)) wind_edge)
      else (False, min (float_edge now (min (opentime wp) 24 - hour)) wind_edge))"

fun check_windows :: "rat \<Rightarrow> c_time \<Rightarrow> c_time \<Rightarrow> wind list \<Rightarrow> bool \<times> c_time" where
  "check_windows hour wind_edge now [] = (False, wind_edge)"
| "check_windows hour wind_edge now (wp # wps) =
     (case checkWindow hour wind_edge now wp of
        (True, e) \<Rightarrow> (True, e)
      | (False, e) \<Rightarrow> check_windows hour e now wps)"

definition updateTimeWindow :: "(c_time \<Rightarrow> int) \<Rightarrow> c_time \<Rightarrow> timeWindow \<Rightarrow> timeWindow" where
  "updateTimeWindow tz now timeW =
     (if w_windEdge timeW > now \<or> w_windEdge timeW = 0 then timeW
      else
        let (day, hour) = getDayHour tz now
        in if w_week timeW day = [] then timeW\<lparr>w_windEdge := midnight_edge now hour\<rparr>
           else
             let (windOpen, edge) = check_windows hour (midnight_edge now hour) now (w_week timeW day)
             in timeW\<lparr>w_open := windOpen, w_windEdge := edge\<rparr>)"

subsection \<open>Inserting a window\<close>

definition covers :: "wind list \<Rightarrow> rat \<Rightarrow> bool" where
  "covers ws h \<longleftrightarrow> (\<exists>w\<in>set ws. opentime w \<le> h \<and> h < closetime w)"

definition wind_ok :: "wind \<Rightarrow> bool" where
  "wind_ok w \<longleftrightarrow> - 1 \<le> opentime w \<and> closetime w \<le> 25 \<and> opentime w < closetime w \<or> w = new_wind"

lemma covers_simps [simp]:
  "\<not> covers [] h" "covers (w # ws) h \<longleftrightarrow> opentime w \<le> h \<and> h < closetime w \<or> covers ws h"
  "covers (xs @ ys) h \<longleftrightarrow> covers xs h \<or> covers ys h"
  by (auto simp: covers_def)

lemma set_hours_simps [simp]:
  "opentime (set_hours a b) \<le> h \<and> h < closetime (set_hours a b) \<longleftrightarrow> a \<le> h \<and> h < b"
  by (auto simp: set_hours_def new_wind_def)

lemma mergeW_cases:
  fixes w a b
  defines "oh \<equiv> (if a \<le> 0 then - 1 else a)" and "ch \<equiv> (if b \<ge> 24 then 25 else b)"
  obtains (full) "mergeW w a b = (True, w)" "opentime w = - 1" "closetime w = 25"
    | (fill) "mergeW w a b = (True, \<lparr>opentime = - 1, closetime = 25\<rparr>)" "a = - 1" "b = 25"
    | (void) "mergeW w a b = (True, w)" "a \<ge> b"
    | (first) "mergeW w a b = (True, \<lparr>opentime = a, closetime = b\<rparr>)" "a < b" "opentime w = 25" "closetime w = 25"
    | (joined) "mergeW w a b = (True, \<lparr>opentime = min oh (opentime w), closetime = max ch (closetime w)\<rparr>)"
        "a < b" "opentime w \<le> ch" "oh \<le> closetime w" "\<not> (opentime w = 25 \<and> closetime w = 25)"
    | (apart) "mergeW w a b = (False, w)" "a < b"
proof -
  have e: "mergeW w a b =
      (if opentime w = - 1 \<and> closetime w = 25 then (True, w)
       else if a = - 1 \<and> b = 25 then (True, \<lparr>opentime = - 1, closetime = 25\<rparr>)
       else if a = 25 \<and> b = 25 then (True, w)
       else if a \<ge> b then (True, w)
       else if opentime w = 25 \<and> closetime w = 25 then (True, \<lparr>opentime = a, closetime = b\<rparr>)
       else if opentime w \<le> ch \<and> oh \<le> closetime w
         then (True, \<lparr>opentime = min oh (opentime w), closetime = max ch (closetime w)\<rparr>)
       else (False, w))"
    unfolding mergeW_def Let_def oh_def ch_def not_less ..
  consider "opentime w = - 1 \<and> closetime w = 25"
    | "\<not> (opentime w = - 1 \<and> closetime w = 25)" "a = - 1 \<and> b = 25"
    | "\<not> (opentime w = - 1 \<and> closetime w = 25)" "\<not> (a = - 1 \<and> b = 25)" "a \<ge> b"
    | "\<not> (opentime w = - 1 \<and> closetime w = 25)" "\<not> (a = - 1 \<and> b = 25)" "\<not> a \<ge> b"
    by blast
  then show thesis
  proof cases
    case 4
    then have "\<not> (a = 25 \<and> b = 25)" by auto
    with 4 show thesis using that(4-6) e by (simp only: if_False if_True simp_thms not_le split: if_splits)
  qed (use that(1-3) e in \<open>auto split: if_splits\<close>)
qed

definition hours_ok :: "rat \<Rightarrow> rat \<Rightarrow> bool" where
  "hours_ok a b \<longleftrightarrow> - 1 \<le> a \<and> a \<le> 25 \<and> b \<le> 25"

lemma mergeW_ok:
  assumes "wind_ok w" "hours_ok a b"
  shows "wind_ok (snd (mergeW w a b))"
proof (cases rule: mergeW_cases [of w a b])
  case joined
  have "(if a \<le> 0 then - 1 else a) < (if b \<ge> 24 then 25 else b)"
    using joined(2) assms(2) by (auto simp: hours_ok_def)
  moreover have "- 1 \<le> (if a \<le> 0 then - 1 else a)" "(if b \<ge> 24 then 25 else b) \<le> 25" by auto
  ultimately show ?thesis using joined(1) assms(1) by (auto simp: wind_ok_def new_wind_def min_def max_def)
qed (use assms in \<open>simp_all add: wind_ok_def hours_ok_def\<close>)

lemma mergeW_covers:
  assumes "wind_ok w" "0 \<le> h" "h < 24"
  shows "opentime (snd (mergeW w a b)) \<le> h \<and> h < closetime (snd (mergeW w a b)) \<longleftrightarrow>
    opentime w \<le> h \<and> h < closetime w \<or> fst (mergeW w a b) \<and> a \<le> h \<and> h < b"
proof (cases rule: mergeW_cases [of w a b])
  case joined
  have w: "opentime w < closetime w" using assms(1) joined(5) by (auto simp: wind_ok_def new_wind_def)
  define oh ch where "oh = (if a \<le> 0 then - 1 else a)" and "ch = (if b \<ge> 24 then 25 else b)"
  have "a \<le> h \<longleftrightarrow> oh \<le> h" "h < b \<longleftrightarrow> h < ch" using assms(2,3) by (auto simp: oh_def ch_def)
  then show ?thesis
    using joined w unfolding oh_def [symmetric] ch_def [symmetric] by (auto simp: min_le_iff_disj less_max_iff_disj)
qed (use assms in auto)

lemma insert_upto_Cons:
  "insert_upto n (w # ws) a b =
     (if list_ex (\<lambda>v. fst (mergeW v a b)) (w # ws)
      then (case n of
          0 \<Rightarrow> map (\<lambda>v. snd (mergeW v a b)) (w # ws)
        | Suc m \<Rightarrow> foldl (\<lambda>acc wp. insert_upto m acc (opentime wp) (closetime wp))
                     [snd (mergeW w a b)] (map (\<lambda>v. snd (mergeW v a b)) ws))
      else w # ws @ [set_hours a b])"
  by (simp add: Let_def list_ex_iff comp_def cong: nat.case_cong)

lemmas insert_upto_simps = insert_upto.simps(1) insert_upto_Cons

declare insert_upto.simps [simp del]

lemma foldl_length_le:
  assumes "\<And>acc v. length (f acc v) \<le> Suc (length acc)"
  shows "length (foldl f acc vs) \<le> length acc + length vs"
proof (induction vs arbitrary: acc)
  case (Cons v vs)
  show ?case using Cons [of "f acc v"] assms [of acc v] by simp
qed simp

lemma insert_upto_length: "length (insert_upto n ws a b) \<le> Suc (length ws)"
proof (induction n arbitrary: ws a b)
  case 0
  then show ?case by (cases ws) (simp_all add: insert_upto_simps)
next
  case (Suc m)
  show ?case
  proof (cases ws)
    case (Cons v vs)
    then show ?thesis
      using foldl_length_le [of "\<lambda>acc wp. insert_upto m acc (opentime wp) (closetime wp)", OF Suc,
          of "[snd (mergeW v a b)]" "map (\<lambda>v. snd (mergeW v a b)) vs"]
      by (simp add: insert_upto_simps)
  qed (simp add: insert_upto_simps)
qed

lemma foldl_fuel:
  assumes "\<And>acc v. length acc \<le> k \<Longrightarrow> f acc v = g acc v" "\<And>acc v. length (f acc v) \<le> Suc (length acc)"
    "length acc + length vs \<le> Suc k"
  shows "foldl f acc vs = foldl g acc vs"
  using assms(3)
proof (induction vs arbitrary: acc)
  case (Cons v vs)
  have "length (f acc v) + length vs \<le> Suc k" using Cons.prems assms(2) [of acc v] by simp
  moreover have "f acc v = g acc v" using Cons.prems assms(1) by simp
  ultimately show ?case using Cons.IH [of "f acc v"] by simp
qed simp

lemma insert_upto_fuel:
  "\<lbrakk>length ws \<le> n; length ws \<le> m\<rbrakk> \<Longrightarrow> insert_upto n ws a b = insert_upto m ws a b"
proof (induction n arbitrary: m ws a b)
  case 0
  then show ?case by (simp add: insert_upto_simps)
next
  case (Suc n)
  show ?case
  proof (cases ws)
    case (Cons v vs)
    then obtain m' where m: "m = Suc m'" using Suc.prems by (cases m) auto
    have "foldl (\<lambda>acc wp. insert_upto n acc (opentime wp) (closetime wp)) [x] (map g vs) =
        foldl (\<lambda>acc wp. insert_upto m' acc (opentime wp) (closetime wp)) [x] (map g vs)" for x and g :: "wind \<Rightarrow> wind"
    proof (rule foldl_fuel [where k = "length vs"])
      show "insert_upto n acc (opentime u) (closetime u) = insert_upto m' acc (opentime u) (closetime u)"
        if "length acc \<le> length vs" for acc u
        by (rule Suc.IH) (use that Suc.prems Cons m in simp_all)
    qed (simp_all add: insert_upto_length)
    then show ?thesis using Cons m by (simp add: insert_upto_simps)
  qed (simp add: insert_upto_simps)
qed

text \<open>The recursion of the C function.\<close>

lemma insertW_unfold:
  "insertW [] a b = [set_hours a b]"
  "insertW (w # ws) a b =
     (if list_ex (\<lambda>v. fst (mergeW v a b)) (w # ws)
      then foldl (\<lambda>acc wp. insertW acc (opentime wp) (closetime wp))
             [snd (mergeW w a b)] (map (\<lambda>v. snd (mergeW v a b)) ws)
      else w # ws @ [set_hours a b])"
proof -
  show "insertW [] a b = [set_hours a b]" by (simp add: insertW_def insert_upto_simps)
  have "foldl (\<lambda>acc wp. insert_upto (length ws) acc (opentime wp) (closetime wp)) [x] (map g ws) =
      foldl (\<lambda>acc wp. insertW acc (opentime wp) (closetime wp)) [x] (map g ws)" for x and g :: "wind \<Rightarrow> wind"
  proof (rule foldl_fuel [where k = "length ws"])
    show "insert_upto (length ws) acc (opentime u) (closetime u) = insertW acc (opentime u) (closetime u)"
      if "length acc \<le> length ws" for acc u
      unfolding insertW_def by (rule insert_upto_fuel) (use that in simp_all)
  qed (simp_all add: insert_upto_length)
  then show "insertW (w # ws) a b =
     (if list_ex (\<lambda>v. fst (mergeW v a b)) (w # ws)
      then foldl (\<lambda>acc wp. insertW acc (opentime wp) (closetime wp))
             [snd (mergeW w a b)] (map (\<lambda>v. snd (mergeW v a b)) ws)
      else w # ws @ [set_hours a b])"
    by (simp add: insertW_def insert_upto_simps)
qed

lemma merged_covers:
  assumes "list_all wind_ok ws" "list_ex (\<lambda>v. fst (mergeW v a b)) ws" "0 \<le> h" "h < 24"
  shows "covers (map (\<lambda>v. snd (mergeW v a b)) ws) h \<longleftrightarrow> covers ws h \<or> a \<le> h \<and> h < b"
proof -
  have "covers (map (\<lambda>v. snd (mergeW v a b)) ws) h \<longleftrightarrow>
      covers ws h \<or> list_ex (\<lambda>v. fst (mergeW v a b)) ws \<and> a \<le> h \<and> h < b"
    using assms(1)
  proof (induction ws)
    case (Cons w ws)
    then show ?case using mergeW_covers [OF _ assms(3,4), of w a b] by (auto simp del: fst_conv)
  qed simp
  with assms(2) show ?thesis by simp
qed

lemma wind_ok_hours: "wind_ok w \<Longrightarrow> hours_ok (opentime w) (closetime w)"
  by (auto simp: wind_ok_def hours_ok_def new_wind_def)

lemma set_hours_ok: "hours_ok a b \<Longrightarrow> wind_ok (set_hours a b)"
  by (auto simp: wind_ok_def hours_ok_def set_hours_def new_wind_def)

definition inserted :: "wind list \<Rightarrow> rat \<Rightarrow> rat \<Rightarrow> wind list \<Rightarrow> bool" where
  "inserted ws a b ws' \<longleftrightarrow> ws' \<noteq> [] \<and> list_all wind_ok ws' \<and>
     (\<forall>h. 0 \<le> h \<and> h < 24 \<longrightarrow> covers ws' h \<longleftrightarrow> covers ws h \<or> a \<le> h \<and> h < b)"

lemma foldl_inserted:
  assumes f: "\<And>acc v. list_all wind_ok acc \<Longrightarrow> wind_ok v \<Longrightarrow> inserted acc (opentime v) (closetime v) (f acc v)"
    and "acc \<noteq> []" "list_all wind_ok acc" "list_all wind_ok vs"
  shows "foldl f acc vs \<noteq> [] \<and> list_all wind_ok (foldl f acc vs) \<and>
    (\<forall>h. 0 \<le> h \<and> h < 24 \<longrightarrow> covers (foldl f acc vs) h \<longleftrightarrow> covers acc h \<or> covers vs h)"
  using assms(2-4)
proof (induction vs arbitrary: acc)
  case (Cons v vs)
  then show ?case using Cons.IH [of "f acc v"] f [of acc v] by (auto simp: inserted_def)
qed simp

lemma insert_upto_inserted:
  "\<lbrakk>list_all wind_ok ws; hours_ok a b\<rbrakk> \<Longrightarrow> inserted ws a b (insert_upto n ws a b)"
proof (induction n arbitrary: ws a b)
  case 0
  show ?case
  proof (cases ws)
    case (Cons w vs)
    then have "list_all wind_ok (map (\<lambda>v. snd (mergeW v a b)) ws)"
      using 0 mergeW_ok by (auto simp: list_all_iff)
    then show ?thesis
      using 0 Cons merged_covers [OF 0(1), of a b]
      by (auto simp: inserted_def insert_upto_simps set_hours_ok list_all_iff simp del: list.map)
  qed (use 0 in \<open>simp add: inserted_def insert_upto_simps set_hours_ok\<close>)
next
  case (Suc n)
  show ?case
  proof (cases "list_ex (\<lambda>v. fst (mergeW v a b)) ws")
    case True
    then obtain w vs where ws: "ws = w # vs" by (cases ws) auto
    let ?m = "\<lambda>v. snd (mergeW v a b)"
    have ok: "list_all wind_ok [?m w]" "list_all wind_ok (map ?m vs)"
      using Suc.prems mergeW_ok ws by (auto simp: list_all_iff)
    show ?thesis
      using foldl_inserted [of "\<lambda>acc wp. insert_upto n acc (opentime wp) (closetime wp)" "[?m w]" "map ?m vs",
          OF Suc.IH _ ok] wind_ok_hours merged_covers [OF Suc.prems(1) True] True ws
      by (auto simp: inserted_def insert_upto_simps)
  next
    case False
    then show ?thesis
      using Suc.prems by (cases ws) (auto simp: inserted_def insert_upto_simps set_hours_ok)
  qed
qed

lemma insertW_inserted: "\<lbrakk>list_all wind_ok ws; hours_ok a b\<rbrakk> \<Longrightarrow> inserted ws a b (insertW ws a b)"
  by (simp add: insertW_def insert_upto_inserted)

subsection \<open>Weeks\<close>

definition week_ok :: "week \<Rightarrow> bool" where
  "week_ok week \<longleftrightarrow> (\<forall>d. list_all wind_ok (week d))"

text \<open>
  \<open>extends D P week week'\<close>: on the days of \<open>D\<close> the week has become defined, and the hours for which
  \<open>P\<close> holds have been opened.
\<close>

definition extends :: "int set \<Rightarrow> (int \<Rightarrow> rat \<Rightarrow> bool) \<Rightarrow> week \<Rightarrow> week \<Rightarrow> bool" where
  "extends D P week week' \<longleftrightarrow> week_ok week' \<and> (\<forall>d. week' d \<noteq> [] \<longleftrightarrow> d \<in> D \<or> week d \<noteq> []) \<and>
     (\<forall>d h. 0 \<le> h \<and> h < 24 \<longrightarrow> covers (week' d) h \<longleftrightarrow> covers (week d) h \<or> P d h)"

lemma extends_trans:
  assumes "extends D P w w'" "extends E Q w' w''" "F = D \<union> E" "R = (\<lambda>d h. P d h \<or> Q d h)"
  shows "extends F R w w''"
proof -
  have "\<And>d. w'' d \<noteq> [] \<longleftrightarrow> d \<in> F \<or> w d \<noteq> []" using assms unfolding extends_def by blast
  then show ?thesis using assms by (simp add: extends_def)
qed

lemma extends_cong:
  "\<lbrakk>extends D P w w'; D = D'; \<And>d h. \<lbrakk>0 \<le> h; h < 24\<rbrakk> \<Longrightarrow> P d h = Q d h\<rbrakk> \<Longrightarrow> extends D' Q w w'"
  by (simp add: extends_def)

lemma insert_day_extends:
  assumes "week_ok week" "hours_ok a b"
  shows "extends {i} (\<lambda>d h. d = i \<and> a \<le> h \<and> h < b) week (insert_day i a b week)"
  using assms insertW_inserted [of "week i" a b]
  by (auto simp: extends_def insert_day_def inserted_def week_ok_def)

lemma fold_extends:
  assumes f: "\<And>i w. week_ok w \<Longrightarrow> extends {i} (\<lambda>d h. d = i \<and> P h) w (f i w)" and "week_ok week"
  shows "extends (set ds) (\<lambda>d h. d \<in> set ds \<and> P h) week (fold f ds week)"
  using assms(2)
proof (induction ds arbitrary: week)
  case Nil
  then show ?case by (simp add: extends_def)
next
  case (Cons i ds)
  have 1: "extends {i} (\<lambda>d h. d = i \<and> P h) week (f i week)"
    using f Cons.prems by blast
  then have "week_ok (f i week)" by (simp add: extends_def)
  note 2 = extends_trans [OF 1 Cons.IH [OF this] refl refl]
  show ?case using extends_cong [OF 2, of "set (i # ds)" "\<lambda>d h. d \<in> set (i # ds) \<and> P h"] by auto
qed

lemma hours_ok_25 [simp]: "hours_ok 25 25" "hours_ok (- 1) 25"
  by (simp_all add: hours_ok_def)

lemma fill_extends:
  assumes "week_ok week"
  shows "extends (set ds) (\<lambda>d h. False) week
    (fold (\<lambda>j week. if week j = [] then insert_day j 25 25 week else week) ds week)"
  using assms
proof (induction ds arbitrary: week)
  case Nil
  then show ?case by (simp add: extends_def)
next
  case (Cons i ds)
  let ?w = "if week i = [] then insert_day i 25 25 week else week"
  have 1: "extends {i} (\<lambda>d h. False) week ?w"
    using insert_day_extends [OF Cons.prems, of 25 25 i] Cons.prems
    by (auto simp: extends_def)
  then have "week_ok ?w" by (simp add: extends_def)
  from extends_trans [OF 1 Cons.IH [OF this] refl refl] show ?case by (simp del: if_split)
qed

lemma fill_closed_extends: "week_ok week \<Longrightarrow> extends {1..7} (\<lambda>d h. False) week (fill_closed week)"
  using fill_extends [of week "[1..7]"] by (simp add: fill_closed_def)

lemma mod7_pred: "(a - 1) mod 7 = (if a mod 7 = 0 then 6 else a mod 7 - 1)" for a :: int
proof -
  have "(a - 1) mod 7 = (a mod 7 - 1) mod 7" by (simp add: mod_diff_left_eq)
  moreover have "0 \<le> a mod 7" "a mod 7 < 7" by simp_all
  ultimately show ?thesis by (cases "a mod 7 = 0") simp_all
qed

lemma mod7_zero:
  assumes "- 7 < a" "a < 7"
  shows "a mod 7 = 0 \<longleftrightarrow> a = (0::int)"
  using dvd_imp_le_int [of a 7] assms by (auto simp: dvd_eq_mod_eq_0 [symmetric])

text \<open>The days of the span after its first day, counted modulo 7.\<close>

lemma span_loop_rest:
  assumes "1 \<le> cday" "cday \<le> 7" "1 \<le> oday" "oday \<le> 7" "chour \<le> 25"
  shows "\<lbrakk>1 \<le> i; i \<le> 8; nat ((cday - i) mod 7) = n; int n < (cday - oday) mod 7; week_ok week\<rbrakk> \<Longrightarrow>
    \<exists>week'. span_loop i oday cday ohour chour week = Some week' \<and>
      extends {1..7} (\<lambda>d h. d \<in> {1..7} \<and> (d - i) mod 7 < int n \<or> d = cday \<and> h < chour) week week'"
proof (induction n arbitrary: i week)
  case 0
  let ?i = "if i = 8 then 1 else i"
  have "(cday - ?i) mod 7 = 0" using 0(3) mod_diff_cong [of cday 7 cday ?i i] by auto
  then have i: "?i = cday" using 0(1,2) assms(1,2) mod7_zero [of "cday - ?i"] by simp
  have "cday \<noteq> oday" using 0(4) by auto
  then have "span_loop i oday cday ohour chour week = Some (fill_closed (insert_day cday (- 1) chour week))"
    using i by (subst span_loop.simps) (simp only: Let_def if_False if_True simp_thms)
  moreover have "extends {cday} (\<lambda>d h. d = cday \<and> - 1 \<le> h \<and> h < chour) week (insert_day cday (- 1) chour week)"
    using insert_day_extends 0 assms(5) by (simp add: hours_ok_def)
  moreover have "extends {1..7} (\<lambda>d h. False) (insert_day cday (- 1) chour week)
      (fill_closed (insert_day cday (- 1) chour week))"
    using calculation(2) fill_closed_extends by (simp add: extends_def)
  ultimately show ?case
    using assms by (auto simp: extends_def)
next
  case (Suc n)
  define j where "j = (if i = 8 then 1 else i)"
  have j: "1 \<le> j" "j \<le> 7" "j mod 7 = i mod 7" using Suc.prems by (auto simp: j_def)
  have m: "(cday - j) mod 7 = int n + 1" using Suc.prems(3) j(3) by (simp add: mod_diff_cong [of cday 7 cday j i])
  have "(cday - (j + 1)) mod 7 = int n" using m mod7_pred [of "cday - j"] by (simp add: algebra_simps)
  then have n: "nat ((cday - (j + 1)) mod 7) = n" "j \<noteq> cday" "j \<noteq> oday"
    using m Suc.prems(4) by auto
  let ?w = "insert_day j (- 1) 25 week"
  have w: "extends {j} (\<lambda>d h. d = j \<and> - 1 \<le> h \<and> h < 25) week ?w"
    using insert_day_extends Suc.prems by simp
  then have "week_ok ?w" by (simp add: extends_def)
  then obtain week' where week': "span_loop (j + 1) oday cday ohour chour ?w = Some week'"
    "extends {1..7} (\<lambda>d h. d \<in> {1..7} \<and> (d - (j + 1)) mod 7 < int n \<or> d = cday \<and> h < chour) ?w week'"
    using Suc.IH [of "j + 1" ?w] n(1) Suc.prems(4) j by auto
  have run: "span_loop i oday cday ohour chour week = Some week'"
    using n week'(1) unfolding span_loop.simps [of i] j_def [symmetric] Let_def by simp
  have days: "\<And>d. d \<in> {1..7} \<and> (d - i) mod 7 < int (Suc n) \<longleftrightarrow>
      d = j \<or> d \<in> {1..7} \<and> (d - (j + 1)) mod 7 < int n"
  proof -
    fix d
    have "(d - i) mod 7 = (d - j) mod 7" using mod_diff_cong [OF refl j(3), of d] by simp
    moreover have "(d - (j + 1)) mod 7 = (if (d - j) mod 7 = 0 then 6 else (d - j) mod 7 - 1)"
      using mod7_pred [of "d - j"] by (simp add: algebra_simps)
    moreover have "\<lbrakk>1 \<le> d; d \<le> 7\<rbrakk> \<Longrightarrow> (d - j) mod 7 = 0 \<longleftrightarrow> d = j"
      using j(1,2) mod7_zero [of "d - j"] by simp
    moreover have "int n < 6" using m pos_mod_bound [of 7 "cday - j"] by linarith
    ultimately show "d \<in> {1..7} \<and> (d - i) mod 7 < int (Suc n) \<longleftrightarrow>
        d = j \<or> d \<in> {1..7} \<and> (d - (j + 1)) mod 7 < int n"
      using j(1,2) by (cases "d = j") auto
  qed
  have "extends {1..7} (\<lambda>d h. d \<in> {1..7} \<and> (d - i) mod 7 < int (Suc n) \<or> d = cday \<and> h < chour) week week'"
  proof (rule extends_cong [OF extends_trans [OF w week'(2) refl refl]])
    show "{j} \<union> {1..7} = {1..7}" using j(1,2) by auto
    fix d and h :: rat
    assume "0 \<le> h" "h < 24"
    then have "- 1 \<le> h" "h < 25" by simp_all
    then show "(d = j \<and> - 1 \<le> h \<and> h < 25 \<or> d \<in> {1..7} \<and> (d - (j + 1)) mod 7 < int n \<or> d = cday \<and> h < chour) =
        (d \<in> {1..7} \<and> (d - i) mod 7 < int (Suc n) \<or> d = cday \<and> h < chour)"
      unfolding days by argo
  qed
  with run show ?case by blast
qed

subsection \<open>Parsing\<close>

lemma digits_val_nonneg: "\<forall>c\<in>set ds. isdigit c \<Longrightarrow> 0 \<le> digits_val ds"
proof (induction ds rule: rev_induct)
  case (snoc c ds)
  have "0 \<le> digit_val c" using snoc.prems by (simp add: isdigit_def digit_val_def)
  then show ?case using snoc by (simp add: digits_val_snoc)
qed (simp add: digits_val_def)

lemma strtol_nonneg:
  assumes "CHR ''-'' \<notin> set s"
  shows "0 \<le> fst (strtol s)"
proof -
  have "dropWhile isspace s \<noteq> [] \<Longrightarrow> hd (dropWhile isspace s) \<noteq> CHR ''-''"
    using assms by (metis hd_in_set set_dropWhileD)
  moreover have "0 \<le> clamp_long (digits_val (takeWhile isdigit t))" for t
  proof -
    have "0 \<le> digits_val (takeWhile isdigit t)" by (rule digits_val_nonneg) (metis set_takeWhileD)
    then show ?thesis unfolding clamp_long_def by linarith
  qed
  ultimately show ?thesis by (auto simp: strtol_def Let_def)
qed

lemma rnd_nonneg: "0 \<le> x \<Longrightarrow> 0 \<le> rnd p x"
proof -
  assume x: "0 \<le> x"
  have "x / 2 ^ p \<le> x" using x by (simp add: divide_le_eq mult_le_cancel_left1)
  then show ?thesis using rnd_error [of p x] x by linarith
qed

lemma rnd_le:
  assumes "0 \<le> x" "x \<le> b"
  shows "rnd p x \<le> b + b / 2 ^ p"
proof -
  have "rnd p x \<le> x + x / 2 ^ p" using rnd_error [of p x] assms(1) by linarith
  also have "\<dots> \<le> b + b / 2 ^ p" using assms(2) by (intro add_mono divide_right_mono) simp_all
  finally show ?thesis .
qed

lemma rnd_nonpos: "x \<le> 0 \<Longrightarrow> rnd p x \<le> 0"
proof -
  assume x: "x \<le> 0"
  have "\<bar>x\<bar> / 2 ^ p \<le> \<bar>x\<bar>" by (simp add: divide_le_eq mult_le_cancel_left1)
  then show ?thesis using rnd_error [of p x] x by linarith
qed

lemma hour_min_range:
  assumes "0 \<le> m" "m \<le> 59"
  shows "hour \<le> 23 \<Longrightarrow> hour_min hour m < 24" "0 \<le> hour \<Longrightarrow> 0 \<le> hour_min hour m"
proof -
  have y: "0 \<le> dbl (m / 60)" "dbl (m / 60) \<le> 0.984"
    using rnd_nonneg [of "m / 60" 53] rnd_le [of "m / 60" "59 / 60" 53] assms by simp_all
  show "0 \<le> hour \<Longrightarrow> 0 \<le> hour_min hour m"
    unfolding hour_min_def using y(1) by (intro rnd_nonneg) simp
  assume h: "hour \<le> 23"
  let ?x = "hour + dbl (m / 60)"
  show "hour_min hour m < 24"
  proof (cases "0 \<le> ?x")
    case True
    have "?x \<le> 23.984" using y(2) h by simp
    then have "dbl ?x \<le> 23.985" using rnd_le [OF True, of "23.984" 53] by simp
    then have "flt (dbl ?x) \<le> 23.986" using rnd_le [OF rnd_nonneg [OF True], of 53 "23.985" 24] by simp
    then show ?thesis by (simp add: hour_min_def)
  next
    case False
    then have "flt (dbl ?x) \<le> 0" by (intro rnd_nonpos) simp
    then show ?thesis by (simp add: hour_min_def)
  qed
qed

lemma parse_hour_range:
  assumes "parse_hour w = Some h"
  shows "h \<le> 23" "CHR ''-'' \<notin> set w \<Longrightarrow> 0 \<le> h"
  using assms strtol_nonneg [of w] rnd_nonneg
  by (auto simp: parse_hour_def atof_int_def split: if_splits)

lemma strrchr_split_set:
  assumes "strrchr_split c s = Some (a, b)"
  shows "set a \<subseteq> set s \<and> set b \<subseteq> set s"
proof -
  have "a = rev (tl (dropWhile (\<lambda>x. x \<noteq> c) (rev s)))" "b = rev (takeWhile (\<lambda>x. x \<noteq> c) (rev s))"
    using assms by (auto simp: strrchr_split_def split: if_splits)
  moreover have "set (tl (dropWhile (\<lambda>x. x \<noteq> c) (rev s))) \<subseteq> set s"
  proof
    fix x
    assume "x \<in> set (tl (dropWhile (\<lambda>x. x \<noteq> c) (rev s)))"
    moreover have "x \<in> set (tl xs) \<Longrightarrow> x \<in> set xs" for xs by (cases xs) auto
    ultimately have "x \<in> set (dropWhile (\<lambda>x. x \<noteq> c) (rev s))" by blast
    then show "x \<in> set s" using set_dropWhileD by fastforce
  qed
  moreover have "set (takeWhile (\<lambda>x. x \<noteq> c) (rev s)) \<subseteq> set s"
    by (auto dest: set_takeWhileD)
  ultimately show ?thesis by simp
qed

lemma hour_min_parsed:
  assumes "parse_hour w = Some h" "nonneg_int sp" "\<not> 59 < atoi sp"
  shows "hour_min h (of_int (atoi sp)) < 24" "CHR ''-'' \<notin> set w \<Longrightarrow> 0 \<le> hour_min h (of_int (atoi sp))"
  using hour_min_range [of "of_int (atoi sp)" h] parse_hour_range [OF assms(1)] assms(2,3)
  by (simp_all add: nonneg_int_def)

lemma parse_time_range:
  assumes "parse_time w = Some (h, d)"
  shows "h < 24 \<and> 0 \<le> d \<and> d \<le> 7 \<and> (CHR ''-'' \<notin> set w \<longrightarrow> 0 \<le> h)"
proof (cases "strrchr_split (CHR '':'') w")
  case None
  then obtain z where "parse_hour w = Some z" "h = hour_min z 0" "d = 0"
    using assms by (auto simp: parse_time_def)
  then show ?thesis using parse_hour_range [of w z] hour_min_range [of 0 z] by auto
next
  case (Some p)
  then obtain w1 sp where w1: "strrchr_split (CHR '':'') w = Some (w1, sp)" by (cases p) auto
  have sp: "nonneg_int sp" "\<not> 59 < atoi sp" using assms w1 by (auto simp: parse_time_def split: if_splits)
  show ?thesis
  proof (cases "strrchr_split (CHR '':'') w1")
    case None
    then obtain z where "parse_hour w1 = Some z" "h = hour_min z (of_int (atoi sp))" "d = 0"
      using assms w1 sp by (auto simp: parse_time_def)
    then show ?thesis using hour_min_parsed [OF _ sp, of w1 z] strrchr_split_set [OF w1] by auto
  next
    case (Some q)
    then obtain w2 sp1 where w2: "strrchr_split (CHR '':'') w1 = Some (w2, sp1)" by (cases q) auto
    then obtain z where "parse_hour sp1 = Some z" "h = hour_min z (of_int (atoi sp))" "1 \<le> d" "d \<le> 7"
      using assms w1 sp by (auto simp: parse_time_def Let_def split: option.splits if_splits)
    then show ?thesis
      using hour_min_parsed [OF _ sp, of sp1 z] strrchr_split_set [OF w1] strrchr_split_set [OF w2] by auto
  qed
qed

subsection \<open>Adding a window expression\<close>

text \<open>The hours a window from \<open>oday:ohour\<close> to \<open>cday:chour\<close> opens; day 0 stands for every day.\<close>

definition in_window :: "int \<Rightarrow> rat \<Rightarrow> int \<Rightarrow> rat \<Rightarrow> int \<Rightarrow> rat \<Rightarrow> bool" where
  "in_window oday ohour cday chour d h \<longleftrightarrow> d \<in> {1..7} \<and>
     (if oday = 0 then (if ohour \<le> chour then ohour \<le> h \<and> h < chour else ohour \<le> h \<or> h < chour)
      else if oday = cday then d = oday \<and> ohour \<le> h \<and> h < chour
      else d = oday \<and> ohour \<le> h \<or> d = cday \<and> h < chour \<or>
        0 < (d - oday) mod 7 \<and> (d - oday) mod 7 < (cday - oday) mod 7)"

definition ambiguous :: "int \<Rightarrow> rat \<Rightarrow> int \<Rightarrow> rat \<Rightarrow> bool" where
  "ambiguous oday ohour cday chour \<longleftrightarrow>
     (oday = 0 \<or> cday = 0) \<and> oday \<noteq> cday \<or> oday \<noteq> 0 \<and> oday = cday \<and> ohour > chour"

lemma daily_extends:
  assumes "week_ok week" "0 \<le> ohour" "ohour < 24" "chour < 24"
  shows "ohour > chour \<Longrightarrow> extends {1..7} (in_window 0 ohour 0 chour) week
      (fold (\<lambda>i w. insert_day i (- 1) chour (insert_day i ohour 25 w)) [1..7] week)"
    and "ohour < chour \<Longrightarrow> extends {1..7} (in_window 0 ohour 0 chour) week
      (fold (\<lambda>i w. insert_day i ohour chour w) [1..7] week)"
    and "extends {1..7} (in_window 0 ohour 0 ohour) week (fold (\<lambda>i w. insert_day i 25 25 w) [1..7] week)"
proof -
  have ok: "hours_ok ohour 25" "hours_ok (- 1) chour" "hours_ok ohour chour"
    using assms by (simp_all add: hours_ok_def)
  have two: "extends {i} (\<lambda>d h. d = i \<and> (ohour \<le> h \<or> h < chour)) w
      (insert_day i (- 1) chour (insert_day i ohour 25 w))" if "week_ok w" for i w
  proof -
    have 1: "extends {i} (\<lambda>d h. d = i \<and> ohour \<le> h \<and> h < 25) w (insert_day i ohour 25 w)"
      using insert_day_extends that ok(1) by blast
    then have "week_ok (insert_day i ohour 25 w)" by (simp add: extends_def)
    from extends_trans [OF 1 insert_day_extends [OF this ok(2)] refl refl]
    show ?thesis by (rule extends_cong) auto
  qed
  have days: "set [1..7] = {1..(7::int)}" by simp
  show "extends {1..7} (in_window 0 ohour 0 chour) week
      (fold (\<lambda>i w. insert_day i (- 1) chour (insert_day i ohour 25 w)) [1..7] week)" if "ohour > chour"
    by (rule extends_cong [OF fold_extends [OF two assms(1), of "[1..7]"]])
       (use that in \<open>simp_all only: days in_window_def not_le, simp_all\<close>)
  show "extends {1..7} (in_window 0 ohour 0 chour) week
      (fold (\<lambda>i w. insert_day i ohour chour w) [1..7] week)" if "ohour < chour"
    by (rule extends_cong [OF fold_extends [OF insert_day_extends [OF _ ok(3)] assms(1), of "[1..7]"]])
       (use that in \<open>simp_all only: days in_window_def, simp_all\<close>)
  show "extends {1..7} (in_window 0 ohour 0 ohour) week (fold (\<lambda>i w. insert_day i 25 25 w) [1..7] week)"
    by (rule extends_cong [OF fold_extends [OF insert_day_extends [OF _ hours_ok_25(1)] assms(1), of "[1..7]"]])
       (simp_all only: days in_window_def, simp_all)
qed

lemma one_day_extends:
  assumes "week_ok week" "0 \<le> ohour" "ohour < 24" "chour < 24" "1 \<le> day" "day \<le> 7" "ohour \<le> chour"
  shows "extends {1..7} (in_window day ohour day chour) week
    (fill_closed (if ohour = chour then insert_day day 25 25 week else insert_day day ohour chour week))"
proof -
  let ?w = "if ohour = chour then insert_day day 25 25 week else insert_day day ohour chour week"
  have 1: "extends {day} (\<lambda>d h. d = day \<and> ohour \<le> h \<and> h < chour) week ?w"
    using insert_day_extends [OF assms(1), of 25 25 day] insert_day_extends [OF assms(1), of ohour chour day] assms
    by (auto simp: extends_def hours_ok_def)
  then have "week_ok ?w" by (simp add: extends_def)
  from extends_trans [OF 1 fill_closed_extends [OF this] refl refl] show ?thesis
    by (rule extends_cong) (use assms(5,6) in \<open>auto simp: in_window_def\<close>)
qed

lemma span_extends:
  assumes "week_ok week" "0 \<le> ohour" "ohour < 24" "chour < 24"
    "1 \<le> oday" "oday \<le> 7" "1 \<le> cday" "cday \<le> 7" "oday \<noteq> cday"
  shows "\<exists>week'. span_loop oday oday cday ohour chour week = Some week' \<and>
    extends {1..7} (in_window oday ohour cday chour) week week'"
proof -
  let ?w = "insert_day oday ohour 25 week" and ?n = "nat ((cday - (oday + 1)) mod 7)"
  have w: "extends {oday} (\<lambda>d h. d = oday \<and> ohour \<le> h \<and> h < 25) week ?w"
    using insert_day_extends assms by (simp add: hours_ok_def)
  have n: "(cday - (oday + 1)) mod 7 = (cday - oday) mod 7 - 1"
    using mod7_pred [of "cday - oday"] mod7_zero [of "cday - oday"] assms(5-9) by (simp add: algebra_simps)
  have "\<exists>week'. span_loop (oday + 1) oday cday ohour chour ?w = Some week' \<and>
      extends {1..7} (\<lambda>d h. d \<in> {1..7} \<and> (d - (oday + 1)) mod 7 < int ?n \<or> d = cday \<and> h < chour) ?w week'"
    by (rule span_loop_rest) (use assms n w in \<open>simp_all add: extends_def\<close>)
  then obtain week' where week': "span_loop (oday + 1) oday cday ohour chour ?w = Some week'"
    "extends {1..7} (\<lambda>d h. d \<in> {1..7} \<and> (d - (oday + 1)) mod 7 < int ?n \<or> d = cday \<and> h < chour) ?w week'"
    by blast
  have "span_loop oday oday cday ohour chour week = Some week'"
    using week'(1) assms(6) by (subst span_loop.simps) (simp add: Let_def)
  moreover have "extends {1..7} (in_window oday ohour cday chour) week week'"
  proof (rule extends_cong [OF extends_trans [OF w week'(2) refl refl]])
    show "{oday} \<union> {1..7} = {1..7}" using assms by auto
    fix d and h :: rat
    assume h: "0 \<le> h" "h < 24"
    have "1 \<le> d \<Longrightarrow> d \<le> 7 \<Longrightarrow> (d - (oday + 1)) mod 7 < int ?n \<longleftrightarrow>
        0 < (d - oday) mod 7 \<and> (d - oday) mod 7 < (cday - oday) mod 7"
      using n mod7_pred [of "d - oday"] pos_mod_bound [of 7 "cday - oday"] pos_mod_sign [of 7 "d - oday"]
      by (simp add: algebra_simps) linarith
    then show "(d = oday \<and> ohour \<le> h \<and> h < 25 \<or>
          d \<in> {1..7} \<and> (d - (oday + 1)) mod 7 < int ?n \<or> d = cday \<and> h < chour) =
        in_window oday ohour cday chour d h"
      unfolding in_window_def using h assms(5-9) by auto
  qed
  ultimately show ?thesis by blast
qed

subsection \<open>The clock\<close>

lemma flt_of_int:
  assumes "0 \<le> n" "n < 2 ^ 24"
  shows "flt (of_int n) = of_int n"
proof (cases "n = 0")
  case False
  let ?x = "rat_of_int n"
  have "pow2 (flog2 ?x) \<le> ?x" using flog2_le [of ?x] assms(1) False by simp
  also have "?x < 2 ^ 24" using assms(2) by (metis of_int_less_iff of_int_numeral of_int_power)
  finally have "pow2 (flog2 ?x) < pow2 24" by (simp add: pow2_def)
  then have "flog2 ?x < 24" using pow2_mono [of 24 "flog2 ?x"] by linarith
  define k where "k = nat (23 - flog2 ?x)"
  have "flog2 ?x - 24 + 1 = - int k" using \<open>flog2 ?x < 24\<close> by (simp add: k_def)
  then have u: "pow2 (flog2 ?x - 24 + 1) = 1 / 2 ^ k" by (simp only: pow2_minus)
  have "?x / (1 / 2 ^ k) = of_int (n * 2 ^ k)" by simp
  then have "round_even (?x / (1 / 2 ^ k)) = n * 2 ^ k"
    by (simp only: round_even_def Let_def floor_of_int diff_self) simp
  then show ?thesis using False assms(1) u by (simp add: rnd_def)
qed (simp add: rnd_def)

text \<open>The hour at a minute of the day.\<close>

definition clock_hour :: "int \<Rightarrow> rat" where
  "clock_hour k = hour_min (of_int (k div 60)) (of_int (k mod 60))"

text \<open>A clock without an offset.\<close>

definition utc :: "c_time \<Rightarrow> int" where
  [simp]: "utc t = 0"

definition minute_of :: "(c_time \<Rightarrow> int) \<Rightarrow> c_time \<Rightarrow> int" where
  "minute_of tz t = (t + tz t) mod 86400 div 60"

definition weekday_of :: "(c_time \<Rightarrow> int) \<Rightarrow> c_time \<Rightarrow> int" where
  "weekday_of tz t = ((t + tz t) div 86400 + 3) mod 7 + 1"

lemma rnd_near:
  assumes "\<bar>x - y\<bar> \<le> e" "\<bar>x\<bar> \<le> b"
  shows "\<bar>rnd p x - y\<bar> \<le> e + b / 2 ^ p"
proof -
  have "\<bar>x\<bar> / 2 ^ p \<le> b / 2 ^ p" using assms(2) by (simp add: divide_right_mono)
  then show ?thesis using rnd_error [of p x] assms(1) by linarith
qed

lemma clock_hour_error:
  assumes "0 \<le> k" "k < 1440"
  shows "\<bar>clock_hour k - of_int k / 60\<bar> \<le> 1 / 100000"
proof -
  let ?h = "rat_of_int (k div 60)" and ?m = "rat_of_int (k mod 60)"
  have eq: "k = 60 * (k div 60) + k mod 60" and "0 \<le> k mod 60" "k mod 60 < 60" by simp_all
  then have "k div 60 \<le> 23" "0 \<le> k div 60" "k mod 60 \<le> 59" "0 \<le> k mod 60" using assms by linarith+
  then have h: "0 \<le> ?h" "?h \<le> 23" and m: "0 \<le> ?m" "?m \<le> 59" by simp_all
  have "rat_of_int k = 60 * ?h + ?m" using arg_cong [OF eq, of rat_of_int] unfolding of_int_add of_int_mult of_int_numeral .
  then have k: "of_int k / 60 = ?h + ?m / 60" by simp
  have 1: "\<bar>dbl (?m / 60) - ?m / 60\<bar> \<le> 1 / 2 ^ 53"
    using rnd_near [of "?m / 60" "?m / 60" 0 1 53] m by simp
  have "1 / 2 ^ 53 \<le> (1::rat) / 1000" by simp
  then have 2: "\<bar>?h + dbl (?m / 60)\<bar> \<le> 24" using 1 h m by linarith
  have 3: "\<bar>dbl (?h + dbl (?m / 60)) - (?h + ?m / 60)\<bar> \<le> 1 / 2 ^ 53 + 24 / 2 ^ 53"
    by (rule rnd_near [OF _ 2]) (use 1 in simp)
  moreover have "1 / 2 ^ 53 + 24 / 2 ^ 53 \<le> (1::rat) / 1000" by simp
  ultimately have "\<bar>dbl (?h + dbl (?m / 60))\<bar> \<le> 25" using h m by linarith
  then have "\<bar>flt (dbl (?h + dbl (?m / 60))) - (?h + ?m / 60)\<bar> \<le> (1 / 2 ^ 53 + 24 / 2 ^ 53) + 25 / 2 ^ 24"
    by (rule rnd_near [OF 3])
  also have "\<dots> \<le> 1 / 100000" by simp
  finally show ?thesis by (simp add: clock_hour_def hour_min_def k)
qed

lemma clock_hour_mono:
  assumes "0 \<le> k" "k < 1440" "0 \<le> l" "l < 1440"
  shows "clock_hour k < clock_hour l \<longleftrightarrow> k < l"
proof -
  have "clock_hour a < clock_hour b" if "a < b" "0 \<le> a" "b < 1440" for a b
  proof -
    have "rat_of_int (a + 1) \<le> of_int b" using that(1) by (simp only: of_int_le_iff)
    then show ?thesis
      using clock_hour_error [of a] clock_hour_error [of b] that(2,3) that(1) unfolding of_int_add of_int_1 by linarith
  qed
  then show ?thesis using assms by (cases k l rule: linorder_cases) (auto dest: less_asym)
qed

lemma minute_range: "0 \<le> minute_of tz t" "minute_of tz t < 1440"
proof -
  have "0 \<le> (t + tz t) mod 86400" "(t + tz t) mod 86400 < 86400" by simp_all
  then show "0 \<le> minute_of tz t" "minute_of tz t < 1440"
    unfolding minute_of_def by linarith+
qed

lemma clock_hour_range: "0 \<le> k \<Longrightarrow> k < 1440 \<Longrightarrow> 0 \<le> clock_hour k \<and> clock_hour k < 24"
proof -
  assume k: "0 \<le> k" "k < 1440"
  then have "0 \<le> k div 60" "k div 60 \<le> 23" by linarith+
  moreover have "0 \<le> k mod 60" "k mod 60 \<le> 59" using pos_mod_bound [of 60 k] by simp_all
  ultimately show ?thesis
    using hour_min_range [of "of_int (k mod 60)" "of_int (k div 60)"] by (simp add: clock_hour_def)
qed

lemma getDayHour_eq: "getDayHour tz t = (weekday_of tz t, clock_hour (minute_of tz t))"
proof -
  let ?s = "t + tz t"
  have h: "?s mod 86400 div 3600 = minute_of tz t div 60"
    by (simp add: minute_of_def zdiv_zmult2_eq [symmetric])
  have "?s mod 3600 = ?s mod 86400 mod 3600" by (simp add: mod_mod_cancel)
  also have "\<dots> = 60 * (?s mod 86400 div 60 mod 60) + ?s mod 86400 mod 60"
    using zmod_zmult2_eq [of 60 "?s mod 86400" 60] by simp
  finally have "?s mod 3600 div 60 = ?s mod 86400 div 60 mod 60" by (rule int_div_pos_eq) simp_all
  then have m: "?s mod 3600 div 60 = minute_of tz t mod 60" by (simp only: minute_of_def)
  have f: "flt (of_int (minute_of tz t div 60)) = of_int (minute_of tz t div 60)"
    by (rule flt_of_int) (use minute_range [of tz t] in simp_all)
  define w where "w = (?s div 86400 + 4) mod 7"
  have "0 \<le> w" "w < 7" by (simp_all add: w_def)
  then have w: "w \<in> {0, 1, 2, 3, 4, 5, 6}" by auto
  have "weekday_of tz t = ((?s div 86400 + 4) - 1) mod 7 + 1" by (simp add: weekday_of_def algebra_simps)
  then have "weekday_of tz t = (if w = 0 then 7 else w)" unfolding mod7_pred w_def by simp
  with w show ?thesis
    unfolding getDayHour_def ctime_fields_def Let_def w_def [symmetric] clock_hour_def h m f
    by (elim insertE emptyE) (simp_all add: f)
qed

subsection \<open>Status and edges\<close>

lemma check_windows_fst: "fst (check_windows hour e now ws) = covers ws hour"
  by (induction ws arbitrary: e) (auto simp: checkWindow_def)


lemma updateTimeWindow_due:
  assumes "w_windEdge w \<le> now" "w_windEdge w \<noteq> 0" "w_week w (weekday_of tz now) \<noteq> []"
  shows "updateTimeWindow tz now w =
    (let r = check_windows (clock_hour (minute_of tz now)) (midnight_edge now (clock_hour (minute_of tz now)))
       now (w_week w (weekday_of tz now))
     in w\<lparr>w_open := fst r, w_windEdge := snd r\<rparr>)"
  using assms by (simp add: updateTimeWindow_def getDayHour_eq Let_def split: prod.split)

lemma split_at:
  assumes "c \<notin> set xs"
  shows "takeWhile (\<lambda>x. x \<noteq> c) (xs @ c # ys) = xs" "dropWhile (\<lambda>x. x \<noteq> c) (xs @ c # ys) = c # ys"
  using assms by (induction xs) auto

lemma strrchr_split_append:
  "c \<notin> set ys \<Longrightarrow> strrchr_split c (xs @ c # ys) = Some (xs, ys)"
  using split_at [of c "rev ys" "rev xs"] by (simp add: strrchr_split_def)

lemma strchr_split_append:
  "c \<notin> set xs \<Longrightarrow> strchr_split c (xs @ c # ys) = Some (xs, ys)"
  using split_at [of c xs ys] by (simp add: strchr_split_def)

lemma parse_hour_print: "h \<le> 23 \<Longrightarrow> parse_hour (print_nat h) = Some (of_nat h)"
proof -
  assume h: "h \<le> 23"
  then have "fst (strtol (print_nat h)) = int h"
    using strtol_print [of "[]" h] by (simp add: clamp_long_def)
  then have "atof_int (print_nat h) = of_nat h"
    using flt_of_int [of "int h"] h by (simp add: atof_int_def)
  then show ?thesis
    using h isint_print [of h] atoi_print [of h] by (simp add: parse_hour_def nonneg_int_def)
qed

definition print_time :: "nat \<Rightarrow> nat \<Rightarrow> string" where
  "print_time h m = print_nat h @ '':'' @ print_nat m"

lemma print_nat_no: "c \<in> {CHR '':'', CHR ''-''} \<Longrightarrow> c \<notin> set (print_nat n)"
  using print_nat_digits(2) [of n] digit_not_sign by blast

lemma parse_time_print:
  assumes "h \<le> 23" "m \<le> 59"
  shows "parse_time (print_time h m) = Some (clock_hour (60 * int h + int m), 0)"
proof -
  have "strrchr_split (CHR '':'') (print_time h m) = Some (print_nat h, print_nat m)"
    by (simp add: print_time_def strrchr_split_append print_nat_no)
  moreover have "strrchr_split (CHR '':'') (print_nat h) = None"
    by (simp add: strrchr_split_def print_nat_no)
  moreover have "nonneg_int (print_nat m)" "atoi (print_nat m) = int m"
    using assms(2) isint_print [of m] atoi_print [of m] by (simp_all add: nonneg_int_def)
  moreover have "(60 * int h + int m) div 60 = int h" "(60 * int h + int m) mod 60 = int m"
    using assms(2) by simp_all
  ultimately show ?thesis
    using parse_hour_print [OF assms(1)] assms(2) by (simp add: parse_time_def clock_hour_def)
qed









lemma addWindow_spec:
  assumes "week_ok week"
  shows "case strchr_split (CHR ''-'') wordpair of
      None \<Rightarrow> addWindow wordpair week = Some None
    | Some (oword, cword) \<Rightarrow>
        (case (parse_time oword, parse_time cword) of
           (Some (ohour, oday), Some (chour, cday)) \<Rightarrow>
             if ambiguous oday ohour cday chour then addWindow wordpair week = Some None
             else \<exists>week'. addWindow wordpair week = Some (Some week') \<and>
               extends {1..7} (in_window oday ohour cday chour) week week'
         | _ \<Rightarrow> addWindow wordpair week = Some None)"
proof (cases "strchr_split (CHR ''-'') wordpair")
  case (Some p)
  obtain oword cword where p: "p = (oword, cword)" by (cases p)
  have nodash: "CHR ''-'' \<notin> set oword"
    using Some p by (auto simp: strchr_split_def dest: set_takeWhileD split: if_splits)
  show ?thesis
  proof (cases "parse_time oword = None \<or> parse_time cword = None")
    case False
    then obtain ohour oday chour cday where t: "parse_time oword = Some (ohour, oday)"
      "parse_time cword = Some (chour, cday)" by auto
    have r: "0 \<le> ohour" "ohour < 24" "chour < 24" "0 \<le> oday" "oday \<le> 7" "0 \<le> cday" "cday \<le> 7"
      using parse_time_range [OF t(1)] parse_time_range [OF t(2)] nodash by auto
    have "addWindow wordpair week = Some None" if "ambiguous oday ohour cday chour"
      using that Some p t by (auto simp: addWindow_def ambiguous_def Let_def)
    moreover have "\<exists>week'. addWindow wordpair week = Some (Some week') \<and>
        extends {1..7} (in_window oday ohour cday chour) week week'" if a: "\<not> ambiguous oday ohour cday chour"
    proof -
      consider "oday = 0" "cday = 0" | "oday \<noteq> 0" "cday = oday" "\<not> ohour > chour"
        | "oday \<noteq> 0" "cday \<noteq> 0" "oday \<noteq> cday"
        using a by (auto simp: ambiguous_def)
      then show ?thesis
      proof cases
        case 1
        then show ?thesis
          using daily_extends [OF assms r(1-3)] Some p t
          by (cases ohour chour rule: linorder_cases) (auto simp: addWindow_def Let_def)
      next
        case 2
        then show ?thesis
          using one_day_extends [OF assms r(1-3), of oday] r Some p t by (auto simp: addWindow_def Let_def)
      next
        case 3
        then show ?thesis
          using span_extends [OF assms r(1-3), of oday cday] r Some p t by (auto simp: addWindow_def Let_def)
      qed
    qed
    ultimately show ?thesis using Some p t by simp
  qed (use Some p in \<open>auto simp: addWindow_def split: option.splits\<close>)
qed (simp add: addWindow_def)

subsection \<open>Properties\<close>

text \<open>C15. Adding a window expression to a week is exact: an expression without \<open>-\<close>, with an
  unreadable or an ambiguous time is refused, and every other one returns a week in which all seven
  days are defined and which is open, in addition to the hours it was open before, exactly during the
  hours from the opening to the closing time, across midnight and across the end of the week. The
  loop over the days of the span ends.\<close>

theorem addWindow_exact:
  assumes "week_ok week"
  shows "case strchr_split (CHR ''-'') wordpair of
      None \<Rightarrow> addWindow wordpair week = Some None
    | Some (oword, cword) \<Rightarrow>
        (case (parse_time oword, parse_time cword) of
           (Some (ohour, oday), Some (chour, cday)) \<Rightarrow>
             if ambiguous oday ohour cday chour then addWindow wordpair week = Some None
             else \<exists>week'. addWindow wordpair week = Some (Some week') \<and>
               extends {1..7} (in_window oday ohour cday chour) week week'
         | _ \<Rightarrow> addWindow wordpair week = Some None)"
  by (rule addWindow_spec [OF assms])

lemma ex_times:
  "strchr_split (CHR ''-'') ''5:18:00-1:8:30'' = Some (''5:18:00'', ''1:8:30'')"
  "parse_time ''5:18:00'' = Some (18, 5)" "parse_time ''1:8:30'' = Some (17 / 2, 1)"
  by code_simp+

theorem addWindow_exact_witness:
  "\<exists>week'. addWindow ''5:18:00-1:8:30'' (\<lambda>_. []) = Some (Some week') \<and>
     covers (week' 6) 3 \<and> \<not> covers (week' 2) 3"
proof -
  have "week_ok (\<lambda>_. [])" by (simp add: week_ok_def)
  from addWindow_exact [OF this, of "''5:18:00-1:8:30''"] obtain week' where
    "addWindow ''5:18:00-1:8:30'' (\<lambda>_. []) = Some (Some week')"
    "extends {1..7} (in_window 5 18 1 (17 / 2)) (\<lambda>_. []) week'"
    by (auto simp: ex_times ambiguous_def)
  then show ?thesis by (auto simp: extends_def in_window_def)
qed


text \<open>C16. From the text to the status: for any two different times of the day \<open>h1:m1\<close> and \<open>h2:m2\<close> the
  expression \<open>h1:m1-h2:m2\<close> is accepted, and a window built from it is open at a time exactly when the
  minute of the day lies from the first up to before the second, through midnight when the second is
  smaller. The conversions to \<open>float\<close> hours do not move any boundary.\<close>

theorem daily_window_status:
  fixes h1 m1 h2 m2 :: nat
  defines "a \<equiv> 60 * int h1 + int m1" and "b \<equiv> 60 * int h2 + int m2"
  assumes "h1 \<le> 23" "m1 \<le> 59" "h2 \<le> 23" "m2 \<le> 59" "a \<noteq> b" "0 < edge" "edge \<le> now"
  shows "\<exists>week. addWindow (print_time h1 m1 @ ''-'' @ print_time h2 m2) (\<lambda>_. []) = Some (Some week) \<and>
    (w_open (updateTimeWindow tz now (newTimeWindow\<lparr>w_week := week, w_windEdge := edge\<rparr>)) \<longleftrightarrow>
      (if a < b then a \<le> minute_of tz now \<and> minute_of tz now < b
       else a \<le> minute_of tz now \<or> minute_of tz now < b))"
proof -
  let ?k = "minute_of tz now" and ?d = "weekday_of tz now"
  have r: "0 \<le> a" "a < 1440" "0 \<le> b" "b < 1440" using assms(3-6) by (simp_all add: a_def b_def)
  define T where "T = print_time h1 m1 @ ''-'' @ print_time h2 m2"
  have s: "strchr_split (CHR ''-'') T = Some (print_time h1 m1, print_time h2 m2)"
    using strchr_split_append [of "CHR ''-''" "print_time h1 m1" "print_time h2 m2"]
    by (simp add: T_def print_time_def print_nat_no)
  have t: "parse_time (print_time h1 m1) = Some (clock_hour a, 0)" "parse_time (print_time h2 m2) = Some (clock_hour b, 0)"
    using parse_time_print assms(3-6) by (simp_all add: a_def b_def)
  have d: "?d \<in> {1..7}" by (simp add: weekday_of_def)
  have "week_ok (\<lambda>_. [])" by (simp add: week_ok_def)
  then obtain week where w: "addWindow T (\<lambda>_. []) = Some (Some week)"
    "extends {1..7} (in_window 0 (clock_hour a) 0 (clock_hour b)) (\<lambda>_. []) week"
    using addWindow_spec [of "\<lambda>_. []" T] by (auto simp: s t ambiguous_def)
  have c: "covers (week ?d) (clock_hour ?k) \<longleftrightarrow> in_window 0 (clock_hour a) 0 (clock_hour b) ?d (clock_hour ?k)"
    using w(2) clock_hour_range [OF minute_range] by (simp add: extends_def)
  have "week ?d \<noteq> []" using w(2) d by (simp add: extends_def)
  have "clock_hour a \<le> clock_hour ?k \<longleftrightarrow> a \<le> ?k" "clock_hour ?k < clock_hour b \<longleftrightarrow> ?k < b"
    "clock_hour a \<le> clock_hour b \<longleftrightarrow> a < b"
    using clock_hour_mono [of ?k a] clock_hour_mono [of ?k b] clock_hour_mono [of b a] minute_range [of tz now] r \<open>a \<noteq> b\<close>
    by linarith+
  with c have "covers (week ?d) (clock_hour ?k) \<longleftrightarrow> (if a < b then a \<le> ?k \<and> ?k < b else a \<le> ?k \<or> ?k < b)"
    using d by (simp only: in_window_def simp_thms if_True)
  moreover have "w_open (updateTimeWindow tz now (newTimeWindow\<lparr>w_week := week, w_windEdge := edge\<rparr>)) =
      covers (week ?d) (clock_hour ?k)"
    using updateTimeWindow_due [of "newTimeWindow\<lparr>w_week := week, w_windEdge := edge\<rparr>" now tz] \<open>week ?d \<noteq> []\<close> assms(8,9)
    by (simp add: Let_def check_windows_fst)
  ultimately show ?thesis using w(1) unfolding T_def by blast
qed

theorem daily_window_status_witness:
  "\<exists>week. addWindow (print_time 22 30 @ ''-'' @ print_time 6 0) (\<lambda>_. []) = Some (Some week) \<and>
    w_open (updateTimeWindow utc 1700091000 (newTimeWindow\<lparr>w_week := week, w_windEdge := 1700000000\<rparr>))"
proof -
  have "minute_of utc 1700091000 = 1410" by (simp add: minute_of_def)
  then show ?thesis
    using daily_window_status [of 22 30 6 0 1700000000 1700091000 utc] by simp
qed


text \<open>C37. Windows close late: the edge of a window is the sum of the time in seconds and a \<open>float\<close>, and
  the sum is rounded to a \<open>float\<close>, that is to a multiple of 128 seconds. A window \<open>9-17\<close> examined at
  10:05:15 on 15 November 2023 records 17:01:52 as its edge; at 17:01:40 it is still reported open.\<close>

theorem windEdge_late:
  "\<exists>week. addWindow ''9-17'' (\<lambda>_. []) = Some (Some week) \<and>
    (let w = updateTimeWindow utc 1700042715 (newTimeWindow\<lparr>w_week := week, w_windEdge := 1700042715\<rparr>)
     in w_windEdge w = 1700067712 \<and> w_open (updateTimeWindow utc 1700067700 w) \<and>
       minute_of utc 1700067700 = 17 * 60 + 1 \<and>
       \<not> covers (week (weekday_of utc 1700067700)) (clock_hour (minute_of utc 1700067700)))"
proof -
  let ?week = "fold (\<lambda>i. insert_day i 9 17) [1..7] (\<lambda>_. [])"
  have "strchr_split (CHR ''-'') ''9-17'' = Some (''9'', ''17'')" "parse_time ''9'' = Some (9, 0)"
    "parse_time ''17'' = Some (17, 0)"
    by code_simp+
  then have "addWindow ''9-17'' (\<lambda>_. []) = Some (Some ?week)" by (simp add: addWindow_def)
  moreover have "let w = updateTimeWindow utc 1700042715 (newTimeWindow\<lparr>w_week := ?week, w_windEdge := 1700042715\<rparr>)
     in w_windEdge w = 1700067712 \<and> w_open (updateTimeWindow utc 1700067700 w) \<and>
       minute_of utc 1700067700 = 17 * 60 + 1 \<and>
       \<not> list_ex (\<lambda>v. opentime v \<le> clock_hour (minute_of utc 1700067700) \<and>
            clock_hour (minute_of utc 1700067700) < closetime v) (?week (weekday_of utc 1700067700))"
    by code_simp
  ultimately show ?thesis unfolding covers_def Let_def list_ex_iff by blast
qed

end
