(* ===== verification/List_Set.thy ===== *)
theory List_Set
  imports Lava_Prelude "HOL-Library.Multiset"
begin

text \<open>
  Sets of \<open>long\<close> values as sorted linked lists (\<open>lsf/intlib/listset.c\<close>). A set is the list of its
  elements from the head. The cells come from a free list that all sets share; the state of the
  allocator is the number of cells on that free list and the number of cells \<open>safe_calloc\<close> can still
  provide. The destructive operations consume their arguments.
\<close>

subsection \<open>Cells\<close>

record cells =
  FreeSet :: nat
  fresh :: nat

definition listSetAlloc :: "cells \<Rightarrow> cells option" where
  "listSetAlloc p =
     (if FreeSet p > 0 then Some (p\<lparr>FreeSet := FreeSet p - 1\<rparr>)
      else if fresh p > 0 then Some (p\<lparr>fresh := fresh p - 1\<rparr>) else None)"

definition listSetFree :: "int list \<Rightarrow> cells \<Rightarrow> cells" where
  "listSetFree xs p = p\<lparr>FreeSet := FreeSet p + length xs\<rparr>"

definition collectFreeSet :: "cells \<Rightarrow> cells" where
  "collectFreeSet p = p\<lparr>FreeSet := 0, fresh := fresh p + FreeSet p\<rparr>"

subsection \<open>Operations\<close>

fun listSetEqual :: "int list \<Rightarrow> int list \<Rightarrow> bool" where
  "listSetEqual (x # set1) (y # set2) = (if x = y then listSetEqual set1 set2 else False)"
| "listSetEqual set1 set2 = (set1 = [] \<and> set2 = [])"

fun union_loop :: "int list \<Rightarrow> int list \<Rightarrow> int list" where
  "union_loop (x # set1) (y # set2) =
     (if x \<le> y then x # union_loop set1 (y # set2) else y # union_loop (x # set1) set2)"
| "union_loop [] set2 = set2"
| "union_loop set1 [] = set1"

definition listSetUnion :: "int list \<Rightarrow> int list \<Rightarrow> cells \<Rightarrow> int list \<times> cells" where
  "listSetUnion set1 set2 p =
     (case listSetAlloc p of
        None \<Rightarrow> ([], listSetFree set2 (listSetFree set1 p))
      | Some p1 \<Rightarrow> (union_loop set1 set2, listSetFree [- 1] p1))"

fun intersect_mark :: "int list \<Rightarrow> int list \<Rightarrow> int list" where
  "intersect_mark [] setB = []"
| "intersect_mark (x # setA) [] = - 1 # intersect_mark setA []"
| "intersect_mark (x # setA) (y # setB) =
     (if x = y then x # intersect_mark setA setB
      else if x < y then - 1 # intersect_mark setA (y # setB)
      else intersect_mark (x # setA) setB)"

text \<open>The removal of marked cells: first behind the head, then the head itself.\<close>

fun sweep_tail :: "int list \<Rightarrow> int list \<times> nat" where
  "sweep_tail (x # y # xs) =
     (if y < 0 then (case sweep_tail (x # xs) of (r, n) \<Rightarrow> (r, Suc n))
      else (case sweep_tail (y # xs) of (r, n) \<Rightarrow> (x # r, n)))"
| "sweep_tail xs = (xs, 0)"

definition sweep :: "int list \<Rightarrow> cells \<Rightarrow> int list \<times> cells" where
  "sweep xs p =
     (case sweep_tail xs of (r, n) \<Rightarrow>
        let p1 = p\<lparr>FreeSet := FreeSet p + n\<rparr>
        in if r \<noteq> [] \<and> hd r < 0 then (tl r, listSetFree [hd r] p1) else (r, p1))"

definition listSetIntersect :: "int list \<Rightarrow> int list \<Rightarrow> cells \<Rightarrow> int list \<times> cells" where
  "listSetIntersect set1 set2 p = sweep (intersect_mark set1 set2) (listSetFree set2 p)"

fun dup_cells :: "int list \<Rightarrow> int list \<Rightarrow> cells \<Rightarrow> (int list \<times> cells) + cells" where
  "dup_cells acc [] p = Inl (acc, p)"
| "dup_cells acc (x # xs) p =
     (case listSetAlloc p of
        None \<Rightarrow> Inr (listSetFree acc p)
      | Some p1 \<Rightarrow> dup_cells (acc @ [x]) xs p1)"

text \<open>The copy is built behind an auxiliary head cell, the first element of \<open>acc\<close>.\<close>

definition listSetDuplicate :: "int list \<Rightarrow> cells \<Rightarrow> int list \<times> cells" where
  "listSetDuplicate xs p =
     (case listSetAlloc p of
        None \<Rightarrow> ([], p)
      | Some p1 \<Rightarrow>
          (case dup_cells [- 1] xs p1 of
             Inl (acc, p2) \<Rightarrow> (tl acc, listSetFree [hd acc] p2)
           | Inr p2 \<Rightarrow> ([], p2)))"

fun listSetMember :: "int \<Rightarrow> int list \<Rightarrow> bool" where
  "listSetMember elem [] = False"
| "listSetMember elem (x # xs) = (if x = elem then True else listSetMember elem xs)"

fun del_tail :: "int \<Rightarrow> int list \<Rightarrow> int list \<times> nat" where
  "del_tail elem (x # y # xs) =
     (if y \<noteq> elem then (case del_tail elem (y # xs) of (r, n) \<Rightarrow> (x # r, n)) else (x # xs, 1))"
| "del_tail elem xs = (xs, 0)"

definition listSetDel :: "int \<Rightarrow> int list \<Rightarrow> cells \<Rightarrow> int list \<times> cells" where
  "listSetDel elem xs p =
     (case xs of
        [] \<Rightarrow> ([], p)
      | x # rest \<Rightarrow>
          if x = elem then (rest, listSetFree [x] p)
          else (case del_tail elem xs of (r, n) \<Rightarrow> (r, p\<lparr>FreeSet := FreeSet p + n\<rparr>)))"

fun insert_tail :: "int \<Rightarrow> int list \<Rightarrow> int list" where
  "insert_tail elem (x # y # xs) =
     (if y < elem then x # insert_tail elem (y # xs) else x # elem # y # xs)"
| "insert_tail elem [x] = [x, elem]"
| "insert_tail elem [] = []"

definition listSetInsert :: "int \<Rightarrow> int list \<Rightarrow> cells \<Rightarrow> int list \<times> cells" where
  "listSetInsert elem xs p =
     (if listSetMember elem xs then (xs, p)
      else (case listSetAlloc p of
          None \<Rightarrow> ([], p)
        | Some p1 \<Rightarrow>
            (case xs of
               [] \<Rightarrow> ([elem], p1)
             | x # rest \<Rightarrow> if x > elem then (elem # xs, p1) else (insert_tail elem xs, p1))))"

fun sub_mark :: "int list \<Rightarrow> int list \<Rightarrow> int list" where
  "sub_mark (x # set1) (y # set2) =
     (if x = y then - 1 # sub_mark set1 set2
      else if x > y then sub_mark (x # set1) set2
      else x # sub_mark set1 (y # set2))"
| "sub_mark set1 set2 = set1"

definition listSetSub :: "int list \<Rightarrow> int list \<Rightarrow> cells \<Rightarrow> int list \<times> cells" where
  "listSetSub set1 set2 p =
     (if set1 = [] then ([], listSetFree set2 p)
      else if set2 = [] then (set1, p)
      else sweep (sub_mark set1 set2) (listSetFree set2 p))"

definition listSetGetEle :: "int \<Rightarrow> int list \<Rightarrow> int" where
  "listSetGetEle k xs = (if k < 1 \<or> nat k > length xs then 0 else c_int (xs ! nat (k - 1)))"

definition listSetNumEle :: "int list \<Rightarrow> int" where
  "listSetNumEle xs = c_int (int (length xs))"

text \<open>The scan records how many cells lead up to and include \<open>low\<close> and \<open>up\<close>; 0 for \<open>NULL\<close>.\<close>

fun select_scan :: "int \<Rightarrow> int \<Rightarrow> nat \<Rightarrow> nat \<Rightarrow> nat \<Rightarrow> int list \<Rightarrow> nat \<times> nat" where
  "select_scan start stop i low up [] = (low, up)"
| "select_scan start stop i low up (x # xs) =
     (if x \<le> stop then select_scan start stop (Suc i) (if x < start then Suc i else low) (Suc i) xs
      else (low, up))"

definition listSetSelect :: "int \<Rightarrow> int \<Rightarrow> int list \<Rightarrow> cells \<Rightarrow> int list \<times> cells" where
  "listSetSelect start stop xs p =
     (if start > stop then ([], listSetFree xs p)
      else (case select_scan start stop 0 0 0 xs of (low, up) \<Rightarrow>
          if low > 0 \<and> low = length xs \<or> up = 0 then ([], listSetFree xs p)
          else
            let p1 = listSetFree (drop up xs) p
            in if low > 0 then (drop low (take up xs), listSetFree (take low xs) p1)
               else (take up xs, p1)))"

text \<open>
  Iteration: the position is the rest of the list. \<open>listSetIteratorBegin\<close> follows the position
  without a test, so that it is undefined (\<open>None\<close>) on an empty xs.
\<close>

definition listSetIteratorBegin :: "int list \<Rightarrow> (int \<times> int list) option" where
  "listSetIteratorBegin pos = (case pos of [] \<Rightarrow> None | x # rest \<Rightarrow> Some (x, rest))"

definition listSetIteratorGetNext :: "int list \<Rightarrow> int option \<times> int list" where
  "listSetIteratorGetNext pos = (case pos of [] \<Rightarrow> (None, []) | x # rest \<Rightarrow> (Some x, rest))"

subsection \<open>The set interface\<close>

text \<open>
  A set with bounded room: what a client may rely on when it fills a set. An insertion needs room,
  and takes at most one unit of it; a deletion takes none.
\<close>

locale bounded_set =
  fixes room :: "'s \<Rightarrow> nat" and invar :: "'s \<Rightarrow> bool" and elems :: "'s \<Rightarrow> 'a set"
    and isin :: "'a \<Rightarrow> 's \<Rightarrow> bool" and ins :: "'a \<Rightarrow> 's \<Rightarrow> 's" and del :: "'a \<Rightarrow> 's \<Rightarrow> 's"
  assumes isin_elems: "isin x s \<longleftrightarrow> x \<in> elems s"
    and ins_invar: "\<lbrakk>invar s; 0 < room s\<rbrakk> \<Longrightarrow> invar (ins x s)"
    and ins_elems: "\<lbrakk>invar s; 0 < room s\<rbrakk> \<Longrightarrow> elems (ins x s) = insert x (elems s)"
    and ins_room: "room s \<le> Suc (room (ins x s))"
    and del_invar: "invar s \<Longrightarrow> invar (del x s)"
    and del_elems: "invar s \<Longrightarrow> elems (del x s) = elems s - {x}"
    and del_room: "room s \<le> room (del x s)"
begin

lemma ins_all:
  "\<lbrakk>invar s; length xs \<le> room s\<rbrakk> \<Longrightarrow>
     invar (fold ins xs s) \<and> elems (fold ins xs s) = elems s \<union> set xs \<and>
     room s \<le> room (fold ins xs s) + length xs"
proof (induction xs arbitrary: s)
  case (Cons x xs)
  have r: "0 < room s" "length xs \<le> room (ins x s)" using Cons.prems ins_room [of s x] by simp_all
  then show ?case
    using Cons.IH [OF ins_invar r(2)] Cons.prems ins_elems [of s x] ins_room [of s x] by auto
qed simp

lemma del_all:
  "invar s \<Longrightarrow> invar (fold del xs s) \<and> elems (fold del xs s) = elems s - set xs \<and> room s \<le> room (fold del xs s)"
proof (induction xs arbitrary: s)
  case (Cons x xs)
  then show ?case
    using Cons.IH [OF del_invar] del_elems [of s x] del_room [of s x] by (auto intro: order_trans)
qed simp

lemma ins_del_cancel:
  assumes "invar s" "length xs \<le> room s" "elems s \<inter> set xs = {}"
  shows "elems (fold del xs (fold ins xs s)) = elems s"
  using ins_all [OF assms(1,2)] del_all [of "fold ins xs s" xs] assms(3) by auto

end

subsection \<open>The sorted lists implement it\<close>

definition set_ok :: "int list \<times> cells \<Rightarrow> bool" where
  "set_ok s \<longleftrightarrow> sorted_wrt (<) (fst s)"

definition cells_left :: "int list \<times> cells \<Rightarrow> nat" where
  "cells_left s = FreeSet (snd s) + fresh (snd s)"

lemma listSetMember_set [simp]: "listSetMember x xs \<longleftrightarrow> x \<in> set xs"
  by (induction x xs rule: listSetMember.induct) auto

lemma insert_tail_sorted:
  "\<lbrakk>sorted_wrt (<) xs; xs \<noteq> []; hd xs < e; e \<notin> set xs\<rbrakk> \<Longrightarrow>
     set (insert_tail e xs) = insert e (set xs) \<and> sorted_wrt (<) (insert_tail e xs)"
  by (induction e xs rule: insert_tail.induct) auto

lemma del_tail_sorted:
  "\<lbrakk>sorted_wrt (<) xs; xs \<noteq> []; hd xs \<noteq> e\<rbrakk> \<Longrightarrow>
     set (fst (del_tail e xs)) = set xs - {e} \<and> sorted_wrt (<) (fst (del_tail e xs))"
  by (induction e xs rule: del_tail.induct) (auto split: prod.splits)

lemma del_sorted:
  assumes "sorted_wrt (<) xs"
  shows "set (fst (listSetDel e xs p)) = set xs - {e}" "sorted_wrt (<) (fst (listSetDel e xs p))"
  using assms del_tail_sorted [of xs e]
  by (auto simp: listSetDel_def split: list.splits prod.splits)

lemma alloc_None: "listSetAlloc p = None \<longleftrightarrow> FreeSet p = 0 \<and> fresh p = 0"
  by (auto simp: listSetAlloc_def)

lemma alloc_room:
  assumes "0 < FreeSet p + fresh p"
  obtains p1 where "listSetAlloc p = Some p1"
  using assms alloc_None [of p] by (cases "listSetAlloc p") auto

lemma alloc_count: "listSetAlloc p = Some p1 \<Longrightarrow> FreeSet p + fresh p = Suc (FreeSet p1 + fresh p1)"
  by (auto simp: listSetAlloc_def split: if_splits)

lemma insert_sorted:
  assumes "sorted_wrt (<) xs" "0 < FreeSet p + fresh p"
  shows "set (fst (listSetInsert e xs p)) = insert e (set xs)" "sorted_wrt (<) (fst (listSetInsert e xs p))"
proof -
  obtain p1 where "listSetAlloc p = Some p1" by (rule alloc_room [OF assms(2)])
  then show "set (fst (listSetInsert e xs p)) = insert e (set xs)" "sorted_wrt (<) (fst (listSetInsert e xs p))"
    using assms(1) insert_tail_sorted [of xs e]
    by (auto simp: listSetInsert_def split: list.splits) (meson less_trans)
qed

interpretation ls: bounded_set cells_left set_ok "\<lambda>s. set (fst s)" "\<lambda>x s. listSetMember x (fst s)"
  "\<lambda>x s. listSetInsert x (fst s) (snd s)" "\<lambda>x s. listSetDel x (fst s) (snd s)"
proof
  fix x and s :: "int list \<times> cells"
  show "set_ok s \<Longrightarrow> 0 < cells_left s \<Longrightarrow> set_ok (listSetInsert x (fst s) (snd s))"
    "set_ok s \<Longrightarrow> 0 < cells_left s \<Longrightarrow> set (fst (listSetInsert x (fst s) (snd s))) = insert x (set (fst s))"
    using insert_sorted [of "fst s" "snd s" x] by (simp_all add: set_ok_def cells_left_def)
  show "cells_left s \<le> Suc (cells_left (listSetInsert x (fst s) (snd s)))"
    using alloc_count [of "snd s"]
    by (auto simp: cells_left_def listSetInsert_def split: option.split list.split)
  show "set_ok s \<Longrightarrow> set_ok (listSetDel x (fst s) (snd s))"
    "set_ok s \<Longrightarrow> set (fst (listSetDel x (fst s) (snd s))) = set (fst s) - {x}"
    using del_sorted by (auto simp: set_ok_def)
  show "cells_left s \<le> cells_left (listSetDel x (fst s) (snd s))"
    by (auto simp: cells_left_def listSetDel_def listSetFree_def split: list.split prod.split)
qed simp

subsection \<open>Marking and sweeping\<close>

lemma sweep_tail_eq:
  "sweep_tail (x # xs) = (x # filter (\<lambda>e. \<not> e < 0) xs, length (filter (\<lambda>e. e < 0) xs))"
  by (induction xs arbitrary: x) auto

lemma sweep_eq:
  "sweep xs p = (filter (\<lambda>e. \<not> e < 0) xs, p\<lparr>FreeSet := FreeSet p + length (filter (\<lambda>e. e < 0) xs)\<rparr>)"
  by (cases xs) (auto simp: sweep_def sweep_tail_eq listSetFree_def)

lemma filter_above:
  "\<forall>z\<in>set zs. y < (z::int) \<Longrightarrow> filter (\<lambda>z. z \<in> set (y # b)) zs = filter (\<lambda>z. z \<in> set b) zs"
  "\<forall>z\<in>set zs. y < (z::int) \<Longrightarrow> filter (\<lambda>z. z \<notin> set (y # b)) zs = filter (\<lambda>z. z \<notin> set b) zs"
  by (rule filter_cong; force)+

lemma intersect_mark_filter:
  "\<lbrakk>sorted_wrt (<) a; sorted_wrt (<) b; \<forall>x\<in>set a. 0 \<le> x\<rbrakk> \<Longrightarrow>
     filter (\<lambda>e. \<not> e < 0) (intersect_mark a b) = filter (\<lambda>x. x \<in> set b) a"
proof (induction a b rule: intersect_mark.induct)
  case (3 x a y b)
  have "x < y \<Longrightarrow> x \<notin> set (y # b)" using 3(5) by auto
  moreover have "\<not> x < y \<Longrightarrow> \<forall>z\<in>set a. y < z" using 3(4) by auto
  ultimately show ?case
    using 3 filter_above(1) [of a y b] by (cases x y rule: linorder_cases) simp_all
qed simp_all

lemma sub_mark_filter:
  "\<lbrakk>sorted_wrt (<) a; sorted_wrt (<) b; \<forall>x\<in>set a. 0 \<le> x\<rbrakk> \<Longrightarrow>
     filter (\<lambda>e. \<not> e < 0) (sub_mark a b) = filter (\<lambda>x. x \<notin> set b) a"
proof (induction a b rule: sub_mark.induct)
  case (1 x a y b)
  have "x < y \<Longrightarrow> x \<notin> set (y # b)" using 1(5) by auto
  moreover have "\<not> x < y \<Longrightarrow> \<forall>z\<in>set a. y < z" using 1(4) by auto
  ultimately show ?case
    using 1 filter_above(2) [of a y b] by (cases x y rule: linorder_cases) simp_all
qed (auto simp: filter_id_conv)

lemma mark_length: "length (intersect_mark a b) = length a" "length (sub_mark a b) = length a"
proof -
  show "length (intersect_mark a b) = length a" by (induction a b rule: intersect_mark.induct) auto
  show "length (sub_mark a b) = length a" by (induction a b rule: sub_mark.induct) auto
qed

lemma union_loop_mset: "mset (union_loop a b) = mset a + mset b"
  by (induction a b rule: union_loop.induct) auto

lemma union_loop_sorted: "\<lbrakk>sorted a; sorted b\<rbrakk> \<Longrightarrow> sorted (union_loop a b)"
proof (induction a b rule: union_loop.induct)
  case (1 x a y b)
  have "set (union_loop c d) = set c \<union> set d" for c d
    using union_loop_mset [of c d] by (metis set_mset_mset set_mset_union)
  then show ?case using 1 by (auto intro: order_trans)
qed auto

lemma select_scan_sorted:
  assumes "sorted_wrt (<) (pre @ xs)" "\<forall>x\<in>set pre. x \<le> stop" "start \<le> stop"
    "low = length (filter (\<lambda>x. x < start) pre)" "up = length pre" "i = length pre"
  shows "select_scan start stop i low up xs =
    (length (filter (\<lambda>x. x < start) (pre @ xs)), length (filter (\<lambda>x. x \<le> stop) (pre @ xs)))"
  using assms
proof (induction xs arbitrary: pre i low up)
  case (Cons x xs)
  have pre: "filter (\<lambda>y. y \<le> stop) pre = pre" using Cons.prems(2) by simp
  show ?case
  proof (cases "x \<le> stop")
    case True
    have "x < start \<Longrightarrow> filter (\<lambda>y. y < start) pre = pre"
      using Cons.prems(1) by (intro filter_True) (auto simp: sorted_wrt_append)
    then have "select_scan start stop (Suc i) (if x < start then Suc i else low) (Suc i) xs =
      (length (filter (\<lambda>y. y < start) ((pre @ [x]) @ xs)), length (filter (\<lambda>y. y \<le> stop) ((pre @ [x]) @ xs)))"
      using Cons.prems True by (intro Cons.IH) simp_all
    then show ?thesis using True by simp
  next
    case False
    have "\<forall>y\<in>set (x # xs). stop < y" using Cons.prems(1) False by (auto simp: sorted_wrt_append)
    then have "filter (\<lambda>y. y < start) (x # xs) = []" "filter (\<lambda>y. y \<le> stop) (x # xs) = []"
      using Cons.prems(3) by (force intro!: filter_False)+
    then show ?thesis using False Cons.prems(4,5) pre by simp
  qed
qed auto

lemma sorted_prefix:
  assumes "sorted_wrt (<) xs" "\<And>x y. x < y \<Longrightarrow> P y \<Longrightarrow> P (x::int)"
  shows "xs = filter P xs @ filter (\<lambda>x. \<not> P x) xs"
  using assms(1)
proof (induction xs)
  case (Cons x xs)
  have "filter P xs = []" if "\<not> P x" using Cons.prems assms(2) that by (auto simp: filter_empty_conv)
  then show ?case using Cons by (cases "P x") (auto simp: filter_empty_conv)
qed simp

lemma take_drop_prefix:
  assumes "xs = ys @ zs"
  shows "take (length ys) xs = ys" "drop (length ys) xs = zs"
  using assms by simp_all

lemma select_sorted:
  assumes "sorted_wrt (<) xs"
  shows "fst (listSetSelect start stop xs p) = filter (\<lambda>x. start \<le> x \<and> x \<le> stop) xs"
proof (cases "start > stop")
  case True
  then show ?thesis by (auto simp: listSetSelect_def filter_empty_conv)
next
  case False
  let ?low = "length (filter (\<lambda>x. x < start) xs)" and ?up = "length (filter (\<lambda>x. x \<le> stop) xs)"
  have scan: "select_scan start stop 0 0 0 xs = (?low, ?up)"
    using select_scan_sorted [of "[]" xs stop start 0 0 0] assms False by simp
  have up: "take ?up xs = filter (\<lambda>x. x \<le> stop) xs" by (rule take_drop_prefix [OF sorted_prefix [OF assms]]) simp
  have "filter (\<lambda>x. x < start) (filter (\<lambda>x. x \<le> stop) xs) = filter (\<lambda>x. x < start) xs"
    unfolding filter_filter using False by (intro filter_cong) auto
  moreover have "filter (\<lambda>x. x \<le> stop) xs = filter (\<lambda>x. x < start) (filter (\<lambda>x. x \<le> stop) xs) @
      filter (\<lambda>x. \<not> x < start) (filter (\<lambda>x. x \<le> stop) xs)"
    by (rule sorted_prefix [OF sorted_wrt_filter [OF assms]]) simp
  moreover have "filter (\<lambda>x. \<not> x < start) (filter (\<lambda>x. x \<le> stop) xs) = filter (\<lambda>x. start \<le> x \<and> x \<le> stop) xs"
    unfolding filter_filter by (intro filter_cong) auto
  ultimately have "drop ?low (filter (\<lambda>x. x \<le> stop) xs) = filter (\<lambda>x. start \<le> x \<and> x \<le> stop) xs"
    by (metis take_drop_prefix(2))
  then have r: "drop ?low (take ?up xs) = filter (\<lambda>x. start \<le> x \<and> x \<le> stop) xs" by (simp only: up)
  have z: "drop ?low (take ?up xs) = []" if "?low > 0 \<and> ?low = length xs \<or> ?up = 0" using that by auto
  have "fst (listSetSelect start stop xs p) = drop ?low (take ?up xs)"
  proof (cases "?low > 0 \<and> ?low = length xs \<or> ?up = 0")
    case True
    then show ?thesis using False z unfolding listSetSelect_def scan by simp
  next
    case c: False
    then show ?thesis using False unfolding listSetSelect_def scan Let_def by simp
  qed
  then show ?thesis by (simp only: r)
qed

lemma dup_cells_eq:
  "dup_cells acc xs p = Inl (acc', q) \<Longrightarrow>
     acc' = acc @ xs \<and> FreeSet q + fresh q + length xs = FreeSet p + fresh p"
proof (induction acc xs p rule: dup_cells.induct)
  case (2 acc x xs p)
  then show ?case using alloc_count [of p] by (cases "listSetAlloc p") auto
qed simp

lemma dup_cells_room:
  "length xs \<le> FreeSet p + fresh p \<Longrightarrow> \<exists>r. dup_cells acc xs p = Inl r"
proof (induction acc xs p rule: dup_cells.induct)
  case (2 acc x xs p)
  have "0 < FreeSet p + fresh p" using 2(2) unfolding list.size by linarith
  then obtain p1 where "listSetAlloc p = Some p1" by (rule alloc_room)
  then show ?case using 2 alloc_count [of p p1] by auto
qed simp

lemma dup_cells_fail:
  "dup_cells acc xs p = Inr q \<Longrightarrow> FreeSet q + fresh q = FreeSet p + fresh p + length acc"
proof (induction acc xs p rule: dup_cells.induct)
  case (2 acc x xs p)
  then show ?case using alloc_count [of p] by (cases "listSetAlloc p") (auto simp: listSetFree_def)
qed simp

definition cell_total :: "int list \<times> cells \<Rightarrow> nat" where
  "cell_total r = length (fst r) + FreeSet (snd r) + fresh (snd r)"

subsection \<open>Properties\<close>

text \<open>C20. On strictly sorted lists of non-negative values the operations are the set operations:
  intersection, difference and selection of an interval return the strictly sorted list of exactly
  those elements, a copy has the same elements when there is one cell more than the set has
  elements, the comparison decides equality of sets, and membership is membership.\<close>

theorem listSet_algebra:
  assumes "sorted_wrt (<) a" "sorted_wrt (<) b" "\<forall>x\<in>set a. 0 \<le> x"
  shows "fst (listSetIntersect a b p) = filter (\<lambda>x. x \<in> set b) a \<and>
    fst (listSetSub a b p) = filter (\<lambda>x. x \<notin> set b) a \<and>
    fst (listSetSelect start stop a p) = filter (\<lambda>x. start \<le> x \<and> x \<le> stop) a \<and>
    (listSetEqual a b \<longleftrightarrow> set a = set b) \<and> (listSetMember x a \<longleftrightarrow> x \<in> set a) \<and>
    (length a < FreeSet p + fresh p \<longrightarrow> fst (listSetDuplicate a p) = a)"
proof (intro conjI impI)
  show "fst (listSetIntersect a b p) = filter (\<lambda>x. x \<in> set b) a"
    using intersect_mark_filter [OF assms] by (simp add: listSetIntersect_def sweep_eq)
  show "fst (listSetSub a b p) = filter (\<lambda>x. x \<notin> set b) a"
    using sub_mark_filter [OF assms] by (auto simp: listSetSub_def sweep_eq)
  have "listSetEqual u v \<longleftrightarrow> u = v" for u v by (induction u v rule: listSetEqual.induct) auto
  then show "listSetEqual a b \<longleftrightarrow> set a = set b"
    using strict_sorted_equal [OF assms(1,2)] by metis
  assume room: "length a < FreeSet p + fresh p"
  then have "0 < FreeSet p + fresh p" by linarith
  then obtain p1 where p1: "listSetAlloc p = Some p1" by (rule alloc_room)
  then obtain acc q where "dup_cells [- 1] a p1 = Inl (acc, q)"
    using dup_cells_room [of a p1 "[- 1]"] alloc_count [OF p1] room by auto
  then show "fst (listSetDuplicate a p) = a"
    using p1 dup_cells_eq [of "[- 1]" a p1 acc q] by (simp add: listSetDuplicate_def)
qed (simp_all add: select_sorted [OF assms(1)])

theorem listSet_algebra_witness:
  "fst (listSetIntersect [2, 5, 9] [5, 7, 9] \<lparr>FreeSet = 0, fresh = 4\<rparr>) = [5, 9] \<and>
   fst (listSetDuplicate [2, 5, 9] \<lparr>FreeSet = 0, fresh = 4\<rparr>) = [2, 5, 9]"
  using listSet_algebra [of "[2, 5, 9]" "[5, 7, 9]" "\<lparr>FreeSet = 0, fresh = 4\<rparr>" 0 0 0] by simp

text \<open>A set that is filled with a sequence of values, as the dependency parser fills the list of the
  jobs a condition waits for, is strictly sorted and holds exactly the values, whatever their order
  and multiplicity, as long as there is a cell for each insertion; deleting the values again gives
  back the set.\<close>

theorem listSet_fill:
  fixes s :: "int list \<times> cells"
  assumes "sorted_wrt (<) (fst s)" "length xs \<le> FreeSet (snd s) + fresh (snd s)"
  defines "ins \<equiv> \<lambda>x t. listSetInsert x (fst t) (snd t)" and "del \<equiv> \<lambda>x t. listSetDel x (fst t) (snd t)"
  shows "sorted_wrt (<) (fst (fold ins xs s)) \<and> set (fst (fold ins xs s)) = set (fst s) \<union> set xs \<and>
    (set (fst s) \<inter> set xs = {} \<longrightarrow> fst (fold del xs (fold ins xs s)) = fst s)"
proof -
  have ok: "set_ok s" "length xs \<le> cells_left s" using assms(1,2) by (simp_all add: set_ok_def cells_left_def)
  note fill = ls.ins_all [OF ok, folded ins_def]
  moreover have "fst (fold del xs (fold ins xs s)) = fst s" if "set (fst s) \<inter> set xs = {}"
  proof (rule strict_sorted_equal)
    show "sorted_wrt (<) (fst s)" by (fact assms(1))
    show "sorted_wrt (<) (fst (fold del xs (fold ins xs s)))"
      using ls.del_all [folded del_def, of "fold ins xs s" xs] fill by (simp add: set_ok_def)
    show "set (fst (fold del xs (fold ins xs s))) = set (fst s)"
      using ls.ins_del_cancel [folded ins_def del_def, OF ok that] by simp
  qed
  ultimately show ?thesis by (simp add: set_ok_def)
qed

theorem listSet_fill_witness:
  "set (fst (fold (\<lambda>x t. listSetInsert x (fst t) (snd t)) [7, 3, 7, 1] ([], \<lparr>FreeSet = 1, fresh = 3\<rparr>))) = {1, 3, 7}"
  using listSet_fill [of "([], \<lparr>FreeSet = 1, fresh = 3\<rparr>)" "[7, 3, 7, 1]"] by auto

text \<open>No cell is lost: union, intersection, difference, selection and deletion leave as many cells
  in the result and with the allocator as there were before, an insertion as well when it finds a
  cell, and a copy takes exactly the cells of the copy. Only an insertion without a free cell loses
  the cells of its set.\<close>

theorem listSet_cells:
  "cell_total (listSetUnion a b p) =
      (if FreeSet p + fresh p = 0 then length a + length b else length a + cell_total (b, p)) \<and>
    cell_total (listSetIntersect a b p) = length a + cell_total (b, p) \<and>
    cell_total (listSetSub a b p) = (if a \<noteq> [] \<and> b = [] then cell_total (a, p) else length a + cell_total (b, p)) \<and>
    cell_total (listSetSelect start stop a p) = cell_total (a, p) \<and>
    cell_total (listSetDel x a p) = cell_total (a, p) \<and>
    cell_total (listSetDuplicate a p) = cell_total ([], p) \<and>
    cell_total (listSetInsert x a p) = (if x \<notin> set a \<and> FreeSet p + fresh p = 0 then 0 else cell_total (a, p))"
proof (intro conjI)
  have neg: "length (filter (\<lambda>e. \<not> e < 0) xs) + length (filter (\<lambda>e. e < 0) xs) = length xs" for xs :: "int list"
    using sum_length_filter_compl [of "\<lambda>e. e < 0" xs] by simp
  show "cell_total (listSetUnion a b p) =
      (if FreeSet p + fresh p = 0 then length a + length b else length a + cell_total (b, p))"
    using alloc_None [of p] alloc_count [of p] arg_cong [OF union_loop_mset [of a b], of size]
    by (auto simp: cell_total_def listSetUnion_def listSetFree_def split: option.split)
  show "cell_total (listSetIntersect a b p) = length a + cell_total (b, p)"
    using neg [of "intersect_mark a b"]
    by (simp add: cell_total_def listSetIntersect_def sweep_eq listSetFree_def mark_length)
  show "cell_total (listSetSub a b p) = (if a \<noteq> [] \<and> b = [] then cell_total (a, p) else length a + cell_total (b, p))"
    using neg [of "sub_mark a b"] by (auto simp: cell_total_def listSetSub_def sweep_eq listSetFree_def mark_length)
  have "low \<le> i \<Longrightarrow> up \<le> i \<Longrightarrow> low \<le> up \<Longrightarrow> fst (select_scan start stop i low up xs) \<le> snd (select_scan start stop i low up xs) \<and>
      snd (select_scan start stop i low up xs) \<le> i + length xs" for i low up xs
    by (induction start stop i low up xs rule: select_scan.induct) auto
  from this [of 0 0 0 a] show "cell_total (listSetSelect start stop a p) = cell_total (a, p)"
    by (auto simp: cell_total_def listSetSelect_def listSetFree_def Let_def split: prod.split)
  have "length (fst (del_tail x xs)) + snd (del_tail x xs) = length xs" for xs
    by (induction x xs rule: del_tail.induct) (auto split: prod.splits)
  from this [of a] show "cell_total (listSetDel x a p) = cell_total (a, p)"
    by (auto simp: cell_total_def listSetDel_def listSetFree_def split: list.split prod.split)
  show "cell_total (listSetDuplicate a p) = cell_total ([], p)"
    using alloc_count [of p] dup_cells_eq [of "[- 1]" a] dup_cells_fail [of "[- 1]" a]
    by (fastforce simp: cell_total_def listSetDuplicate_def listSetFree_def split: option.split sum.split prod.split)
  have "xs \<noteq> [] \<Longrightarrow> length (insert_tail x xs) = Suc (length xs)" for xs
    by (induction x xs rule: insert_tail.induct) auto
  then show "cell_total (listSetInsert x a p) = (if x \<notin> set a \<and> FreeSet p + fresh p = 0 then 0 else cell_total (a, p))"
    using alloc_None [of p] alloc_count [of p]
    by (auto simp: cell_total_def listSetInsert_def split: option.split list.split)
qed

text \<open>C38. The union of two sets is the sorted merge of both lists, so that a common element occurs
  twice: it is not a set, and deleting the element leaves the other copy.\<close>

theorem listSetUnion_duplicates:
  "(0 < FreeSet p + fresh p \<longrightarrow> mset (fst (listSetUnion a b p)) = mset a + mset b) \<and>
   (sorted a \<and> sorted b \<longrightarrow> sorted (fst (listSetUnion a b p))) \<and>
   listSetMember 4 (fst (listSetDel 4 (fst (listSetUnion [4] [4] \<lparr>FreeSet = 0, fresh = 1\<rparr>)) p))"
  using alloc_None [of p] union_loop_mset union_loop_sorted
  by (auto simp: listSetUnion_def listSetAlloc_def listSetDel_def split: option.split)

theorem listSetUnion_duplicates_witness:
  "mset (fst (listSetUnion [1, 4] [4, 6] \<lparr>FreeSet = 1, fresh = 0\<rparr>)) = {#1, 4, 4, 6#}"
  using listSetUnion_duplicates [of "\<lparr>FreeSet = 1, fresh = 0\<rparr>" "[1, 4]" "[4, 6]"] by simp

end
