(* ===== verification/Dep_Cond.thy ===== *)
theory Dep_Cond
  imports Job_Status Job_Array Time_Window List_Set
begin

text \<open>
  Dependency conditions of jobs (\<open>lsbatch/daemons/mbd.dep.c\<close>): the condition tree and its evaluation.

  Jobs are referenced by address; \<open>None\<close> as the result of an operation means that it follows a
  \<open>NULL\<close> or dangling pointer or does not return. A node keeps the value of its last evaluation. The
  reference counts of jobs and index lists are not part of the model.
\<close>

subsection \<open>Data\<close>

datatype dptType = DPT_AND | DPT_OR | DPT_NOT | DPT_LEFT | DPT_RIGHT | DPT_DONE | DPT_EXIT | DPT_STARTED
  | DPT_NAME | DPT_ENDED | DPT_NUMPEND | DPT_NUMHOLD | DPT_NUMRUN | DPT_NUMEXIT | DPT_NUMDONE | DPT_NUMSTART
  | DPT_NUMENDED | DPT_COMMA | DPT_GT | DPT_GE | DPT_LT | DPT_LE | DPT_EQ | DPT_NE | DPT_POST_DONE
  | DPT_POST_ERR | DPT_TRUE | DPT_WINDOW

datatype dpval = DP_REJECT | DP_INVALID | DP_FALSE | DP_TRUE

instantiation dpval :: linorder
begin

fun dp_rank :: "dpval \<Rightarrow> nat" where
  "dp_rank DP_REJECT = 0" | "dp_rank DP_INVALID = 1" | "dp_rank DP_FALSE = 2" | "dp_rank DP_TRUE = 3"

definition less_eq_dpval :: "dpval \<Rightarrow> dpval \<Rightarrow> bool" where
  "less_eq_dpval a b \<longleftrightarrow> dp_rank a \<le> dp_rank b"

definition less_dpval :: "dpval \<Rightarrow> dpval \<Rightarrow> bool" where
  "less_dpval a b \<longleftrightarrow> dp_rank a < dp_rank b"

instance
proof
  fix a b :: dpval
  show "a \<le> b \<Longrightarrow> b \<le> a \<Longrightarrow> a = b" by (cases a; cases b) (simp_all add: less_eq_dpval_def)
qed (auto simp: less_eq_dpval_def less_dpval_def)

end

record djob =
  d_jobId :: lsb_jobid
  d_array :: bool
  d_elements :: "int list"
  d_status :: jstatus
  d_endTime :: c_time
  d_startTime :: c_time
  d_exitStatus :: int
  d_lastrunSucc :: bool
  d_user :: string
  d_jobName :: string
  d_submitTime :: c_time
  d_jgrp :: "int option"

record jgArrayBase =
  jg_void :: bool
  jg_counts :: "nat \<Rightarrow> int"

abbreviation (input) JGRP_COUNT_NJOBS :: nat where "JGRP_COUNT_NJOBS \<equiv> 0"
abbreviation (input) JGRP_COUNT_PEND :: nat where "JGRP_COUNT_PEND \<equiv> 1"
abbreviation (input) JGRP_COUNT_NPSUSP :: nat where "JGRP_COUNT_NPSUSP \<equiv> 2"
abbreviation (input) JGRP_COUNT_NRUN :: nat where "JGRP_COUNT_NRUN \<equiv> 3"
abbreviation (input) JGRP_COUNT_NEXIT :: nat where "JGRP_COUNT_NEXIT \<equiv> 6"
abbreviation (input) JGRP_COUNT_NDONE :: nat where "JGRP_COUNT_NDONE \<equiv> 7"

record jobIdx =
  ji_idxList :: "idxList list option"
  ji_depJobList :: "int list"

text \<open>
  The condition tree. \<open>Opr\<close> is a node with two operands: a conjunction, a disjunction, or an unmatched
  parenthesis that the final merge takes for an operator.
\<close>

datatype dptNode =
    Opr dptType (val: dpval) dptNode dptNode
  | NotN (val: dpval) dptNode
  | JobN dptType (val: dpval) dptType int bool "int option" "jobIdx option"
  | WinN (val: dpval) timeWindow
  | JgrpN dptType (val: dpval) dptType int "int option"

text \<open>What the daemon knows when a condition is parsed or evaluated.\<close>

record dep_env =
  jobs :: "int \<rightharpoonup> djob"
  jobIdHT :: "lsb_jobid \<rightharpoonup> int"
  groupRoot :: "int list option"
  jgrps :: "int \<rightharpoonup> jgArrayBase"
  jobDepLastSub :: bool
  idxContext :: "idxList list option"
  replay :: bool
  maxArraySize :: int
  time_now :: c_time
  time_zone :: "c_time \<Rightarrow> int"
  beyondPrece :: int

definition getJobData :: "dep_env \<Rightarrow> lsb_jobid \<Rightarrow> int option" where
  "getJobData env jobId = (if sint jobId \<le> 0 then None else jobIdHT env jobId)"

subsection \<open>Evaluation\<close>

definition opExpr :: "dptType \<Rightarrow> int \<Rightarrow> int \<Rightarrow> bool" where
  "opExpr opType operand1 operand2 =
     (case opType of
        DPT_LT \<Rightarrow> operand1 < operand2
      | DPT_LE \<Rightarrow> operand1 \<le> operand2
      | DPT_GT \<Rightarrow> operand1 > operand2
      | DPT_GE \<Rightarrow> operand1 \<ge> operand2
      | DPT_EQ \<Rightarrow> operand1 = operand2
      | DPT_NE \<Rightarrow> operand1 \<noteq> operand2
      | DPT_TRUE \<Rightarrow> True
      | _ \<Rightarrow> False)"

definition getCounterOfDep :: "dptType \<Rightarrow> (nat \<Rightarrow> int) \<Rightarrow> int" where
  "getCounterOfDep type counts =
     (case type of
        DPT_NUMPEND \<Rightarrow> counts JGRP_COUNT_PEND
      | DPT_NUMRUN \<Rightarrow> counts JGRP_COUNT_NRUN
      | DPT_NUMHOLD \<Rightarrow> counts JGRP_COUNT_NPSUSP
      | DPT_NUMEXIT \<Rightarrow> counts JGRP_COUNT_NEXIT
      | DPT_NUMDONE \<Rightarrow> counts JGRP_COUNT_NDONE
      | DPT_NUMSTART \<Rightarrow> counts JGRP_COUNT_NJOBS - counts JGRP_COUNT_PEND - counts JGRP_COUNT_NPSUSP
      | DPT_NUMENDED \<Rightarrow> counts JGRP_COUNT_NEXIT + counts JGRP_COUNT_NDONE
      | _ \<Rightarrow> 0)"

definition ended_after :: "djob option \<Rightarrow> c_time \<Rightarrow> bool" where
  "ended_after depJob t \<longleftrightarrow> (case depJob of None \<Rightarrow> True | Some d \<Rightarrow> d_endTime d < t)"

definition evalJobDep :: "dptType \<Rightarrow> dptType \<Rightarrow> int \<Rightarrow> djob \<Rightarrow> djob option \<Rightarrow> bool" where
  "evalJobDep type opTy code jpbw depJob =
     (case type of
        DPT_DONE \<Rightarrow>
          ended_after depJob (d_endTime jpbw) \<and>
          (flag (d_status jpbw) JOB_STAT_DONE \<or> IS_PEND (d_status jpbw) \<and> d_lastrunSucc jpbw)
      | DPT_POST_DONE \<Rightarrow>
          ended_after depJob (d_endTime jpbw) \<and> IS_POST_DONE (d_status jpbw) \<and> flag (d_status jpbw) JOB_STAT_DONE
      | DPT_POST_ERR \<Rightarrow>
          ended_after depJob (d_endTime jpbw) \<and> IS_POST_ERR (d_status jpbw) \<and> flag (d_status jpbw) JOB_STAT_DONE
      | DPT_EXIT \<Rightarrow>
          ended_after depJob (d_endTime jpbw) \<and> opExpr opTy (d_exitStatus jpbw div 256) code \<and>
          (IS_FINISH (d_status jpbw) \<or> IS_PEND (d_status jpbw) \<and> \<not> d_lastrunSucc jpbw) \<and>
          \<not> flag (d_status jpbw) JOB_STAT_DONE
      | DPT_ENDED \<Rightarrow>
          ended_after depJob (d_endTime jpbw) \<and> (IS_FINISH (d_status jpbw) \<or> IS_PEND (d_status jpbw))
      | DPT_STARTED \<Rightarrow>
          d_startTime jpbw \<noteq> 0 \<and> ended_after depJob (d_startTime jpbw) \<and> \<not> flag (d_status jpbw) JOB_STAT_PRE_EXEC
      | _ \<Rightarrow> False)"

text \<open>An unsatisfied condition on a job that can no longer become satisfied.\<close>

definition never_satisfied :: "dptType \<Rightarrow> djob \<Rightarrow> bool" where
  "never_satisfied type jpbw \<longleftrightarrow>
     flag (d_status jpbw) JOB_STAT_VOID \<or>
     IS_FINISH (d_status jpbw) \<and>
       \<not> (\<not> IS_POST_FINISH (d_status jpbw) \<and> flag (d_status jpbw) JOB_STAT_DONE \<and>
          (type = DPT_POST_DONE \<or> type = DPT_POST_ERR))"

text \<open>The jobs the loop of a job node visits.\<close>

definition one_to_one_job :: "dep_env \<Rightarrow> int \<Rightarrow> int list \<Rightarrow> int option" where
  "one_to_one_job env arrayIdx dep =
     (if dep = [] then None
      else (case find (\<lambda>a. case jobs env a of None \<Rightarrow> True | Some j \<Rightarrow> arrayIdx = LSB_ARRAY_IDX (d_jobId j)) dep of
          Some a \<Rightarrow> Some a
        | None \<Rightarrow> Some (last dep)))"

definition visited_jobs ::
  "dep_env \<Rightarrow> djob option \<Rightarrow> bool \<Rightarrow> int \<Rightarrow> jobIdx option \<Rightarrow> (dpval + int list) option" where
  "visited_jobs env jobRec oneToOne a idx =
     (case jobs env a of
        None \<Rightarrow> None
      | Some j \<Rightarrow>
          if \<not> d_array j then Some (Inr [a])
          else if idx \<noteq> None \<and> ji_depJobList (the idx) \<noteq> [] \<and> \<not> oneToOne
            then Some (Inr (ji_depJobList (the idx)))
          else if oneToOne then
            (case jobRec of
               None \<Rightarrow> None
             | Some r \<Rightarrow>
                 (case getJobData env (LSB_JOBID (sint (d_jobId j)) (LSB_ARRAY_IDX (d_jobId r))) of
                    Some b \<Rightarrow> Some (Inr [b])
                  | None \<Rightarrow>
                      (case idx of
                         None \<Rightarrow> Some (Inl DP_INVALID)
                       | Some ji \<Rightarrow>
                           map_option (\<lambda>b. Inr [b])
                             (one_to_one_job env (LSB_ARRAY_IDX (d_jobId r)) (ji_depJobList ji)))))
          else Some (Inr (d_elements j)))"

fun job_loop ::
  "dep_env \<Rightarrow> dptType \<Rightarrow> dptType \<Rightarrow> int \<Rightarrow> bool \<Rightarrow> jobIdx option \<Rightarrow> djob option \<Rightarrow> int list \<Rightarrow> dpval \<Rightarrow>
   dpval option" where
  "job_loop env type opTy code oneToOne idx jobRec [] v = Some v"
| "job_loop env type opTy code oneToOne idx jobRec (a # as) v =
     (case jobs env a of
        None \<Rightarrow> None
      | Some j \<Rightarrow>
          if idx \<noteq> None \<and> \<not> inIdxList (d_jobId j) (ji_idxList (the idx)) \<and> \<not> oneToOne
          then job_loop env type opTy code oneToOne idx jobRec as v
          else if evalJobDep type opTy code j jobRec
            then job_loop env type opTy code oneToOne idx jobRec as DP_TRUE
          else if never_satisfied type j then Some DP_INVALID
          else Some DP_FALSE)"

definition eval_job ::
  "dep_env \<Rightarrow> djob option \<Rightarrow> dptType \<Rightarrow> dpval \<Rightarrow> dptType \<Rightarrow> int \<Rightarrow> bool \<Rightarrow> int option \<Rightarrow> jobIdx option \<Rightarrow>
   dpval option" where
  "eval_job env jobRec type v opTy code oneToOne job idx =
     (case job of
        None \<Rightarrow> Some DP_INVALID
      | Some a \<Rightarrow>
          (case visited_jobs env jobRec oneToOne a idx of
             None \<Rightarrow> None
           | Some (Inl w) \<Rightarrow> Some w
           | Some (Inr as) \<Rightarrow> job_loop env type opTy code oneToOne idx jobRec as v))"

text \<open>The value of a group node and the group it refers to afterwards.\<close>

definition eval_jgrp :: "dep_env \<Rightarrow> dptType \<Rightarrow> dptType \<Rightarrow> int \<Rightarrow> int option \<Rightarrow> (dpval \<times> int option) option" where
  "eval_jgrp env type opTy n grp =
     (case grp of
        None \<Rightarrow> Some (DP_INVALID, None)
      | Some g \<Rightarrow>
          (case jgrps env g of
             None \<Rightarrow> None
           | Some b \<Rightarrow>
               if jg_void b then Some (DP_INVALID, None)
               else
                 let njobs = jg_counts b JGRP_COUNT_NJOBS;
                     num = (if n = INFINIT_INT then (if njobs \<le> 0 then INFINIT_INT else njobs) else n)
                 in Some (if opExpr opTy (getCounterOfDep type (jg_counts b)) num then DP_TRUE else DP_FALSE,
                          Some g)))"

definition set_val :: "dpval \<Rightarrow> dptNode \<Rightarrow> dptNode" where
  "set_val v node =
     (case node of
        Opr t _ l r \<Rightarrow> Opr t v l r
      | NotN _ n \<Rightarrow> NotN v n
      | JobN t _ op ec fl j idx \<Rightarrow> JobN t v op ec fl j idx
      | WinN _ w \<Rightarrow> WinN v w
      | JgrpN t _ op n g \<Rightarrow> JgrpN t v op n g)"

fun evalDepCond :: "dep_env \<Rightarrow> djob option \<Rightarrow> dptNode \<Rightarrow> dptNode option" where
  "evalDepCond env jobRec (Opr t v l r) =
     (if t = DPT_OR then do {
        l' \<leftarrow> evalDepCond env jobRec l;
        if val l' = DP_REJECT \<or> val l' = DP_TRUE then Some (Opr t (val l') l' r)
        else do {
          r' \<leftarrow> evalDepCond env jobRec r;
          Some (Opr t (if val l' = DP_FALSE then (if val r' = DP_REJECT \<or> val r' = DP_TRUE then val r' else DP_FALSE)
                       else val r') l' r')
        }
      }
      else if t = DPT_AND then do {
        l' \<leftarrow> evalDepCond env jobRec l;
        if val l' = DP_INVALID \<or> val l' = DP_REJECT then Some (Opr t (val l') l' r)
        else do {
          r' \<leftarrow> evalDepCond env jobRec r;
          Some (Opr t (if val l' = DP_FALSE
                       then (if val r' = DP_INVALID \<or> val r' = DP_REJECT then val r' else DP_FALSE)
                       else val r') l' r')
        }
      }
      else Some (Opr t v l r))"
| "evalDepCond env jobRec (NotN v n) = do {
     n' \<leftarrow> evalDepCond env jobRec n;
     Some (NotN (if val n' = DP_REJECT then DP_REJECT
                 else if val n' = DP_FALSE \<or> val n' = DP_INVALID then DP_TRUE else DP_FALSE) n')
   }"
| "evalDepCond env jobRec (JobN t v op ec fl j idx) =
     map_option (\<lambda>w. JobN t w op ec fl j idx) (eval_job env jobRec t v op ec fl j idx)"
| "evalDepCond env jobRec (WinN v w) =
     (let w' = updateTimeWindow (time_zone env) (time_now env) w
      in Some (WinN (if w_open w' then DP_TRUE else DP_FALSE) w'))"
| "evalDepCond env jobRec (JgrpN t v op n g) =
     map_option (\<lambda>(w, g'). JgrpN t w op n g') (eval_jgrp env t op n g)"

fun resetDepCond :: "dptNode \<Rightarrow> dptNode" where
  "resetDepCond (Opr t v l r) =
     (if t = DPT_AND \<or> t = DPT_OR then Opr t DP_FALSE (resetDepCond l) (resetDepCond r)
      else Opr t DP_FALSE l r)"
| "resetDepCond (NotN v n) = NotN DP_FALSE (resetDepCond n)"
| "resetDepCond n = set_val DP_FALSE n"

subsection \<open>The value of a condition\<close>

lemma dpval_less: "DP_REJECT < DP_INVALID" "DP_INVALID < DP_FALSE" "DP_FALSE < DP_TRUE"
  by (simp_all add: less_dpval_def)

lemmas dpval_order = less_eq_dpval_def less_dpval_def min_def max_def

text \<open>The value of a leaf, and of a tree over the order invalid, false, true.\<close>

fun truth :: "dep_env \<Rightarrow> djob option \<Rightarrow> dptNode \<Rightarrow> dpval option" where
  "truth env jobRec (Opr t v l r) =
     (case (truth env jobRec l, truth env jobRec r) of
        (Some a, Some b) \<Rightarrow> if t = DPT_OR then Some (max a b) else if t = DPT_AND then Some (min a b) else Some v
      | _ \<Rightarrow> None)"
| "truth env jobRec (NotN v n) =
     map_option (\<lambda>a. if a = DP_TRUE then DP_FALSE else DP_TRUE) (truth env jobRec n)"
| "truth env jobRec n = map_option val (evalDepCond env jobRec n)"

fun no_reject :: "dptNode \<Rightarrow> bool" where
  "no_reject (Opr t v l r) \<longleftrightarrow> v \<noteq> DP_REJECT \<and> no_reject l \<and> no_reject r"
| "no_reject (NotN v n) \<longleftrightarrow> v \<noteq> DP_REJECT \<and> no_reject n"
| "no_reject n \<longleftrightarrow> val n \<noteq> DP_REJECT"

lemma job_loop_no_reject:
  "job_loop env t op c fl idx jr as v = Some w \<Longrightarrow> v \<noteq> DP_REJECT \<Longrightarrow> w \<noteq> DP_REJECT"
  by (induction as arbitrary: v) (auto split: option.splits if_splits)

lemma eval_job_no_reject:
  "eval_job env jr t v op c fl j idx = Some w \<Longrightarrow> v \<noteq> DP_REJECT \<Longrightarrow> w \<noteq> DP_REJECT"
  by (auto simp: eval_job_def visited_jobs_def split: option.splits sum.splits if_splits
      dest: job_loop_no_reject)

lemma eval_no_reject: "evalDepCond env jr n = Some n' \<Longrightarrow> no_reject n \<Longrightarrow> no_reject n' \<and> val n' \<noteq> DP_REJECT"
proof (induction n arbitrary: n')
  case (Opr t v l r)
  then show ?case by (fastforce split: if_splits bind_splits)
next
  case (JobN t v op c fl j idx)
  then show ?case by (auto dest: eval_job_no_reject)
qed (auto simp: Let_def eval_jgrp_def split: bind_splits option.splits if_splits)

lemma eval_truth:
  assumes "no_reject n" and "truth env jr n = Some w"
  shows "\<exists>n'. evalDepCond env jr n = Some n' \<and> val n' = w"
  using assms
proof (induction n arbitrary: w)
  case (Opr t v l r)
  then obtain a b where ab: "truth env jr l = Some a" "truth env jr r = Some b"
    by (auto split: option.splits)
  then obtain l' r' where "evalDepCond env jr l = Some l'" "val l' = a" "evalDepCond env jr r = Some r'" "val r' = b"
    using Opr by fastforce
  moreover have "a \<noteq> DP_REJECT" "b \<noteq> DP_REJECT"
    using calculation eval_no_reject Opr.prems(1) by auto
  ultimately show ?case using Opr.prems(2) ab by (cases a; cases b) (auto simp: dpval_order)
next
  case (NotN v n)
  then obtain a n' where "truth env jr n = Some a" "evalDepCond env jr n = Some n'" "val n' = a" by auto
  moreover have "a \<noteq> DP_REJECT" using calculation eval_no_reject NotN.prems(1) by auto
  ultimately show ?case using NotN.prems(2) by (cases a) auto
qed auto

lemma updateTimeWindow_idem:
  "updateTimeWindow tz now (updateTimeWindow tz now w) = updateTimeWindow tz now w"
  by (auto simp: updateTimeWindow_def Let_def split: prod.splits)


lemma job_loop_idem: "job_loop env t op c fl idx jr as v = Some w \<Longrightarrow> job_loop env t op c fl idx jr as w = Some w"
  by (induction as arbitrary: v) (auto split: option.splits if_splits)

lemma eval_idem: "evalDepCond env jr n = Some n' \<Longrightarrow> evalDepCond env jr n' = Some n'"
proof (induction n arbitrary: n')
  case (Opr t v l r)
  show ?case
  proof (cases "t = DPT_OR \<or> t = DPT_AND")
    case True
    then obtain l' where l': "evalDepCond env jr l = Some l'" using Opr.prems by (auto split: bind_splits)
    note left = l' Opr.IH(1) [OF l']
    show ?thesis
    proof (cases "evalDepCond env jr r")
      case None
      then show ?thesis using Opr.prems True left by (auto split: if_splits)
    next
      case (Some r')
      show ?thesis using Opr.prems True left Some Opr.IH(2) [OF Some] by (auto split: if_splits)
    qed
  qed (use Opr.prems in auto)
next
  case (JobN t v op c fl j idx)
  then show ?case by (auto simp: eval_job_def split: option.splits sum.splits dest: job_loop_idem)
next
  case (WinN v w)
  then show ?case by (auto simp: Let_def updateTimeWindow_idem)
next
  case (JgrpN t v op k g)
  then show ?case by (auto simp: eval_jgrp_def Let_def split: option.splits if_splits)
qed (auto split: bind_splits)

text \<open>An environment for examples: job 7 ran and is done, array 5 has the elements 1 (done) and 3 (running).\<close>

definition ex_job :: "lsb_jobid \<Rightarrow> jstatus \<Rightarrow> c_time \<Rightarrow> djob" where
  "ex_job i st e =
     \<lparr>d_jobId = i, d_array = False, d_elements = [], d_status = st, d_endTime = e, d_startTime = 50,
      d_exitStatus = 0, d_lastrunSucc = False, d_user = ''ann'', d_jobName = ''a'', d_submitTime = 10, d_jgrp = None\<rparr>"

definition ex_array :: djob where
  "ex_array = (ex_job 5 JOB_STAT_PEND 0)\<lparr>d_array := True, d_elements := [101, 103], d_jobName := ''a[1-3]'', d_jgrp := Some 900\<rparr>"

definition ex_env :: dep_env where
  "ex_env =
     \<lparr>jobs = [107 \<mapsto> ex_job 7 JOB_STAT_DONE 100, 105 \<mapsto> ex_array,
              101 \<mapsto> ex_job (LSB_JOBID 5 1) JOB_STAT_DONE 100, 103 \<mapsto> ex_job (LSB_JOBID 5 3) JOB_STAT_RUN 0],
      jobIdHT = [7 \<mapsto> 107, 5 \<mapsto> 105, LSB_JOBID 5 1 \<mapsto> 101, LSB_JOBID 5 3 \<mapsto> 103],
      groupRoot = Some [107, 105], jgrps = [900 \<mapsto> \<lparr>jg_void = False, jg_counts = (\<lambda>_. 0)(0 := 2, 3 := 1, 7 := 1)\<rparr>],
      jobDepLastSub = False, idxContext = None, replay = False, maxArraySize = 1000, time_now = 1000, time_zone = (\<lambda>_. 0),
      beyondPrece = 0\<rparr>"

lemmas ex_defs = ex_env_def ex_array_def ex_job_def

text \<open>C3. The evaluation of a condition is the three-valued logic over invalid < false < true: a
  disjunction takes the maximum of its operands, a conjunction the minimum, a negation is true unless
  its operand is, although the code only evaluates the right operand where it has to. The tree that
  is left behind carries that value, and evaluating it again at the same time changes nothing.\<close>

theorem evalDepCond_three_valued:
  assumes "no_reject n" and "truth env jobRec n = Some w"
  shows "\<exists>n'. evalDepCond env jobRec n = Some n' \<and> val n' = w \<and> no_reject n' \<and> evalDepCond env jobRec n' = Some n'"
  using eval_truth [OF assms] eval_no_reject [OF _ assms(1)] eval_idem by blast

theorem evalDepCond_three_valued_witness:
  "\<exists>n'. evalDepCond ex_env None
      (Opr DPT_OR DP_FALSE (JobN DPT_DONE DP_FALSE DPT_AND 0 False None None)
        (Opr DPT_AND DP_FALSE (JobN DPT_DONE DP_FALSE DPT_AND 0 False (Some 107) None)
          (JobN DPT_ENDED DP_FALSE DPT_AND 0 False (Some 105) None))) = Some n' \<and> val n' = DP_FALSE"
  using evalDepCond_three_valued
    [of "Opr DPT_OR DP_FALSE (JobN DPT_DONE DP_FALSE DPT_AND 0 False None None)
        (Opr DPT_AND DP_FALSE (JobN DPT_DONE DP_FALSE DPT_AND 0 False (Some 107) None)
          (JobN DPT_ENDED DP_FALSE DPT_AND 0 False (Some 105) None))" ex_env None DP_FALSE]
  by (auto simp: ex_defs eval_job_def visited_jobs_def evalJobDep_def ended_after_def never_satisfied_def
      status_class_defs flag_def dpval_order)

text \<open>The conditions on one job are related as their names say: \<open>ended\<close> is \<open>done\<close> or \<open>exit\<close>; not both
  hold unless the job is pending and exited at once; a post-processing condition implies \<open>done\<close>; an
  exit condition with \<open><\<close>, \<open>==\<close> and \<open>>\<close> splits \<open>exit\<close>; and, except for \<open>started\<close>, a condition needs a
  job that ended after the dependent job last did.\<close>

theorem evalJobDep_laws:
  "(evalJobDep DPT_ENDED op c j d \<longleftrightarrow> evalJobDep DPT_DONE op c j d \<or> evalJobDep DPT_EXIT DPT_TRUE 0 j d) \<and>
    (evalJobDep DPT_DONE op c j d \<and> evalJobDep DPT_EXIT op c j d \<longrightarrow>
       IS_PEND (d_status j) \<and> flag (d_status j) JOB_STAT_EXIT) \<and>
    (evalJobDep DPT_POST_DONE op c j d \<or> evalJobDep DPT_POST_ERR op c j d \<longrightarrow> evalJobDep DPT_DONE op c j d) \<and>
    (evalJobDep DPT_EXIT DPT_TRUE c j d \<longleftrightarrow>
       evalJobDep DPT_EXIT DPT_LT c j d \<or> evalJobDep DPT_EXIT DPT_EQ c j d \<or> evalJobDep DPT_EXIT DPT_GT c j d) \<and>
    (d = Some dep \<and> t \<noteq> DPT_STARTED \<and> evalJobDep t op c j d \<longrightarrow> d_endTime dep < d_endTime j)"
proof (intro conjI)
  show "d = Some dep \<and> t \<noteq> DPT_STARTED \<and> evalJobDep t op c j d \<longrightarrow> d_endTime dep < d_endTime j"
    by (cases t) (auto simp: evalJobDep_def ended_after_def)
qed (auto simp: evalJobDep_def IS_FINISH_def opExpr_def)

theorem evalJobDep_laws_witness:
  "evalJobDep DPT_ENDED DPT_AND 0 (ex_job 7 JOB_STAT_DONE 100) (Some (ex_job 8 JOB_STAT_PEND 0)) \<and>
    d_endTime (ex_job 8 JOB_STAT_PEND 0) < d_endTime (ex_job 7 JOB_STAT_DONE 100)"
  using evalJobDep_laws [of DPT_AND 0 "ex_job 7 JOB_STAT_DONE 100" "Some (ex_job 8 JOB_STAT_PEND 0)"
      "ex_job 8 JOB_STAT_PEND 0" DPT_ENDED]
  by (simp add: evalJobDep_def ended_after_def ex_job_def IS_FINISH_def flag_def)



text \<open>C39. When a job array depends one to one on another array whose corresponding element is gone, the
  dependency is not invalid: the code falls through to the last element of the recorded list and
  waits for that one instead.\<close>

theorem one_to_one_missing:
  assumes "jobs env a = Some A" and "d_array A"
    and "getJobData env (LSB_JOBID (sint (d_jobId A)) (LSB_ARRAY_IDX (d_jobId r))) = None"
    and "ji_depJobList ji = bs @ [b]" and "jobs env b = Some B"
    and "\<forall>x\<in>set (bs @ [b]). \<exists>j. jobs env x = Some j \<and> LSB_ARRAY_IDX (d_jobId j) \<noteq> LSB_ARRAY_IDX (d_jobId r)"
  shows "evalDepCond env (Some r) (JobN t v op c True (Some a) (Some ji)) =
     Some (JobN t (if evalJobDep t op c B (Some r) then DP_TRUE
                   else if never_satisfied t B then DP_INVALID else DP_FALSE) op c True (Some a) (Some ji))"
proof -
  have "find (\<lambda>x. case jobs env x of None \<Rightarrow> True | Some j \<Rightarrow> LSB_ARRAY_IDX (d_jobId r) = LSB_ARRAY_IDX (d_jobId j))
      (bs @ [b]) = None"
    using assms(6) by (force simp: find_None_iff)
  then have "one_to_one_job env (LSB_ARRAY_IDX (d_jobId r)) (ji_depJobList ji) = Some b"
    unfolding one_to_one_job_def assms(4) by simp
  then have "visited_jobs env (Some r) True a (Some ji) = Some (Inr [b])"
    using assms(1-3) by (simp add: visited_jobs_def)
  then show ?thesis using assms(5) by (simp add: eval_job_def)
qed

theorem one_to_one_missing_witness:
  "evalDepCond ex_env (Some (ex_job (LSB_JOBID 8 2) JOB_STAT_PEND 0))
     (JobN DPT_DONE DP_FALSE DPT_AND 0 True (Some 105) (Some \<lparr>ji_idxList = None, ji_depJobList = [103, 101]\<rparr>)) =
   Some (JobN DPT_DONE DP_TRUE DPT_AND 0 True (Some 105) (Some \<lparr>ji_idxList = None, ji_depJobList = [103, 101]\<rparr>))"
proof -
  have ids: "LSB_ARRAY_IDX (LSB_JOBID 8 2) = 2" "LSB_ARRAY_IDX (LSB_JOBID 5 1) = 1" "LSB_ARRAY_IDX (LSB_JOBID 5 3) = 3"
    "LSB_JOBID 5 2 \<noteq> LSB_JOBID 5 1" "LSB_JOBID 5 2 \<noteq> LSB_JOBID 5 3" "LSB_JOBID 5 2 \<noteq> 5" "LSB_JOBID 5 2 \<noteq> 7"
    by code_simp+
  show ?thesis
    using one_to_one_missing [of ex_env 105 ex_array "ex_job (LSB_JOBID 8 2) JOB_STAT_PEND 0"
        "\<lparr>ji_idxList = None, ji_depJobList = [103, 101]\<rparr>" "[103]" 101 "ex_job (LSB_JOBID 5 1) JOB_STAT_DONE 100"
        DPT_DONE DP_FALSE DPT_AND 0] ids
    by (simp add: ex_defs getJobData_def evalJobDep_def ended_after_def status_class_defs flag_def)
qed

end
