(* ===== verification/Dep_Parse.thy ===== *)
theory Dep_Parse
  imports Dep_Cond "HOL-Library.Sublist"
begin

text \<open>
  The parser of dependency conditions (\<open>lsbatch/daemons/mbd.dep.c\<close>): the tokens, the lookup of the
  jobs a condition names, and the parser with its operator and operand stacks.
\<close>

subsection \<open>Tokens\<close>

definition tokenTable :: "(string \<times> dptType \<times> bool) list" where
  "tokenTable =
     [(''('', DPT_LEFT, False), ('')'', DPT_RIGHT, False), (''&&'', DPT_AND, False), (''||'', DPT_OR, False),
      (''exit'', DPT_EXIT, True), (''started'', DPT_STARTED, True), (''ended'', DPT_ENDED, True),
      (''time'', DPT_WINDOW, True), (''done'', DPT_DONE, True), (''post_done'', DPT_POST_DONE, True),
      (''post_err'', DPT_POST_ERR, True), (''numpend'', DPT_NUMPEND, True), (''numhold'', DPT_NUMHOLD, True),
      (''numrun'', DPT_NUMRUN, True), (''numexit'', DPT_NUMEXIT, True), (''numdone'', DPT_NUMDONE, True),
      (''numstart'', DPT_NUMSTART, True), (''numended'', DPT_NUMENDED, True), ('','', DPT_COMMA, False),
      (''>='', DPT_GE, False), (''<='', DPT_LE, False), (''=='', DPT_EQ, False), (''!='', DPT_NE, False),
      (''<'', DPT_LT, False), (''>'', DPT_GT, False), (''!'', DPT_NOT, False)]"

definition IS_QUOTE :: "char \<Rightarrow> bool" where
  "IS_QUOTE c \<longleftrightarrow> c = CHR 0x22 \<or> c = CHR 0x27"

definition IS_VALIDCHAR :: "char \<Rightarrow> bool" where
  "IS_VALIDCHAR c \<longleftrightarrow> isalnum c \<or> c \<in> set ''*_.:%,@/[]-''"

definition IS_DELIM :: "char \<Rightarrow> bool" where
  "IS_DELIM c \<longleftrightarrow> c = CHR '','' \<or> c = CHR '' ''"

abbreviation TOKEN_LEN :: nat where "TOKEN_LEN \<equiv> 2048"

text \<open>The rest of a quoted token and of the text, when the buffer has room for \<open>n\<close> more characters.\<close>

fun quoted :: "nat \<Rightarrow> char \<Rightarrow> string \<Rightarrow> string \<times> string" where
  "quoted (Suc n) q (c # s) =
     (if c = q then ([c], s) else (case quoted n q s of (tok, r) \<Rightarrow> (c # tok, r)))"
| "quoted _ q s = ([], s)"

definition name_token :: "string \<Rightarrow> string \<Rightarrow> dptType \<times> string \<times> string" where
  "name_token pre s =
     (if s \<noteq> [] \<and> IS_QUOTE (hd s)
      then (case quoted (TOKEN_LEN - 2) (hd s) (tl s) of (tok, r) \<Rightarrow> (DPT_NAME, hd s # tok, r))
      else
        let body = take (TOKEN_LEN - 1 - length pre) (takeWhile (\<lambda>c. IS_VALIDCHAR c \<and> \<not> IS_DELIM c) s)
        in (DPT_NAME, pre @ body, drop (length body) s))"

definition getToken :: "string \<Rightarrow> (dptType \<times> string \<times> string) option" where
  "getToken sp =
     (let s = dropWhile isspace sp
      in if s = [] then None
         else (case find (\<lambda>(name, _). prefix name s) tokenTable of
             Some (name, type, checkCha) \<Rightarrow>
               let r = drop (length name) s
               in if checkCha \<and> r \<noteq> [] \<and> (isalnum (hd r) \<or> hd r = CHR ''*'') then Some (name_token name r)
                  else Some (type, name, r)
           | None \<Rightarrow> Some (name_token [] s)))"

subsection \<open>The jobs a condition names\<close>

record parse_vars =
  v_opFlag :: bool
  v_numJob :: nat
  v_element :: lsb_jobid
  v_reply :: lsbe

text \<open>\<open>listSetInsert\<close> with a cell at hand.\<close>

definition add_dep :: "int \<Rightarrow> int list \<Rightarrow> int list" where
  "add_dep a dep = fst (listSetInsert a dep \<lparr>FreeSet = 0, fresh = 1\<rparr>)"

partial_function (option) collect_range ::
  "dep_env \<Rightarrow> int \<Rightarrow> int \<Rightarrow> int \<Rightarrow> int \<Rightarrow> int list \<Rightarrow> (lsb_jobid + int list) option" where
  "collect_range env jobId i e step dep =
     (if i \<le> e then
        (case getJobData env (LSB_JOBID jobId i) of
           Some a \<Rightarrow> collect_range env jobId (c_int (i + step)) e step (add_dep a dep)
         | None \<Rightarrow> Some (Inl (LSB_JOBID jobId i)))
      else Some (Inr dep))"

fun collect_jobs :: "dep_env \<Rightarrow> int \<Rightarrow> idxList list \<Rightarrow> int list \<Rightarrow> (lsb_jobid + int list) option" where
  "collect_jobs env jobId [] dep = Some (Inr dep)"
| "collect_jobs env jobId (i # is) dep =
     (case collect_range env jobId (i_start i) (i_end i) (i_step i) dep of
        Some (Inr dep') \<Rightarrow> collect_jobs env jobId is dep'
      | r \<Rightarrow> r)"

fun jobs_of_user ::
  "dep_env \<Rightarrow> string \<Rightarrow> bool \<Rightarrow> int list \<Rightarrow> c_time \<Rightarrow> int list \<Rightarrow> int list option" where
  "jobs_of_user env user wildCard [] submitTime found = Some found"
| "jobs_of_user env user wildCard (a # as) submitTime found =
     (case jobs env a of
        None \<Rightarrow> None
      | Some j \<Rightarrow>
          if d_user j \<noteq> user then jobs_of_user env user wildCard as submitTime found
          else if jobDepLastSub env \<and> \<not> wildCard then
            (if submitTime < d_submitTime j then jobs_of_user env user wildCard as (d_submitTime j) [a]
             else jobs_of_user env user wildCard as submitTime found)
          else jobs_of_user env user wildCard as submitTime (found @ [a]))"

definition array_index :: "dep_env \<Rightarrow> string \<Rightarrow> idxList list option \<times> lsbe" where
  "array_index env name =
     (case parseJobArrayIndex (replay env) (maxArraySize env) name 0 of (is, err, _) \<Rightarrow> (is, err))"

text \<open>
  The check of a one-to-one dependency: the first range of the array depended on must be that of the
  array that is being submitted. The result is the reply code or the elements.
\<close>

definition check_one_to_one :: "dep_env \<Rightarrow> djob \<Rightarrow> (lsbe + int list) option" where
  "check_one_to_one env j =
     (case (fst (array_index env (d_jobName j)), idxContext env) of
        (Some (d # _), Some (s # _)) \<Rightarrow>
          if i_start d \<noteq> i_start s \<or> i_end d \<noteq> i_end s \<or> i_step d \<noteq> i_step s
          then Some (Inl LSBE_DEP_ARRAY_SIZE)
          else map_option
                 (\<lambda>is. Inr (fold (\<lambda>i dep. case getJobData env (LSB_JOBID (sint (d_jobId j)) i) of
                                           None \<Rightarrow> dep | Some a \<Rightarrow> add_dep a dep) is []))
                 (range_loop (i_start d) (i_end d) (i_step d))
      | _ \<Rightarrow> Some (Inl LSBE_DEP_ARRAY_SIZE))"

definition not_found :: "parse_vars \<Rightarrow> parse_vars" where
  "not_found v =
     v\<lparr>v_numJob := 0, v_reply := (if v_reply v = LSBE_DEPEND_SYNTAX then LSBE_NO_JOB else v_reply v)\<rparr>"

text \<open>The end of \<open>matchJobs\<close>, from the label \<open>checkIdx\<close> on.\<close>

definition check_idx ::
  "dep_env \<Rightarrow> bool \<Rightarrow> int list \<Rightarrow> jobIdx option \<Rightarrow> parse_vars \<Rightarrow>
   (parse_vars \<times> (int list \<times> jobIdx option) option) option" where
  "check_idx env oneToOne found idx v =
     (if found = [] then Some (not_found v, None)
      else if oneToOne then
        (case jobs env (hd found) of
           None \<Rightarrow> None
         | Some j \<Rightarrow>
             (case check_one_to_one env j of
                None \<Rightarrow> None
              | Some (Inl err) \<Rightarrow> Some (not_found (v\<lparr>v_reply := err\<rparr>), None)
              | Some (Inr dep) \<Rightarrow>
                  Some (v\<lparr>v_numJob := length found\<rparr>, Some (found, Some \<lparr>ji_idxList = None, ji_depJobList = dep\<rparr>))))
      else Some (v\<lparr>v_numJob := length found\<rparr>, Some (found, idx)))"

text \<open>A job given by its number.\<close>

definition match_number ::
  "dep_env \<Rightarrow> bool \<Rightarrow> int \<Rightarrow> idxList list option \<Rightarrow> parse_vars \<Rightarrow>
   (parse_vars \<times> (int list \<times> jobIdx option) option) option" where
  "match_number env oneToOne jobId idxList v =
     (case getJobData env (word_of_int jobId) of
        None \<Rightarrow> Some (not_found v, None)
      | Some a \<Rightarrow>
          (case jobs env a of
             None \<Rightarrow> None
           | Some j \<Rightarrow>
               if oneToOne then
                 (if d_array j then check_idx env oneToOne [a] None v else Some (not_found v, None))
               else
                 (case (if idxList = None \<and> d_array j then fst (array_index env (d_jobName j)) else idxList) of
                    None \<Rightarrow> Some (v\<lparr>v_numJob := 1\<rparr>, Some ([a], None))
                  | Some is \<Rightarrow>
                      (case collect_jobs env jobId is [] of
                         None \<Rightarrow> None
                       | Some (Inl el) \<Rightarrow> Some (not_found (v\<lparr>v_element := el\<rparr>), None)
                       | Some (Inr dep) \<Rightarrow>
                           Some (v\<lparr>v_numJob := 1\<rparr>, Some ([a], Some \<lparr>ji_idxList = Some is, ji_depJobList = dep\<rparr>))))))"

text \<open>A job given by a name: the name only decides whether it is empty and ends in \<open>*\<close>.\<close>

definition match_name ::
  "dep_env \<Rightarrow> bool \<Rightarrow> string \<Rightarrow> string \<Rightarrow> idxList list option \<Rightarrow> parse_vars \<Rightarrow>
   (parse_vars \<times> (int list \<times> jobIdx option) option) option" where
  "match_name env oneToOne user jobName idxList v =
     (case groupRoot env of
        None \<Rightarrow> Some (not_found v, None)
      | Some children \<Rightarrow>
          if jobName = [] then Some (not_found v, None)
          else (case jobs_of_user env user (last jobName = CHR ''*'') children 0 [] of
              None \<Rightarrow> None
            | Some found \<Rightarrow>
                check_idx env oneToOne found
                  (map_option (\<lambda>is. \<lparr>ji_idxList = Some is, ji_depJobList = []\<rparr>) idxList) v))"

definition cut_star :: "string \<Rightarrow> string \<times> bool" where
  "cut_star s =
     (case find (\<lambda>n. prefix ''[*]'' (drop n s)) [0..<length s] of
        None \<Rightarrow> (s, False) | Some n \<Rightarrow> (take n s, True))"

text \<open>
  The result: the token as it is left in the buffer, the variables, and the jobs with the index list.
  \<open>hasFlag\<close> tells whether the caller passed a place for the one-to-one flag.
\<close>

definition matchJobs ::
  "dep_env \<Rightarrow> string \<Rightarrow> bool \<Rightarrow> string \<Rightarrow> parse_vars \<Rightarrow>
   (string \<times> parse_vars \<times> (int list \<times> jobIdx option) option) option" where
  "matchJobs env user hasFlag jobp0 v0 =
     (let (jobp, star) = cut_star jobp0;
          v = v0\<lparr>v_opFlag := v_opFlag v0 \<or> star \<and> hasFlag\<rparr>;
          oneToOne = (hasFlag \<and> v_opFlag v);
          (idxList, error) = array_index env jobp
      in if error \<noteq> LSBE_NO_ERROR then Some (jobp, v, None)
         else
           let v1 = v\<lparr>v_element := 0\<rparr>;
               tok = takeWhile (\<lambda>c. c \<noteq> CHR ''['') jobp
           in if tok \<noteq> [] \<and> IS_QUOTE (hd tok) then
                let name = takeWhile (\<lambda>c. c \<noteq> hd tok) (tl tok)
                in map_option (Pair (hd tok # name)) (match_name env oneToOne user name idxList v1)
              else if isint tok \<and> atoi tok \<noteq> 0 then
                map_option (Pair tok) (match_number env oneToOne (atoi tok) idxList v1)
              else if isint tok then Some (tok, not_found v1, None)
              else map_option (Pair tok) (match_name env oneToOne user tok idxList v1))"

subsection \<open>Operators\<close>

record parse_state =
  operatorStack :: "dptType list"
  operandStack :: "dptNode list"
  vars :: parse_vars
  badName :: "string option"

text \<open>
  \<open>preceTable\<close> has entries for the three operators only; the byte read for a parenthesis lies beyond
  the table.
\<close>

definition preceTable :: "dep_env \<Rightarrow> dptType \<Rightarrow> int" where
  "preceTable env t = (if t = DPT_AND then 2 else if t = DPT_OR then 1 else if t = DPT_NOT then 3 else beyondPrece env)"

fun mergeTop :: "dptType list \<Rightarrow> dptNode list \<Rightarrow> (dptType list \<times> dptNode list) option" where
  "mergeTop (op # ops) (operand1 # nodes) =
     (if op = DPT_NOT then Some (ops, NotN DP_FALSE operand1 # nodes)
      else (case nodes of
          [] \<Rightarrow> None
        | operand2 # nodes' \<Rightarrow> Some (ops, Opr op DP_FALSE operand1 operand2 # nodes')))"
| "mergeTop _ _ = None"

lemma mergeTop_length: "mergeTop ops nodes = Some (ops', nodes') \<Longrightarrow> length ops' < length ops"
  by (induction ops nodes rule: mergeTop.induct) (auto split: if_splits list.splits)

function mergeLeft :: "dptType list \<Rightarrow> dptNode list \<Rightarrow> (dptType list \<times> dptNode list) option" where
  "mergeLeft ops nodes =
     (case ops of
        [] \<Rightarrow> None
      | op # ops' \<Rightarrow>
          if op = DPT_LEFT then Some (ops', nodes)
          else (case mergeTop ops nodes of
              None \<Rightarrow> None
            | Some (ops'', nodes'') \<Rightarrow> mergeLeft ops'' nodes''))"
  by pat_completeness auto
termination
  by (relation "measure (\<lambda>(ops, nodes). length ops)") (auto simp: mergeTop_length dest: mergeTop_length)

function mergeAll :: "dptType list \<Rightarrow> dptNode list \<Rightarrow> dptType list \<times> dptNode list" where
  "mergeAll ops nodes =
     (case mergeTop ops nodes of
        None \<Rightarrow> (ops, nodes)
      | Some (ops', nodes') \<Rightarrow> mergeAll ops' nodes')"
  by pat_completeness auto
termination
  by (relation "measure (\<lambda>(ops, nodes). length ops)") (auto dest: mergeTop_length)

declare mergeLeft.simps [simp del] mergeAll.simps [simp del]

definition push_operator :: "dep_env \<Rightarrow> dptType \<Rightarrow> parse_state \<Rightarrow> parse_state option" where
  "push_operator env t st =
     (case operatorStack st of
        [] \<Rightarrow> Some (st\<lparr>operatorStack := [t]\<rparr>)
      | prev # _ \<Rightarrow>
          if preceTable env prev > preceTable env t then
            (case mergeTop (operatorStack st) (operandStack st) of
               None \<Rightarrow> None
             | Some (ops, nodes) \<Rightarrow> Some (st\<lparr>operatorStack := t # ops, operandStack := nodes\<rparr>))
          else Some (st\<lparr>operatorStack := t # operatorStack st\<rparr>))"

definition push_operand :: "dptNode \<Rightarrow> parse_state \<Rightarrow> parse_state" where
  "push_operand n st = st\<lparr>operandStack := n # operandStack st\<rparr>"

subsection \<open>The terms of a condition\<close>

text \<open>
  A step of the parser is \<open>None\<close> when it follows a \<open>NULL\<close> pointer or does not return; otherwise it gives
  the new state and the rest of the text, or no text for the jump to \<open>Error\<close>.
\<close>

type_synonym parse_result = "(parse_state \<times> string option) option"

definition syntax_error :: "parse_state \<Rightarrow> parse_result" where
  "syntax_error st = Some (st, None)"

definition expect :: "dptType \<Rightarrow> string \<Rightarrow> string option" where
  "expect t s = (case getToken s of Some (t', _, r) \<Rightarrow> if t' = t then Some r else None | None \<Rightarrow> None)"

abbreviation MAX_CMD_DESC_LEN :: nat where "MAX_CMD_DESC_LEN \<equiv> 256"

definition set_bad :: "string \<Rightarrow> parse_state \<Rightarrow> parse_state" where
  "set_bad s st = st\<lparr>badName := Some (take (MAX_CMD_DESC_LEN - 1) s)\<rparr>"

definition print_jobid :: "lsb_jobid \<Rightarrow> string" where
  "print_jobid jobId = print_int (LSB_ARRAY_JOBID jobId) @ ''['' @ print_int (LSB_ARRAY_IDX jobId) @ '']''"

definition is_rel :: "dptType \<Rightarrow> bool" where
  "is_rel t \<longleftrightarrow> t \<in> {DPT_GT, DPT_GE, DPT_LT, DPT_LE, DPT_EQ, DPT_NE}"

text \<open>
  What may follow the first argument: \<open>)\<close>, or a comma, an optional comparison, a number and \<open>)\<close>. The
  group counters also take \<open>*\<close> for the number.
\<close>

definition number_arg :: "bool \<Rightarrow> string \<Rightarrow> string \<Rightarrow> (int \<times> string) option" where
  "number_arg star tok r =
     (if isint tok then map_option (Pair (atoi tok)) (expect DPT_RIGHT r)
      else if star \<and> tok = ''*'' then map_option (Pair INFINIT_INT) (expect DPT_RIGHT r)
      else None)"

definition rel_arg :: "bool \<Rightarrow> string \<Rightarrow> ((dptType \<times> int) option \<times> string) option" where
  "rel_arg star s =
     (case getToken s of
        Some (DPT_RIGHT, _, r) \<Rightarrow> Some (None, r)
      | Some (DPT_COMMA, _, r) \<Rightarrow>
          (case getToken r of
             None \<Rightarrow> None
           | Some (t, tok, r1) \<Rightarrow>
               if is_rel t then
                 (case getToken r1 of
                    Some (DPT_NAME, tok2, r2) \<Rightarrow> map_option (\<lambda>(n, r3). (Some (t, n), r3)) (number_arg star tok2 r2)
                  | _ \<Rightarrow> None)
               else if t = DPT_NAME then map_option (\<lambda>(n, r3). (Some (DPT_EQ, n), r3)) (number_arg star tok r1)
               else None)
      | _ \<Rightarrow> None)"

text \<open>
  \<open>createMoreNodes\<close>: one node per job; every node after the first is joined to what the stack holds by
  a conjunction that is pushed and merged at once.
\<close>

fun join_nodes :: "dptNode list \<Rightarrow> dptType list \<Rightarrow> dptNode list \<Rightarrow> (dptType list \<times> dptNode list) option" where
  "join_nodes [] ops nodes = Some (ops, nodes)"
| "join_nodes (n # ns) ops nodes =
     (case mergeTop (DPT_AND # ops) (n # nodes) of
        None \<Rightarrow> None
      | Some (ops', nodes') \<Rightarrow> join_nodes ns ops' nodes')"

definition createMoreNodes :: "dptNode list \<Rightarrow> parse_state \<Rightarrow> parse_state option" where
  "createMoreNodes ns st =
     (case ns of
        [] \<Rightarrow> Some st
      | n # ns' \<Rightarrow>
          map_option (\<lambda>(ops, nodes). st\<lparr>operatorStack := ops, operandStack := nodes\<rparr>)
            (join_nodes ns' (operatorStack st) (n # operandStack st)))"

text \<open>A job node as \<open>newNode\<close> fills it in: an exit condition holds for every code unless one is given.\<close>

definition job_node ::
  "dptType \<Rightarrow> (dptType \<times> int) option \<Rightarrow> bool \<Rightarrow> int option \<Rightarrow> jobIdx option \<Rightarrow> dptNode" where
  "job_node t rel oneToOne job idx =
     (case rel of
        None \<Rightarrow> JobN t DP_FALSE (if t = DPT_EXIT then DPT_TRUE else DPT_AND) 0 oneToOne job idx
      | Some (op, code) \<Rightarrow> JobN t DP_FALSE op code oneToOne job idx)"

text \<open>
  The nodes for the jobs that were found. During replay a condition on missing jobs gets a node
  without a job; a number of jobs left over from an earlier term is then taken for the number of this
  one.
\<close>

definition push_jobs ::
  "dptType \<Rightarrow> (dptType \<times> int) option \<Rightarrow> bool \<Rightarrow> (int list \<times> jobIdx option) option \<Rightarrow> parse_state \<Rightarrow>
   parse_state option" where
  "push_jobs t rel setFlag found st =
     (if v_numJob (vars st) > 1 then
        (case found of
           None \<Rightarrow> None
         | Some (as, idx) \<Rightarrow> createMoreNodes (map (\<lambda>a. job_node t rel False (Some a) idx) as) st)
      else if v_numJob (vars st) > 0 \<and> found \<noteq> None then
        (case the found of (as, idx) \<Rightarrow>
           if setFlag
           then Some (push_operand (job_node t rel (v_opFlag (vars st)) (Some (hd as)) idx)
                        (st\<lparr>vars := (vars st)\<lparr>v_opFlag := False\<rparr>\<rparr>))
           else Some (push_operand (job_node t rel False (Some (hd as)) idx) st))
      else Some (push_operand (job_node t rel False None None) st))"

definition crash_or :: "'a option \<Rightarrow> parse_result \<Rightarrow> parse_result" where
  "crash_or x r = (case x of None \<Rightarrow> None | Some _ \<Rightarrow> r)"

text \<open>\<open>done(...)\<close>, \<open>exit(...)\<close> and the other conditions on jobs, after the keyword \<open>t\<close>.\<close>

definition job_term :: "dep_env \<Rightarrow> string \<Rightarrow> dptType \<Rightarrow> string \<Rightarrow> parse_state \<Rightarrow> parse_result" where
  "job_term env user t s st =
     (case expect DPT_LEFT s of
        None \<Rightarrow> syntax_error st
      | Some r \<Rightarrow>
          (case getToken r of
             None \<Rightarrow> syntax_error st
           | Some (_, tok, r1) \<Rightarrow>
               (case matchJobs env user True tok (vars st) of
                  None \<Rightarrow> None
                | Some (tok', v, found) \<Rightarrow>
                    let st1 = st\<lparr>vars := v\<rparr>;
                        st2 = (if found \<noteq> None then st1
                               else if v_element v = 0 then set_bad tok' st1
                               else set_bad (print_jobid (v_element v)) st1)
                    in if found = None \<and> \<not> replay env then syntax_error st2
                       else crash_or (push_jobs t None True found st2)
                         (case (if t = DPT_EXIT then rel_arg False r1
                                else map_option (Pair None) (expect DPT_RIGHT r1)) of
                            None \<Rightarrow> syntax_error st2
                          | Some (rel, r2) \<Rightarrow>
                              map_option (\<lambda>st3. (st3, Some r2)) (push_jobs t rel True found st2)))))"

text \<open>A bare name or number stands for \<open>done(...)\<close>.\<close>

definition name_term :: "dep_env \<Rightarrow> string \<Rightarrow> string \<Rightarrow> string \<Rightarrow> parse_state \<Rightarrow> parse_result" where
  "name_term env user tok r st =
     (case matchJobs env user False tok (vars st) of
        None \<Rightarrow> None
      | Some (tok', v, found) \<Rightarrow>
          let st1 = st\<lparr>vars := v\<rparr>;
              st2 = (if found \<noteq> None then st1 else set_bad tok' st1)
          in if found = None \<and> \<not> replay env then syntax_error st2
             else map_option (\<lambda>st3. (st3, Some r)) (push_jobs DPT_DONE None False found st2))"

text \<open>
  The counters of a job array. During replay a number that is not a job gives a node without group;
  a job that is not an array is read as if it were one, which the model leaves undefined.
\<close>

definition group_term :: "dep_env \<Rightarrow> dptType \<Rightarrow> string \<Rightarrow> parse_state \<Rightarrow> parse_result" where
  "group_term env t s st =
     (case expect DPT_LEFT s of
        None \<Rightarrow> syntax_error st
      | Some r \<Rightarrow>
          (case getToken r of
             None \<Rightarrow> syntax_error st
           | Some (_, tok, r1) \<Rightarrow>
               let job = (if isint tok then getJobData env (word_of_int (atoi tok)) else None);
                   bad = (set_bad tok st)\<lparr>vars := (vars st)\<lparr>v_reply := LSBE_ARRAY_NULL\<rparr>\<rparr>;
                   finish = (\<lambda>grp st'.
                     case rel_arg True r1 of
                       None \<Rightarrow> syntax_error st'
                     | Some (rel, r2) \<Rightarrow>
                         Some (push_operand (case rel of None \<Rightarrow> JgrpN t DP_FALSE DPT_NE 0 grp
                                             | Some (op, n) \<Rightarrow> JgrpN t DP_FALSE op n grp) st', Some r2))
               in (case job of
                     None \<Rightarrow> if replay env then finish None bad else syntax_error bad
                   | Some a \<Rightarrow>
                       (case jobs env a of
                          None \<Rightarrow> None
                        | Some j \<Rightarrow>
                            (case d_jgrp j of
                               None \<Rightarrow> if replay env then None else syntax_error bad
                             | Some g \<Rightarrow> finish (Some g) st)))))"

text \<open>The two passes over the arguments of \<open>time(...)\<close>: the first only measures them.\<close>

partial_function (option) window_length :: "string \<Rightarrow> nat option option" where
  "window_length s =
     (case getToken s of
        None \<Rightarrow> Some None
      | Some (t, tok, r) \<Rightarrow>
          if t = DPT_RIGHT then Some (Some 0)
          else if t \<noteq> DPT_NAME then Some None
          else Option.bind (window_length r) (\<lambda>n. Some (map_option (\<lambda>k. k + length tok + 1) n)))"

partial_function (option) window_words :: "string \<Rightarrow> timeWindow \<Rightarrow> (timeWindow \<times> string) option option" where
  "window_words s w =
     (case getToken s of
        None \<Rightarrow> Some None
      | Some (t, tok, r) \<Rightarrow>
          if t = DPT_RIGHT then Some (Some (w, r))
          else if t \<noteq> DPT_NAME then Some None
          else
            let text = (if w_windows w = [] then tok else w_windows w @ '' '' @ tok)
            in (case addWindow tok (w_week w) of
                  None \<Rightarrow> None
                | Some None \<Rightarrow> Some None
                | Some (Some week) \<Rightarrow> window_words r (w\<lparr>w_windows := text, w_week := week\<rparr>)))"

definition window_term :: "dep_env \<Rightarrow> string \<Rightarrow> parse_state \<Rightarrow> parse_result" where
  "window_term env s st =
     (case expect DPT_LEFT s of
        None \<Rightarrow> syntax_error st
      | Some r \<Rightarrow>
          (case window_length r of
             None \<Rightarrow> None
           | Some None \<Rightarrow> syntax_error st
           | Some (Some _) \<Rightarrow>
               (case window_words r newTimeWindow of
                  None \<Rightarrow> None
                | Some None \<Rightarrow> syntax_error st
                | Some (Some (w, r1)) \<Rightarrow>
                    Some (push_operand
                            (WinN DP_FALSE (updateTimeWindow (time_zone env) (time_now env)
                                              (w\<lparr>w_windEdge := time_now env\<rparr>))) st,
                          Some r1))))"

subsection \<open>The parser\<close>

definition parse_step ::
  "dep_env \<Rightarrow> string \<Rightarrow> bool \<Rightarrow> dptType \<Rightarrow> string \<Rightarrow> string \<Rightarrow> parse_state \<Rightarrow> parse_result" where
  "parse_step env user windowConf t tok r st =
     (if t \<in> {DPT_AND, DPT_OR, DPT_NOT} then
        (case push_operator env t st of None \<Rightarrow> syntax_error st | Some st' \<Rightarrow> Some (st', Some r))
      else if t = DPT_LEFT then Some (st\<lparr>operatorStack := DPT_LEFT # operatorStack st\<rparr>, Some r)
      else if t = DPT_RIGHT then
        (case mergeLeft (operatorStack st) (operandStack st) of
           None \<Rightarrow> syntax_error st
         | Some (ops, nodes) \<Rightarrow> Some (st\<lparr>operatorStack := ops, operandStack := nodes\<rparr>, Some r))
      else if t = DPT_WINDOW then window_term env r st
      else if t \<in> {DPT_DONE, DPT_POST_DONE, DPT_POST_ERR, DPT_EXIT, DPT_STARTED, DPT_ENDED} then
        (if windowConf then syntax_error st else job_term env user t r st)
      else if t = DPT_NAME then
        (if windowConf then syntax_error st else name_term env user tok r st)
      else if t \<in> {DPT_NUMPEND, DPT_NUMHOLD, DPT_NUMRUN, DPT_NUMEXIT, DPT_NUMDONE, DPT_NUMSTART, DPT_NUMENDED}
        then group_term env t r st
      else syntax_error st)"

text \<open>The loop over the tokens: the final state, with \<open>False\<close> when a step jumped to \<open>Error\<close>.\<close>

partial_function (option) parse_loop ::
  "dep_env \<Rightarrow> string \<Rightarrow> bool \<Rightarrow> string \<Rightarrow> parse_state \<Rightarrow> (parse_state \<times> bool) option" where
  "parse_loop env user windowConf s st =
     (case getToken s of
        None \<Rightarrow> Some (st, True)
      | Some (t, tok, r) \<Rightarrow>
          (case parse_step env user windowConf t tok r st of
             None \<Rightarrow> None
           | Some (st', None) \<Rightarrow> Some (st', False)
           | Some (st', Some r') \<Rightarrow> parse_loop env user windowConf r' st'))"

definition init_state :: parse_state where
  "init_state =
     \<lparr>operatorStack = [], operandStack = [],
      vars = \<lparr>v_opFlag = False, v_numJob = 0, v_element = 0, v_reply = LSBE_DEPEND_SYNTAX\<rparr>, badName = None\<rparr>"

text \<open>The condition, or the reply code; with the name that could not be resolved.\<close>

definition parseDepCond ::
  "dep_env \<Rightarrow> string \<Rightarrow> bool \<Rightarrow> string \<Rightarrow> ((lsbe + dptNode) \<times> string option) option" where
  "parseDepCond env user windowConf dependCond =
     (case parse_loop env user windowConf dependCond init_state of
        None \<Rightarrow> None
      | Some (st, ok) \<Rightarrow>
          Some (case (ok, mergeAll (operatorStack st) (operandStack st)) of
                  (True, [], [node]) \<Rightarrow> Inr node
                | _ \<Rightarrow> Inl (v_reply (vars st)), badName st))"

subsection \<open>Reading back printed tokens\<close>

definition keyword :: "dptType \<Rightarrow> string" where
  "keyword t = (case find (\<lambda>(_, t', _). t' = t) tokenTable of Some (name, _) \<Rightarrow> name | None \<Rightarrow> [])"

abbreviation job_types :: "dptType set" where
  "job_types \<equiv> {DPT_DONE, DPT_POST_DONE, DPT_POST_ERR, DPT_EXIT, DPT_STARTED, DPT_ENDED}"

abbreviation num_types :: "dptType set" where
  "num_types \<equiv> {DPT_NUMPEND, DPT_NUMHOLD, DPT_NUMRUN, DPT_NUMEXIT, DPT_NUMDONE, DPT_NUMSTART, DPT_NUMENDED}"

lemma keyword_simps [simp]:
  "keyword DPT_LEFT = ''(''" "keyword DPT_RIGHT = '')''" "keyword DPT_AND = ''&&''" "keyword DPT_OR = ''||''"
  "keyword DPT_NOT = ''!''" "keyword DPT_COMMA = '',''" "keyword DPT_GE = ''>=''" "keyword DPT_LE = ''<=''"
  "keyword DPT_EQ = ''==''" "keyword DPT_NE = ''!=''" "keyword DPT_LT = ''<''" "keyword DPT_GT = ''>''"
  "keyword DPT_DONE = ''done''" "keyword DPT_POST_DONE = ''post_done''" "keyword DPT_POST_ERR = ''post_err''"
  "keyword DPT_EXIT = ''exit''" "keyword DPT_STARTED = ''started''" "keyword DPT_ENDED = ''ended''"
  "keyword DPT_NUMPEND = ''numpend''" "keyword DPT_NUMHOLD = ''numhold''" "keyword DPT_NUMRUN = ''numrun''"
  "keyword DPT_NUMEXIT = ''numexit''" "keyword DPT_NUMDONE = ''numdone''" "keyword DPT_NUMSTART = ''numstart''"
  "keyword DPT_NUMENDED = ''numended''"
  by code_simp+

lemmas token_simps = getToken_def tokenTable_def isspace_def isalnum_def isalpha_def isdigit_def

lemma getToken_word:
  assumes "t \<in> job_types \<union> num_types"
  shows "getToken (keyword t @ CHR ''('' # s) = Some (t, keyword t, CHR ''('' # s)"
  using assms by (elim UnE insertE emptyE; simp add: token_simps)

lemma getToken_sign:
  assumes "t \<in> {DPT_LEFT, DPT_RIGHT, DPT_AND, DPT_OR, DPT_COMMA, DPT_NOT} \<or> is_rel t" and "s = [] \<or> hd s \<noteq> CHR ''=''"
  shows "getToken (keyword t @ s) = Some (t, keyword t, s)"
  using assms(1) unfolding is_rel_def
  by (elim disjE insertE emptyE; insert assms(2); cases s; simp add: token_simps)

lemma length_print_nat: "n < 10 ^ Suc k \<Longrightarrow> length (print_nat n) \<le> Suc k"
proof (induction k arbitrary: n)
  case (Suc k)
  then have "n div 10 < 10 ^ Suc k" by (simp add: div_less_iff_less_mult)
  then show ?case using Suc.IH [of "n div 10"] by (subst print_nat.simps) simp
qed (subst print_nat.simps, simp)

lemma getToken_number:
  assumes "n < 2 ^ 31" and "c = CHR '')'' \<or> c = CHR '',''"
  shows "getToken (print_nat n @ c # s) = Some (DPT_NAME, print_nat n, c # s)"
proof -
  obtain d ds where p: "print_nat n = d # ds" using print_nat_digits(1) by (cases "print_nat n") auto
  have digits: "isdigit d" "\<forall>x\<in>set (d # ds). isdigit x" using print_nat_digits(2) [of n] p by auto
  have len: "length (d # ds) \<le> 10" using length_print_nat [of n 9] assms(1) p by simp
  have valid: "isdigit x \<Longrightarrow> IS_VALIDCHAR x \<and> \<not> IS_DELIM x" for x
    by (auto simp: IS_VALIDCHAR_def isalnum_def IS_DELIM_def isdigit_def)
  have stop: "\<not> (IS_VALIDCHAR c \<and> \<not> IS_DELIM c)"
    using assms(2) by (auto simp: IS_VALIDCHAR_def IS_DELIM_def isalnum_def isalpha_def isdigit_def)
  have body: "takeWhile (\<lambda>c. IS_VALIDCHAR c \<and> \<not> IS_DELIM c) ((d # ds) @ c # s) = d # ds"
    using digits(2) valid stop by (subst takeWhile_append2) auto
  have "\<forall>(name, x)\<in>set tokenTable. name \<noteq> [] \<and> \<not> isdigit (hd name)"
    by (simp add: tokenTable_def isdigit_def)
  then have "find (\<lambda>(name, _). prefix name ((d # ds) @ c # s)) tokenTable = None"
    using digits(1) by (fastforce simp: find_None_iff prefix_Cons)
  moreover have "\<not> IS_QUOTE d" "\<not> isspace d"
    using digits(1) by (auto simp: IS_QUOTE_def isspace_def isdigit_def)
  ultimately show ?thesis
    using body len by (simp add: getToken_def p name_token_def Let_def)
qed

subsection \<open>Fully parenthesised conditions\<close>

datatype dep_expr =
    EJob dptType nat
  | EExit dptType nat nat
  | EGrp dptType dptType nat nat
  | ENot dep_expr
  | EAnd dep_expr dep_expr
  | EOr dep_expr dep_expr

fun print_expr :: "dep_expr \<Rightarrow> string" where
  "print_expr (EJob t n) = keyword t @ ''('' @ print_nat n @ '')''"
| "print_expr (EExit op n c) = ''exit('' @ print_nat n @ '','' @ keyword op @ print_nat c @ '')''"
| "print_expr (EGrp t op n k) = keyword t @ ''('' @ print_nat n @ '','' @ keyword op @ print_nat k @ '')''"
| "print_expr (ENot e) = ''('' @ ''!'' @ print_expr e @ '')''"
| "print_expr (EAnd e f) = ''('' @ print_expr e @ ''&&'' @ print_expr f @ '')''"
| "print_expr (EOr e f) = ''('' @ print_expr e @ ''||'' @ print_expr f @ '')''"

definition job_addr :: "dep_env \<Rightarrow> nat \<Rightarrow> int" where
  "job_addr env n = the (getJobData env (word_of_int (int n)))"

definition job_at :: "dep_env \<Rightarrow> nat \<Rightarrow> djob" where
  "job_at env n = the (jobs env (job_addr env n))"

text \<open>The numbers refer to jobs that are not arrays, or to arrays for the counters.\<close>

definition known_job :: "dep_env \<Rightarrow> nat \<Rightarrow> bool" where
  "known_job env n \<longleftrightarrow> 0 < n \<and> n < 2 ^ 31 \<and> getJobData env (word_of_int (int n)) \<noteq> None \<and> jobs env (job_addr env n) \<noteq> None"

fun expr_ok :: "dep_env \<Rightarrow> dep_expr \<Rightarrow> bool" where
  "expr_ok env (EJob t n) \<longleftrightarrow> t \<in> job_types \<and> known_job env n \<and> \<not> d_array (job_at env n)"
| "expr_ok env (EExit op n c) \<longleftrightarrow> is_rel op \<and> c < 2 ^ 31 \<and> known_job env n \<and> \<not> d_array (job_at env n)"
| "expr_ok env (EGrp t op n k) \<longleftrightarrow>
     t \<in> num_types \<and> is_rel op \<and> k < 2 ^ 31 \<and> known_job env n \<and>
     d_jgrp (job_at env n) \<noteq> None \<and> jgrps env (the (d_jgrp (job_at env n))) \<noteq> None"
| "expr_ok env (ENot e) \<longleftrightarrow> expr_ok env e"
| "expr_ok env (EAnd e f) \<longleftrightarrow> expr_ok env e \<and> expr_ok env f"
| "expr_ok env (EOr e f) \<longleftrightarrow> expr_ok env e \<and> expr_ok env f"

fun expr_tree :: "dep_env \<Rightarrow> dep_expr \<Rightarrow> dptNode" where
  "expr_tree env (EJob t n) = job_node t None False (Some (job_addr env n)) None"
| "expr_tree env (EExit op n c) = job_node DPT_EXIT (Some (op, int c)) False (Some (job_addr env n)) None"
| "expr_tree env (EGrp t op n k) = JgrpN t DP_FALSE op (int k) (d_jgrp (job_at env n))"
| "expr_tree env (ENot e) = NotN DP_FALSE (expr_tree env e)"
| "expr_tree env (EAnd e f) = Opr DPT_AND DP_FALSE (expr_tree env f) (expr_tree env e)"
| "expr_tree env (EOr e f) = Opr DPT_OR DP_FALSE (expr_tree env f) (expr_tree env e)"

lemma number_no_bracket: "CHR ''['' \<notin> set (print_nat n)"
  using print_nat_digits(2) [of n] by (auto simp: isdigit_def)

lemma cut_star_number: "cut_star (print_nat n) = (print_nat n, False)"
proof -
  have "\<not> prefix ''[*]'' (drop m (print_nat n))" for m
  proof
    assume "prefix ''[*]'' (drop m (print_nat n))"
    then have "CHR ''['' \<in> set (drop m (print_nat n))" by (auto simp: prefix_def)
    then show False using number_no_bracket [of n] in_set_dropD by fast
  qed
  then have "find (\<lambda>m. prefix ''[*]'' (drop m (print_nat n))) [0..<length (print_nat n)] = None"
    by (simp add: find_None_iff)
  then show ?thesis by (simp add: cut_star_def)
qed

lemma array_index_number: "array_index env (print_nat n) = (None, LSBE_NO_ERROR)"
proof -
  have "dropWhile (\<lambda>x. x \<noteq> CHR ''['') (print_nat n) = []" using number_no_bracket [of n] by auto
  then have "strchr (print_nat n) (CHR ''['') = None" unfolding strchr_def by (simp only: list.case)
  then show ?thesis by (simp add: array_index_def parseJobArrayIndex_def)
qed

lemma matchJobs_number:
  assumes "known_job env n" "\<not> d_array (job_at env n)" "\<not> v_opFlag v"
  shows "matchJobs env user True (print_nat n) v =
    Some (print_nat n, v\<lparr>v_element := 0, v_numJob := 1\<rparr>, Some ([job_addr env n], None))"
proof -
  have name: "takeWhile (\<lambda>c. c \<noteq> CHR ''['') (print_nat n) = print_nat n" using number_no_bracket [of n] by auto
  have "\<not> IS_QUOTE (hd (print_nat n))"
    using print_nat_digits [of n] by (cases "print_nat n") (auto simp: IS_QUOTE_def isdigit_def)
  moreover have "isint (print_nat n)" "atoi (print_nat n) = int n" "n \<noteq> 0"
    using assms(1) isint_print atoi_print by (auto simp: known_job_def)
  moreover have "match_number env False (int n) None (v\<lparr>v_element := 0\<rparr>) =
      Some (v\<lparr>v_element := 0, v_numJob := 1\<rparr>, Some ([job_addr env n], None))"
    using assms by (auto simp: match_number_def known_job_def job_addr_def job_at_def)
  ultimately show ?thesis
    using assms(3) by (cases v) (simp add: matchJobs_def cut_star_number array_index_number Let_def name)
qed

lemma loop_token:
  assumes "getToken s = Some (t, tok, r)" "parse_step env user w t tok r st = Some (st', Some r')"
  shows "parse_loop env user w s st = parse_loop env user w r' st'"
  by (subst parse_loop.simps) (simp add: assms)

lemma expect_sign:
  assumes "t \<in> {DPT_LEFT, DPT_RIGHT, DPT_COMMA}" "s = [] \<or> hd s \<noteq> CHR ''=''"
  shows "expect t (keyword t @ s) = Some s"
  using getToken_sign [of t s] assms by (auto simp: expect_def)

lemma number_start: "print_nat n @ s \<noteq> [] \<and> hd (print_nat n @ s) \<noteq> CHR ''=''"
  using print_nat_digits [of n] by (cases "print_nat n") (auto simp: isdigit_def)

lemma getToken_right: "getToken (CHR '')'' # s) = Some (DPT_RIGHT, '')'', s)"
  by (simp add: token_simps)

lemma expect_parens: "expect DPT_LEFT (CHR ''('' # s) = Some s" "expect DPT_RIGHT (CHR '')'' # s) = Some s"
  by (simp_all add: expect_def token_simps)

lemma rel_arg_number:
  assumes "is_rel op" "c < 2 ^ 31"
  shows "rel_arg star (CHR '','' # keyword op @ print_nat c @ CHR '')'' # s) = Some (Some (op, int c), s)"
proof -
  have "getToken (CHR '','' # keyword op @ print_nat c @ CHR '')'' # s) =
      Some (DPT_COMMA, '','', keyword op @ print_nat c @ CHR '')'' # s)"
    by (simp add: token_simps)
  moreover have "getToken (keyword op @ print_nat c @ CHR '')'' # s) = Some (op, keyword op, print_nat c @ CHR '')'' # s)"
    using getToken_sign [of op "print_nat c @ CHR '')'' # s"] assms(1) number_start by simp
  moreover have "number_arg star (print_nat c) (CHR '')'' # s) = Some (int c, s)"
    using assms(2) isint_print [of c] atoi_print [of c] by (simp add: number_arg_def expect_parens)
  ultimately show ?thesis
    using getToken_number [OF assms(2)] assms(1) by (simp add: rel_arg_def)
qed

lemma job_term_number:
  assumes "known_job env n" "\<not> d_array (job_at env n)" "\<not> v_opFlag (vars st)"
    and "(if t = DPT_EXIT then rel_arg False (c # s) else map_option (Pair None) (expect DPT_RIGHT (c # s))) = Some (rel, r)"
    and "c = CHR '')'' \<or> c = CHR '',''"
  shows "job_term env user t (CHR ''('' # print_nat n @ c # s) st =
    Some (push_operand (job_node t rel False (Some (job_addr env n)) None)
            (st\<lparr>vars := (vars st)\<lparr>v_element := 0, v_numJob := 1, v_opFlag := False\<rparr>\<rparr>), Some r)"
proof -
  have "n < 2 ^ 31" using assms(1) by (simp add: known_job_def)
  then show ?thesis
    using matchJobs_number [OF assms(1-3)] getToken_number [OF _ assms(5)] assms(3,4)
    by (simp add: job_term_def expect_parens push_jobs_def crash_or_def Let_def)
qed

text \<open>What parsing an expression does to the variables: nothing that later terms depend on.\<close>

definition neutral :: "parse_vars \<Rightarrow> parse_vars \<Rightarrow> bool" where
  "neutral v v' \<longleftrightarrow> \<not> v_opFlag v' \<and> v_reply v' = v_reply v"

definition reads :: "dep_env \<Rightarrow> string \<Rightarrow> string \<Rightarrow> dptNode \<Rightarrow> bool" where
  "reads env user s n \<longleftrightarrow>
     (\<forall>rest st. \<not> v_opFlag (vars st) \<longrightarrow>
        (\<exists>v'. neutral (vars st) v' \<and>
           parse_loop env user False (s @ rest) st =
             parse_loop env user False rest (push_operand n (st\<lparr>vars := v'\<rparr>))))"

lemma reads_job:
  assumes "t \<in> job_types" "known_job env n" "\<not> d_array (job_at env n)"
  shows "reads env user (keyword t @ ''('' @ print_nat n @ '')'') (job_node t None False (Some (job_addr env n)) None)"
  unfolding reads_def
proof (intro allI impI)
  fix rest :: string and st :: parse_state
  assume st: "\<not> v_opFlag (vars st)"
  have rel: "rel_arg False (CHR '')'' # rest) = Some (None, rest)" by (simp add: rel_arg_def getToken_right)
  have "parse_step env user False t (keyword t) (CHR ''('' # print_nat n @ CHR '')'' # rest) st =
      job_term env user t (CHR ''('' # print_nat n @ CHR '')'' # rest) st"
    using assms(1) by (auto simp: parse_step_def)
  moreover note job_term_number [OF assms(2,3) st, of t "CHR '')''" rest None rest user]
  ultimately show "\<exists>v'. neutral (vars st) v' \<and> parse_loop env user False ((keyword t @ ''('' @ print_nat n @ '')'') @ rest) st =
      parse_loop env user False rest
        (push_operand (job_node t None False (Some (job_addr env n)) None) (st\<lparr>vars := v'\<rparr>))"
    using loop_token [OF getToken_word [of t]] assms(1) rel
    by (intro exI [of _ "(vars st)\<lparr>v_element := 0, v_numJob := 1, v_opFlag := False\<rparr>"])
      (simp add: expect_parens neutral_def)
qed

lemma reads_exit:
  assumes "is_rel op" "c < 2 ^ 31" "known_job env n" "\<not> d_array (job_at env n)"
  shows "reads env user (''exit('' @ print_nat n @ '','' @ keyword op @ print_nat c @ '')'')
    (job_node DPT_EXIT (Some (op, int c)) False (Some (job_addr env n)) None)"
  unfolding reads_def
proof (intro allI impI)
  fix rest :: string and st :: parse_state
  assume st: "\<not> v_opFlag (vars st)"
  let ?s = "CHR ''('' # print_nat n @ CHR '','' # keyword op @ print_nat c @ CHR '')'' # rest"
  have "parse_step env user False DPT_EXIT (keyword DPT_EXIT) ?s st = job_term env user DPT_EXIT ?s st"
    by (simp add: parse_step_def)
  also have "\<dots> = Some (push_operand (job_node DPT_EXIT (Some (op, int c)) False (Some (job_addr env n)) None)
      (st\<lparr>vars := (vars st)\<lparr>v_element := 0, v_numJob := 1, v_opFlag := False\<rparr>\<rparr>), Some rest)"
    using rel_arg_number [OF assms(1,2)] by (intro job_term_number [OF assms(3,4) st]) simp_all
  finally show "\<exists>v'. neutral (vars st) v' \<and>
      parse_loop env user False ((''exit('' @ print_nat n @ '','' @ keyword op @ print_nat c @ '')'') @ rest) st =
      parse_loop env user False rest
        (push_operand (job_node DPT_EXIT (Some (op, int c)) False (Some (job_addr env n)) None) (st\<lparr>vars := v'\<rparr>))"
    using loop_token [OF getToken_word [of DPT_EXIT]]
    by (intro exI [of _ "(vars st)\<lparr>v_element := 0, v_numJob := 1, v_opFlag := False\<rparr>"]) (simp add: neutral_def)
qed

lemma reads_group:
  assumes "t \<in> num_types" "is_rel op" "k < 2 ^ 31" "known_job env n" "d_jgrp (job_at env n) = Some g"
  shows "reads env user (keyword t @ ''('' @ print_nat n @ '','' @ keyword op @ print_nat k @ '')'')
    (JgrpN t DP_FALSE op (int k) (Some g))"
  unfolding reads_def
proof (intro allI impI)
  fix rest :: string and st :: parse_state
  assume st: "\<not> v_opFlag (vars st)"
  let ?s = "print_nat n @ CHR '','' # keyword op @ print_nat k @ CHR '')'' # rest"
  have n: "n < 2 ^ 31" "getJobData env (word_of_int (int n)) = Some (job_addr env n)"
      "jobs env (job_addr env n) = Some (job_at env n)"
    using assms(4) by (auto simp: known_job_def job_addr_def job_at_def)
  have "parse_step env user False t (keyword t) (CHR ''('' # ?s) st = group_term env t (CHR ''('' # ?s) st"
    using assms(1) by (elim insertE emptyE; simp add: parse_step_def)
  also have "\<dots> = Some (push_operand (JgrpN t DP_FALSE op (int k) (Some g)) st, Some rest)"
    using getToken_number [OF n(1)] isint_print [of n] atoi_print [of n] n rel_arg_number [OF assms(2,3)] assms(5)
    by (simp add: group_term_def expect_parens Let_def)
  finally show "\<exists>v'. neutral (vars st) v' \<and>
      parse_loop env user False ((keyword t @ ''('' @ print_nat n @ '','' @ keyword op @ print_nat k @ '')'') @ rest) st =
      parse_loop env user False rest (push_operand (JgrpN t DP_FALSE op (int k) (Some g)) (st\<lparr>vars := v'\<rparr>))"
    using loop_token [OF getToken_word [OF UnI2 [OF assms(1)]]] st
    by (intro exI [of _ "vars st"]) (simp add: neutral_def)
qed

lemma readsE:
  assumes "reads env user s n" "\<not> v_opFlag (vars st)"
  obtains v' where "neutral (vars st) v'" "\<not> v_opFlag v'"
    "parse_loop env user False (s @ rest) st = parse_loop env user False rest (push_operand n (st\<lparr>vars := v'\<rparr>))"
  using assms unfolding reads_def neutral_def by metis

lemma loop_left:
  "parse_loop env user w (CHR ''('' # s) st = parse_loop env user w s (st\<lparr>operatorStack := DPT_LEFT # operatorStack st\<rparr>)"
  by (rule loop_token [of _ DPT_LEFT "''(''" s]) (simp_all add: token_simps parse_step_def)

lemma loop_right:
  assumes "mergeLeft (operatorStack st) (operandStack st) = Some (ops, nodes)"
  shows "parse_loop env user w (CHR '')'' # s) st = parse_loop env user w s (st\<lparr>operatorStack := ops, operandStack := nodes\<rparr>)"
  by (rule loop_token [of _ DPT_RIGHT "'')''" s]) (simp_all add: token_simps parse_step_def assms)

lemma loop_operator:
  assumes "t \<in> {DPT_AND, DPT_OR, DPT_NOT}" "s \<noteq> [] \<and> hd s \<noteq> CHR ''=''" "beyondPrece env \<le> 1"
    and "operatorStack st = DPT_LEFT # ops"
  shows "parse_loop env user w (keyword t @ s) st = parse_loop env user w s (st\<lparr>operatorStack := t # DPT_LEFT # ops\<rparr>)"
proof (rule loop_token)
  show "getToken (keyword t @ s) = Some (t, keyword t, s)"
    using assms(1,2) by (intro getToken_sign) auto
  show "parse_step env user w t (keyword t) s st = Some (st\<lparr>operatorStack := t # DPT_LEFT # ops\<rparr>, Some s)"
    using assms(1,3,4) by (auto simp: parse_step_def push_operator_def preceTable_def)
qed

lemma reads_not:
  assumes "beyondPrece env \<le> 1" "reads env user s n" "s \<noteq> []" "hd s \<noteq> CHR ''=''"
  shows "reads env user (''('' @ ''!'' @ s @ '')'') (NotN DP_FALSE n)"
  unfolding reads_def
proof (intro allI impI)
  fix rest :: string and st :: parse_state
  assume st: "\<not> v_opFlag (vars st)"
  let ?st1 = "st\<lparr>operatorStack := DPT_NOT # DPT_LEFT # operatorStack st\<rparr>"
  have "parse_loop env user False ((''('' @ ''!'' @ s @ '')'') @ rest) st =
      parse_loop env user False (s @ CHR '')'' # rest) ?st1"
    using loop_operator [of DPT_NOT "s @ CHR '')'' # rest" env "st\<lparr>operatorStack := DPT_LEFT # operatorStack st\<rparr>"]
      assms(1,3,4) by (simp add: loop_left)
  moreover obtain v' where v': "neutral (vars ?st1) v'"
    "parse_loop env user False (s @ CHR '')'' # rest) ?st1 =
       parse_loop env user False (CHR '')'' # rest) (push_operand n (?st1\<lparr>vars := v'\<rparr>))"
    using readsE [OF assms(2), of ?st1] st by auto
  ultimately show "\<exists>v'. neutral (vars st) v' \<and> parse_loop env user False ((''('' @ ''!'' @ s @ '')'') @ rest) st =
      parse_loop env user False rest (push_operand (NotN DP_FALSE n) (st\<lparr>vars := v'\<rparr>))"
    by (intro exI [of _ v'])
      (simp add: loop_right [of _ "operatorStack st" "NotN DP_FALSE n # operandStack st"] mergeLeft.simps push_operand_def)
qed

lemma reads_binary:
  assumes "beyondPrece env \<le> 1" "t \<in> {DPT_AND, DPT_OR}" "reads env user s1 n1" "reads env user s2 n2"
    and "s2 \<noteq> []" "hd s2 \<noteq> CHR ''=''"
  shows "reads env user (''('' @ s1 @ keyword t @ s2 @ '')'') (Opr t DP_FALSE n2 n1)"
  unfolding reads_def
proof (intro allI impI)
  fix rest :: string and st :: parse_state
  assume st: "\<not> v_opFlag (vars st)"
  let ?st1 = "st\<lparr>operatorStack := DPT_LEFT # operatorStack st\<rparr>"
  obtain v1 where v1: "neutral (vars st) v1" "\<not> v_opFlag v1"
    "parse_loop env user False (s1 @ keyword t @ s2 @ CHR '')'' # rest) ?st1 =
       parse_loop env user False (keyword t @ s2 @ CHR '')'' # rest) (push_operand n1 (?st1\<lparr>vars := v1\<rparr>))"
    using readsE [OF assms(3), of ?st1] st by auto
  let ?st2 = "(push_operand n1 (?st1\<lparr>vars := v1\<rparr>))\<lparr>operatorStack := t # DPT_LEFT # operatorStack st\<rparr>"
  have "parse_loop env user False (keyword t @ s2 @ CHR '')'' # rest) (push_operand n1 (?st1\<lparr>vars := v1\<rparr>)) =
      parse_loop env user False (s2 @ CHR '')'' # rest) ?st2"
    using assms(1,2,5,6) by (intro loop_operator) (auto simp: push_operand_def)
  moreover obtain v2 where v2: "neutral v1 v2"
    "parse_loop env user False (s2 @ CHR '')'' # rest) ?st2 =
       parse_loop env user False (CHR '')'' # rest) (push_operand n2 (?st2\<lparr>vars := v2\<rparr>))"
    using readsE [OF assms(4), of ?st2] v1(2) by (auto simp: push_operand_def)
  moreover have "mergeLeft (t # DPT_LEFT # operatorStack st) (n2 # n1 # operandStack st) =
      Some (operatorStack st, Opr t DP_FALSE n2 n1 # operandStack st)"
    using assms(2) by (auto simp: mergeLeft.simps)
  ultimately show "\<exists>v'. neutral (vars st) v' \<and>
      parse_loop env user False ((''('' @ s1 @ keyword t @ s2 @ '')'') @ rest) st =
      parse_loop env user False rest (push_operand (Opr t DP_FALSE n2 n1) (st\<lparr>vars := v'\<rparr>))"
    using v1 loop_right [of "push_operand n2 (?st2\<lparr>vars := v2\<rparr>)" "operatorStack st" "Opr t DP_FALSE n2 n1 # operandStack st"]
    by (intro exI [of _ v2]) (simp add: loop_left push_operand_def neutral_def)
qed

lemma print_expr_start: "expr_ok env e \<Longrightarrow> print_expr e \<noteq> [] \<and> hd (print_expr e) \<noteq> CHR ''=''"
  by (cases e) auto

lemma reads_expr: "expr_ok env e \<Longrightarrow> beyondPrece env \<le> 1 \<Longrightarrow> reads env user (print_expr e) (expr_tree env e)"
proof (induction e)
  case (EAnd e f)
  then show ?case using reads_binary [of env DPT_AND] print_expr_start [of env f] by simp
next
  case (EOr e f)
  then show ?case using reads_binary [of env DPT_OR] print_expr_start [of env f] by simp
next
  case (ENot e)
  then show ?case using reads_not print_expr_start [of env e] by simp
next
  case (EGrp t op n k)
  then show ?case using reads_group [of t op k env n] by (auto simp del: insert_iff)
next
  case (EJob t n)
  then show ?case using reads_job [of t env n] by (simp del: insert_iff)
next
  case (EExit op n c)
  then show ?case using reads_exit [of op c env n] by simp
qed

lemma parse_print:
  assumes "expr_ok env e" "beyondPrece env \<le> 1"
  shows "parseDepCond env user False (print_expr e) = Some (Inr (expr_tree env e), None)"
proof -
  obtain v' where "parse_loop env user False (print_expr e) init_state =
      parse_loop env user False [] (push_operand (expr_tree env e) (init_state\<lparr>vars := v'\<rparr>))"
    using readsE [OF reads_expr [OF assms], of init_state user "[]"] by (auto simp: init_state_def)
  moreover have "parse_loop env user False [] st = Some (st, True)" for st
    by (subst parse_loop.simps) (simp add: getToken_def)
  ultimately show ?thesis by (simp add: parseDepCond_def push_operand_def init_state_def mergeAll.simps)
qed

text \<open>The meaning of an expression.\<close>

definition job_value :: "dptType \<Rightarrow> dptType \<Rightarrow> int \<Rightarrow> djob \<Rightarrow> djob option \<Rightarrow> dpval" where
  "job_value t op c j jobRec =
     (if evalJobDep t op c j jobRec then DP_TRUE else if never_satisfied t j then DP_INVALID else DP_FALSE)"

definition group_value :: "dptType \<Rightarrow> dptType \<Rightarrow> int \<Rightarrow> jgArrayBase \<Rightarrow> dpval" where
  "group_value t op k b =
     (if jg_void b then DP_INVALID
      else if opExpr op (getCounterOfDep t (jg_counts b))
                (if k = INFINIT_INT \<and> jg_counts b JGRP_COUNT_NJOBS > 0 then jg_counts b JGRP_COUNT_NJOBS else k)
           then DP_TRUE else DP_FALSE)"

fun expr_value :: "dep_env \<Rightarrow> djob option \<Rightarrow> dep_expr \<Rightarrow> dpval" where
  "expr_value env jobRec (EJob t n) = job_value t DPT_TRUE 0 (job_at env n) jobRec"
| "expr_value env jobRec (EExit op n c) = job_value DPT_EXIT op (int c) (job_at env n) jobRec"
| "expr_value env jobRec (EGrp t op n k) = group_value t op (int k) (the (jgrps env (the (d_jgrp (job_at env n)))))"
| "expr_value env jobRec (ENot e) = (if expr_value env jobRec e = DP_TRUE then DP_FALSE else DP_TRUE)"
| "expr_value env jobRec (EAnd e f) = min (expr_value env jobRec e) (expr_value env jobRec f)"
| "expr_value env jobRec (EOr e f) = max (expr_value env jobRec e) (expr_value env jobRec f)"

lemma evalJobDep_op: "t \<noteq> DPT_EXIT \<Longrightarrow> evalJobDep t op c j d = evalJobDep t op' c' j d"
  by (simp add: evalJobDep_def split: dptType.split)

lemma truth_expr: "expr_ok env e \<Longrightarrow> truth env jobRec (expr_tree env e) = Some (expr_value env jobRec e) \<and> no_reject (expr_tree env e)"
proof (induction e)
  case (EJob t n)
  then show ?case
    using evalJobDep_op [of t DPT_AND 0 "job_at env n" jobRec DPT_TRUE 0]
    by (auto simp: job_node_def eval_job_def visited_jobs_def known_job_def job_at_def job_value_def)
next
  case (EExit op n c)
  then show ?case
    by (auto simp: job_node_def eval_job_def visited_jobs_def known_job_def job_at_def job_value_def)
next
  case (EGrp t op n k)
  then show ?case by (auto simp: eval_jgrp_def group_value_def Let_def)
qed (auto simp: min.commute max.commute)

text \<open>C2. Parsing and evaluating a fully parenthesised condition yields its meaning: every condition
  built from job conditions, exit comparisons and array counters with negation, conjunction and
  disjunction is accepted, no name is reported, and the evaluated tree has the value of the
  expression. The byte behind the precedence table, which is read for an open parenthesis, must not
  exceed the precedence of a disjunction.\<close>

theorem depcond_meaning:
  assumes "expr_ok env e" and "beyondPrece env \<le> 1"
  shows "\<exists>n n'. parseDepCond env user False (print_expr e) = Some (Inr n, None) \<and>
     evalDepCond env jobRec n = Some n' \<and> val n' = expr_value env jobRec e"
  using parse_print [OF assms] truth_expr [OF assms(1)] eval_truth by blast

lemma ex_known:
  "known_job ex_env 7" "job_at ex_env 7 = ex_job 7 JOB_STAT_DONE 100" "\<not> d_array (job_at ex_env 7)"
  "known_job ex_env 5" "d_jgrp (job_at ex_env 5) = Some 900"
proof -
  have ids: "LSB_JOBID 5 1 \<noteq> 5" "LSB_JOBID 5 3 \<noteq> 5" "LSB_JOBID 5 1 \<noteq> 7" "LSB_JOBID 5 3 \<noteq> 7" by code_simp+
  then have a: "getJobData ex_env 7 = Some 107" "getJobData ex_env 5 = Some 105"
    by (simp_all add: getJobData_def ex_env_def)
  then show "known_job ex_env 7" "job_at ex_env 7 = ex_job 7 JOB_STAT_DONE 100" "\<not> d_array (job_at ex_env 7)"
    "known_job ex_env 5" "d_jgrp (job_at ex_env 5) = Some 900"
    by (simp_all add: known_job_def job_at_def job_addr_def ex_defs)
qed

theorem depcond_meaning_witness:
  "\<exists>n n'. parseDepCond ex_env ''ann'' False (print_expr (EAnd (EJob DPT_DONE 7) (ENot (EGrp DPT_NUMRUN DPT_GT 5 1)))) =
      Some (Inr n, None) \<and> evalDepCond ex_env None n = Some n' \<and> val n' = DP_TRUE"
proof -
  have "jgrps ex_env 900 = Some \<lparr>jg_void = False, jg_counts = (\<lambda>_. 0)(0 := 2, 3 := 1, 7 := 1)\<rparr>"
    by (simp add: ex_env_def)
  then show ?thesis
    using depcond_meaning [of ex_env "EAnd (EJob DPT_DONE 7) (ENot (EGrp DPT_NUMRUN DPT_GT 5 1))" "''ann''" None] ex_known
    by (simp add: is_rel_def job_value_def group_value_def evalJobDep_def ended_after_def ex_job_def flag_def
        opExpr_def getCounterOfDep_def INFINIT_INT_def dpval_order ex_env_def)
qed

lemma loop_push:
  assumes "t \<in> {DPT_AND, DPT_OR}" "s \<noteq> [] \<and> hd s \<noteq> CHR ''=''" "push_operator env t st = Some st'"
  shows "parse_loop env user w (keyword t @ s) st = parse_loop env user w s st'"
proof (rule loop_token)
  show "getToken (keyword t @ s) = Some (t, keyword t, s)" using assms(1,2) by (intro getToken_sign) auto
  show "parse_step env user w t (keyword t) s st = Some (st', Some s)"
    using assms(1,3) by (auto simp: parse_step_def)
qed

abbreviation pstate :: "dptType list \<Rightarrow> dptNode list \<Rightarrow> parse_vars \<Rightarrow> parse_state" where
  "pstate ops nodes v \<equiv> \<lparr>operatorStack = ops, operandStack = nodes, vars = v, badName = None\<rparr>"

lemma loop_expr:
  assumes "expr_ok env e" "beyondPrece env \<le> 1" "\<not> v_opFlag v"
  obtains v' where "\<not> v_opFlag v'"
    "parse_loop env user False (print_expr e @ rest) (pstate ops nodes v) =
      parse_loop env user False rest (pstate ops (expr_tree env e # nodes) v')"
  using readsE [OF reads_expr [OF assms(1,2)], of "pstate ops nodes v" user rest thesis] assms(3)
  by (auto simp: push_operand_def)

lemma loop_end: "parse_loop env user w [] st = Some (st, True)"
  by (subst parse_loop.simps) (simp add: getToken_def)

text \<open>C31. Operators of equal precedence are not merged before one of lower precedence is pushed: in
  \<open>a && b && c || d\<close> only the last conjunction is, and the text is read as \<open>a && (b && c || d)\<close>. When
  \<open>a\<close> is false and \<open>d\<close> is true, the condition is false.\<close>

theorem precedence_wrong:
  assumes ok: "expr_ok env a" "expr_ok env b" "expr_ok env c" "expr_ok env d" and prece: "beyondPrece env \<le> 1"
  shows "\<exists>n n'. parseDepCond env user False
        (print_expr a @ ''&&'' @ print_expr b @ ''&&'' @ print_expr c @ ''||'' @ print_expr d) = Some (Inr n, None) \<and>
      evalDepCond env jobRec n = Some n' \<and>
      val n' = expr_value env jobRec (EAnd a (EOr (EAnd b c) d))"
proof -
  note start = print_expr_start [OF ok(2)] print_expr_start [OF ok(3)] print_expr_start [OF ok(4)]
  let ?a = "expr_tree env a" and ?b = "expr_tree env b" and ?c = "expr_tree env c" and ?d = "expr_tree env d"
  let ?bc = "Opr DPT_AND DP_FALSE ?c ?b"
  let ?n = "Opr DPT_AND DP_FALSE (Opr DPT_OR DP_FALSE ?d ?bc) ?a"
  obtain v0 where v0: "init_state = pstate [] [] v0" "\<not> v_opFlag v0" by (simp add: init_state_def)
  let ?s3 = "keyword DPT_OR @ print_expr d" and ?s2 = "keyword DPT_AND @ print_expr c @ keyword DPT_OR @ print_expr d"
  obtain v1 where v1: "\<not> v_opFlag v1" "parse_loop env user False (print_expr a @ keyword DPT_AND @ print_expr b @ ?s2) (pstate [] [] v0) =
      parse_loop env user False (keyword DPT_AND @ print_expr b @ ?s2) (pstate [] [?a] v1)"
    by (rule loop_expr [OF ok(1) prece v0(2)])
  obtain v2 where v2: "\<not> v_opFlag v2" "parse_loop env user False (print_expr b @ ?s2) (pstate [DPT_AND] [?a] v1) =
      parse_loop env user False ?s2 (pstate [DPT_AND] [?b, ?a] v2)"
    by (rule loop_expr [OF ok(2) prece v1(1)])
  obtain v3 where v3: "\<not> v_opFlag v3" "parse_loop env user False (print_expr c @ ?s3) (pstate [DPT_AND, DPT_AND] [?b, ?a] v2) =
      parse_loop env user False ?s3 (pstate [DPT_AND, DPT_AND] [?c, ?b, ?a] v3)"
    by (rule loop_expr [OF ok(3) prece v2(1)])
  obtain v4 where v4: "parse_loop env user False (print_expr d @ []) (pstate [DPT_OR, DPT_AND] [?bc, ?a] v3) =
      parse_loop env user False [] (pstate [DPT_OR, DPT_AND] [?d, ?bc, ?a] v4)"
    by (rule loop_expr [OF ok(4) prece v3(1)])
  have "parse_loop env user False (print_expr a @ keyword DPT_AND @ print_expr b @ ?s2) (pstate [] [] v0) =
      Some (pstate [DPT_OR, DPT_AND] [?d, ?bc, ?a] v4, True)"
    unfolding v1(2) using v2(2) v3(2) v4 start
    by (simp only: append_Nil2)
      (simp add: loop_push [where t = DPT_AND, simplified] loop_push [where t = DPT_OR, simplified]
        push_operator_def preceTable_def loop_end)
  then have "parseDepCond env user False
      (print_expr a @ ''&&'' @ print_expr b @ ''&&'' @ print_expr c @ ''||'' @ print_expr d) = Some (Inr ?n, None)"
    by (simp add: parseDepCond_def v0(1) mergeAll.simps)
  moreover have "truth env jobRec ?n = Some (expr_value env jobRec (EAnd a (EOr (EAnd b c) d)))" "no_reject ?n"
    using truth_expr ok by (auto simp: min.commute max.commute)
  ultimately show ?thesis using eval_truth by blast
qed

theorem precedence_wrong_witness:
  "\<exists>n n'. parseDepCond ex_env ''ann'' False
      (print_expr (EJob DPT_EXIT 7) @ ''&&'' @ print_expr (EJob DPT_DONE 7) @ ''&&'' @ print_expr (EJob DPT_DONE 7) @ ''||'' @
       print_expr (EJob DPT_DONE 7)) = Some (Inr n, None) \<and> evalDepCond ex_env None n = Some n' \<and> val n' = DP_INVALID"
  using precedence_wrong [of ex_env "EJob DPT_EXIT 7" "EJob DPT_DONE 7" "EJob DPT_DONE 7" "EJob DPT_DONE 7" "''ann''" None]
    ex_known(1-3)
  by (simp add: job_value_def evalJobDep_def never_satisfied_def ended_after_def ex_job_def flag_def status_class_defs
      dpval_order) (simp add: ex_env_def)

text \<open>An unmatched parenthesis in front of two conditions is not a syntax error: the final merge
  takes it for an operator on the two, the text is accepted, and the condition has the value false
  whatever happens to the jobs.\<close>

theorem unmatched_paren_accepted:
  assumes ok: "expr_ok env a" "expr_ok env b" and prece: "beyondPrece env \<le> 1"
  shows "\<exists>n. parseDepCond env user False (''('' @ print_expr a @ print_expr b) = Some (Inr n, None) \<and>
    evalDepCond env' jobRec n = Some n \<and> val n = DP_FALSE"
proof -
  let ?a = "expr_tree env a" and ?b = "expr_tree env b"
  obtain v0 where v0: "init_state = pstate [] [] v0" "\<not> v_opFlag v0" by (simp add: init_state_def)
  obtain v1 where v1: "\<not> v_opFlag v1" "parse_loop env user False (print_expr a @ print_expr b) (pstate [DPT_LEFT] [] v0) =
      parse_loop env user False (print_expr b) (pstate [DPT_LEFT] [?a] v1)"
    by (rule loop_expr [OF ok(1) prece v0(2)])
  obtain v2 where v2: "parse_loop env user False (print_expr b @ []) (pstate [DPT_LEFT] [?a] v1) =
      parse_loop env user False [] (pstate [DPT_LEFT] [?b, ?a] v2)"
    by (rule loop_expr [OF ok(2) prece v1(1)])
  have "parseDepCond env user False (''('' @ print_expr a @ print_expr b) = Some (Inr (Opr DPT_LEFT DP_FALSE ?b ?a), None)"
    using v1(2) v2 by (simp add: parseDepCond_def v0(1) loop_left loop_end mergeAll.simps)
  then show ?thesis by simp
qed

theorem unmatched_paren_accepted_witness:
  "\<exists>n. parseDepCond ex_env ''ann'' False (''('' @ print_expr (EJob DPT_DONE 7) @ print_expr (EJob DPT_DONE 7)) = Some (Inr n, None) \<and>
    evalDepCond ex_env None n = Some n \<and> val n = DP_FALSE"
  using ex_known(1-3) by (intro unmatched_paren_accepted) (simp_all add: ex_env_def)

lemma window_length_stuck:
  assumes "getToken s = Some (DPT_NAME, tok, s)"
  shows "window_length s = None"
proof -
  have "x \<noteq> s" if "window_length x = Some y" for x y
  proof (rule window_length.raw_induct [where P = "\<lambda>x y. x \<noteq> s", OF _ that])
    fix wl :: "string \<Rightarrow> nat option option" and x y
    assume IH: "\<And>x y. wl x = Some y \<Longrightarrow> x \<noteq> s"
    assume "(case getToken x of
        None \<Rightarrow> Some None
      | Some (t, tok, r) \<Rightarrow>
          if t = DPT_RIGHT then Some (Some 0)
          else if t \<noteq> DPT_NAME then Some None
          else Option.bind (wl r) (\<lambda>n. Some (map_option (\<lambda>k. k + length tok + 1) n))) = Some (y :: nat option)"
    then show "x \<noteq> s" using assms IH [of s] by (auto split: bind_splits)
  qed
  then show ?thesis by (cases "window_length s") auto
qed

text \<open>C33. The parser does not return for \<open>time(#\<close> followed by anything: \<open>getToken\<close> returns an empty name for
  a character that starts no token without passing over it, and the loop that measures the arguments
  asks for tokens until it sees a closing parenthesis.\<close>

theorem time_never_returns: "parseDepCond env user windowConf (''time(#'' @ s) = None"
proof -
  have "getToken (CHR ''#'' # s) = Some (DPT_NAME, [], CHR ''#'' # s)"
    by (simp add: token_simps name_token_def IS_QUOTE_def IS_VALIDCHAR_def)
  then have "window_term env (''(#'' @ s) st = None" for st
    by (simp add: window_term_def expect_parens window_length_stuck)
  moreover have "getToken (''time(#'' @ s) = Some (DPT_WINDOW, ''time'', ''(#'' @ s)" by (simp add: token_simps)
  ultimately have "parse_loop env user windowConf (''time(#'' @ s) init_state = None"
    by (subst parse_loop.simps) (simp add: parse_step_def)
  then show ?thesis by (simp add: parseDepCond_def)
qed

subsection \<open>The parser returns\<close>

text \<open>Every job the tables refer to exists.\<close>

definition env_live :: "dep_env \<Rightarrow> bool" where
  "env_live env \<longleftrightarrow>
     (\<forall>i a. jobIdHT env i = Some a \<longrightarrow> jobs env a \<noteq> None) \<and>
     (\<forall>children. groupRoot env = Some children \<longrightarrow> (\<forall>a\<in>set children. jobs env a \<noteq> None))"

lemma getJobData_live: "env_live env \<Longrightarrow> getJobData env i = Some a \<Longrightarrow> \<exists>j. jobs env a = Some j"
  by (fastforce simp: env_live_def getJobData_def split: if_splits)

lemma array_index_ranges:
  "\<not> replay env \<Longrightarrow> fst (array_index env name) = Some is \<Longrightarrow> \<forall>i\<in>set is. range_ok i \<and> i_step i < 2 ^ 31"
  using parse_ranges by (fastforce simp: array_index_def split: prod.splits)

lemma collect_range_returns:
  "range_loop i e step = Some js \<Longrightarrow> \<exists>r. collect_range env jobId i e step dep = Some r"
proof (induction js arbitrary: i dep)
  case Nil
  then have "\<not> i \<le> e" by (subst (asm) range_loop.simps) (auto split: if_splits bind_splits)
  then show ?case by (subst collect_range.simps) simp
next
  case (Cons j js)
  then have "range_loop (c_int (i + step)) e step = Some js"
    by (subst (asm) range_loop.simps) (auto split: if_splits bind_splits)
  then show ?case using Cons.IH by (subst collect_range.simps) (simp split: option.split)
qed

lemma collect_jobs_returns:
  "\<forall>i\<in>set is. range_ok i \<and> i_step i < 2 ^ 31 \<Longrightarrow> \<exists>r. collect_jobs env jobId is dep = Some r"
proof (induction "is" arbitrary: dep)
  case (Cons i "is")
  then obtain js where "range_loop (i_start i) (i_end i) (i_step i) = Some js" using range_loop_returns [of i] by auto
  from collect_range_returns [OF this, of env jobId dep]
  show ?case using Cons by (auto split: option.split sum.split)
qed simp

lemma jobs_of_user_returns:
  "\<forall>a\<in>set as. jobs env a \<noteq> None \<Longrightarrow> \<exists>found'. jobs_of_user env user wild as t found = Some found' \<and> set found' \<subseteq> set as \<union> set found"
  by (induction as arbitrary: t found) fastforce+

lemma check_idx_returns:
  assumes "\<not> replay env" "\<forall>a\<in>set found. jobs env a \<noteq> None"
  shows "\<exists>r. check_idx env one found idx v = Some r"
proof (cases "found = []")
  case False
  then obtain j where j: "jobs env (hd found) = Some j" using assms(2) by (metis hd_in_set not_None_eq)
  have "\<exists>r. check_one_to_one env j = Some r"
  proof (cases "fst (array_index env (d_jobName j))")
    case (Some "is")
    show ?thesis
    proof (cases "is")
      case (Cons d ds)
      then have "\<exists>js. range_loop (i_start d) (i_end d) (i_step d) = Some js"
        using range_loop_returns array_index_ranges [OF assms(1) Some] by auto
      then show ?thesis using Some Cons by (auto simp: check_one_to_one_def split: option.split list.split)
    qed (use Some in \<open>simp add: check_one_to_one_def\<close>)
  qed (simp add: check_one_to_one_def)
  then show ?thesis using False j by (auto simp: check_idx_def split: sum.split)
qed (simp add: check_idx_def)

lemma matchJobs_returns:
  assumes "\<not> replay env" "env_live env"
  shows "\<exists>r. matchJobs env user hasFlag jobp v = Some r"
proof -
  have number: "\<exists>r. match_number env one jobId (fst (array_index env p)) v = Some r" for one jobId p v
  proof (cases "getJobData env (word_of_int jobId)")
    case (Some a)
    then obtain j where j: "jobs env a = Some j" using getJobData_live [OF assms(2)] by auto
    let ?idx = "if fst (array_index env p) = None \<and> d_array j then fst (array_index env (d_jobName j)) else fst (array_index env p)"
    have "\<forall>i\<in>set is. range_ok i \<and> i_step i < 2 ^ 31" if "?idx = Some is" for "is"
      using that array_index_ranges [OF assms(1)] by (metis (full_types))
    then have "\<exists>r. collect_jobs env jobId is [] = Some r" if "?idx = Some is" for "is"
      using that collect_jobs_returns by blast
    moreover have "\<exists>r. check_idx env True [a] None v = Some r" using check_idx_returns [OF assms(1), of "[a]"] j by simp
    ultimately show ?thesis using Some j by (auto simp: match_number_def split: option.split sum.split)
  qed (simp add: match_number_def)
  have name: "\<exists>r. match_name env one user n idx v = Some r" for one n idx v
  proof (cases "groupRoot env")
    case (Some children)
    then have live: "\<forall>a\<in>set children. jobs env a \<noteq> None" using assms(2) by (auto simp: env_live_def)
    then obtain found where "jobs_of_user env user (last n = CHR ''*'') children 0 [] = Some found" "set found \<subseteq> set children"
      using jobs_of_user_returns [of children env user _ 0 "[]"] by fastforce
    moreover from this(2) live have "\<forall>a\<in>set found. jobs env a \<noteq> None" by auto
    from check_idx_returns [OF assms(1) this]
    have "\<exists>r. check_idx env one found (map_option (\<lambda>is. \<lparr>ji_idxList = Some is, ji_depJobList = []\<rparr>) idx) v = Some r" .
    ultimately show ?thesis using Some by (simp add: match_name_def)
  qed (simp add: match_name_def)
  obtain p star idx err where p: "cut_star jobp = (p, star)" "array_index env p = (idx, err)" by force
  have "\<exists>r. match_number env one jobId idx v = Some r" for one jobId v using number [of _ _ p] p(2) by simp
  then show ?thesis
    using name p by (auto simp: matchJobs_def Let_def)
qed

lemma quoted_split: "quoted n q s = (tok, r) \<Longrightarrow> s = tok @ r"
  by (induction n q s arbitrary: tok r rule: quoted.induct) (auto split: if_splits prod.splits)

lemma name_token_split:
  assumes "name_token pre s = (t, tok, r)" "pre = [] \<or> s \<noteq> [] \<and> \<not> IS_QUOTE (hd s)"
  shows "t = DPT_NAME \<and> tok @ r = pre @ s"
proof (cases "s \<noteq> [] \<and> IS_QUOTE (hd s)")
  case True
  obtain u v where q: "quoted (TOKEN_LEN - 2) (hd s) (tl s) = (u, v)" by force
  then have "hd s # u @ v = s" using True quoted_split [OF q] list.collapse [of s] by simp
  then show ?thesis using assms True q by (auto simp: name_token_def)
next
  case False
  let ?p = "\<lambda>c. IS_VALIDCHAR c \<and> \<not> IS_DELIM c"
  define body where "body = take (TOKEN_LEN - 1 - length pre) (takeWhile ?p s)"
  have "s = takeWhile ?p s @ dropWhile ?p s" by simp
  then have "prefix body s" unfolding body_def by (metis prefixI prefix_order.trans take_is_prefix)
  then have "body @ drop (length body) s = s" by (auto simp: prefix_def)
  then show ?thesis
    using assms(1) unfolding name_token_def if_not_P [OF False] Let_def body_def [symmetric] by auto
qed

lemma getToken_split:
  assumes "getToken s = Some (t, tok, r)"
  shows "tok @ r = dropWhile isspace s" "t \<noteq> DPT_NAME \<Longrightarrow> \<exists>c. (tok, t, c) \<in> set tokenTable"
proof -
  let ?s = "dropWhile isspace s"
  have names: "\<forall>(name, t, c)\<in>set tokenTable. name \<noteq> [] \<and> t \<noteq> DPT_NAME" by (simp add: tokenTable_def)
  have "tok @ r = ?s \<and> (t \<noteq> DPT_NAME \<longrightarrow> (\<exists>c. (tok, t, c) \<in> set tokenTable))"
  proof (cases "find (\<lambda>(name, _). prefix name ?s) tokenTable")
    case None
    then have "name_token [] ?s = (t, tok, r)" using assms by (simp add: getToken_def Let_def split: if_splits)
    then show ?thesis using name_token_split [of "[]" ?s t tok r] by simp
  next
    case (Some x)
    obtain name u c where x: "x = (name, u, c)" by (cases x)
    then have mem: "prefix name ?s" "(name, u, c) \<in> set tokenTable"
      using Some by (auto simp: find_Some_iff) (metis nth_mem)
    have n: "?s = name @ drop (length name) ?s" "name \<noteq> []" using names mem by (auto simp: prefix_def)
    let ?r = "drop (length name) ?s"
    show ?thesis
    proof (cases "c \<and> ?r \<noteq> [] \<and> (isalnum (hd ?r) \<or> hd ?r = CHR ''*'')")
      case True
      then have "\<not> IS_QUOTE (hd ?r)" by (auto simp: IS_QUOTE_def isalnum_def isalpha_def isdigit_def)
      moreover have "name_token name ?r = (t, tok, r)" using assms Some x n True by (auto simp: getToken_def Let_def split: if_splits)
      ultimately show ?thesis using name_token_split [of name ?r t tok r] True n by simp
    next
      case False
      then have "tok = name" "r = ?r" "t = u" using assms Some x n by (auto simp: getToken_def Let_def split: if_splits)
      then show ?thesis using n mem by auto
    qed
  qed
  then show "tok @ r = dropWhile isspace s" "t \<noteq> DPT_NAME \<Longrightarrow> \<exists>c. (tok, t, c) \<in> set tokenTable" by blast+
qed

lemma getToken_nonempty: "getToken s = Some (t, tok, r) \<Longrightarrow> t \<noteq> DPT_NAME \<Longrightarrow> tok \<noteq> []"
proof -
  have "\<forall>(name, t, c)\<in>set tokenTable. name \<noteq> []" by (simp add: tokenTable_def)
  then show "getToken s = Some (t, tok, r) \<Longrightarrow> t \<noteq> DPT_NAME \<Longrightarrow> tok \<noteq> []" using getToken_split(2) by fastforce
qed

lemma getToken_suffix:
  assumes "getToken s = Some (t, tok, r)"
  shows "suffix r s" "tok \<noteq> [] \<Longrightarrow> length r < length s" "t \<noteq> DPT_NAME \<Longrightarrow> length r < length s"
proof -
  note split = getToken_split(1) [OF assms]
  have "suffix r (dropWhile isspace s)" using split by (metis suffixI)
  then show suf: "suffix r s" using suffix_dropWhile suffix_order.trans by blast
  have "length tok + length r \<le> length s" using split by (metis length_append length_dropWhile_le)
  then show "tok \<noteq> [] \<Longrightarrow> length r < length s" by (cases tok) auto
  then show "t \<noteq> DPT_NAME \<Longrightarrow> length r < length s" using getToken_nonempty [OF assms] by blast
qed

lemma expect_suffix: "expect t s = Some r \<Longrightarrow> suffix r s"
  by (auto simp: expect_def split: option.splits if_splits dest: getToken_suffix(1))

lemma number_arg_suffix: "number_arg star tok s = Some (n, r) \<Longrightarrow> suffix r s"
  by (auto simp: number_arg_def split: if_splits dest: expect_suffix)

lemma rel_arg_suffix:
  assumes "rel_arg star s = Some (rel, r)"
  shows "suffix r s"
proof -
  obtain t tok r1 where t: "getToken s = Some (t, tok, r1)" using assms by (auto simp: rel_arg_def split: option.splits)
  then have s1: "suffix r1 s" by (rule getToken_suffix(1))
  show ?thesis
  proof (cases "t = DPT_COMMA")
    case False
    then show ?thesis using assms t s1 by (auto simp: rel_arg_def split: dptType.splits)
  next
    case True
    then obtain t2 tok2 r2 where t2: "getToken r1 = Some (t2, tok2, r2)"
      using assms t by (auto simp: rel_arg_def split: option.splits)
    then have s2: "suffix r2 r1" by (rule getToken_suffix(1))
    show ?thesis
    proof (cases "is_rel t2")
      case rel: True
      then obtain tok3 r3 where "getToken r2 = Some (DPT_NAME, tok3, r3)" "\<exists>n. number_arg star tok3 r3 = Some (n, r)"
        using assms t True t2 by (auto simp: rel_arg_def split: option.splits dptType.splits)
      then have "suffix r r3" "suffix r3 r2" using number_arg_suffix getToken_suffix(1) by blast+
      then show ?thesis using s1 s2 by (meson suffix_order.trans)
    next
      case False
      then have "\<exists>n. number_arg star tok2 r2 = Some (n, r)"
        using assms t True t2 by (auto simp: rel_arg_def split: if_splits)
      then show ?thesis using s1 s2 number_arg_suffix by (meson suffix_order.trans)
    qed
  qed
qed

lemma addWindow_returns:
  assumes "week_ok week"
  shows "\<exists>z. addWindow tok week = Some z \<and> (\<forall>week'. z = Some week' \<longrightarrow> week_ok week')"
proof (cases "strchr_split (CHR ''-'') tok")
  case (Some p)
  obtain u v where p: "p = (u, v)" by (cases p)
  have ext: "week_ok week'" if "extends D Q week week'" for D Q week' using that by (simp add: extends_def)
  show ?thesis
  proof (cases "parse_time u = None \<or> parse_time v = None")
    case True
    then show ?thesis using addWindow_spec [OF assms, of tok] Some p by (auto split: option.splits)
  next
    case False
    then obtain oh od ch cd where "parse_time u = Some (oh, od)" "parse_time v = Some (ch, cd)" by auto
    then show ?thesis using addWindow_spec [OF assms, of tok] Some p ext by (auto split: if_splits)
  qed
qed (use addWindow_spec [OF assms, of tok] in simp)

lemma window_words_returns:
  assumes "window_length s = Some z" "week_ok (w_week w)"
  shows "\<exists>z'. window_words s w = Some z' \<and> (\<forall>w' r. z' = Some (w', r) \<longrightarrow> suffix r s)"
proof -
  let ?P = "\<lambda>s. \<forall>w. week_ok (w_week w) \<longrightarrow> (\<exists>z'. window_words s w = Some z' \<and> (\<forall>w' r. z' = Some (w', r) \<longrightarrow> suffix r s))"
  have "?P s"
  proof (rule window_length.raw_induct [where P = "\<lambda>s z. ?P s", OF _ assms(1)], intro allI impI)
    fix wl :: "string \<Rightarrow> nat option option" and x y and w :: timeWindow
    assume IH: "\<And>x y. wl x = Some y \<Longrightarrow> ?P x" and week: "week_ok (w_week w)"
    assume step: "(case getToken x of
        None \<Rightarrow> Some None
      | Some (t, tok, r) \<Rightarrow>
          if t = DPT_RIGHT then Some (Some 0)
          else if t \<noteq> DPT_NAME then Some None
          else Option.bind (wl r) (\<lambda>n. Some (map_option (\<lambda>k. k + length tok + 1) n))) = Some (y :: nat option)"
    show "\<exists>z'. window_words x w = Some z' \<and> (\<forall>w' r. z' = Some (w', r) \<longrightarrow> suffix r x)"
    proof (cases "\<exists>tok r. getToken x = Some (DPT_NAME, tok, r)")
      case False
      then show ?thesis
        by (subst window_words.simps) (auto split: option.split dest: getToken_suffix(1))
    next
      case True
      then obtain tok r where tok: "getToken x = Some (DPT_NAME, tok, r)" by blast
      then obtain n where "wl r = Some n" using step by (auto split: bind_splits)
      then have IH': "?P r" using IH by blast
      obtain z where z: "addWindow tok (w_week w) = Some z" "\<forall>week'. z = Some week' \<longrightarrow> week_ok week'"
        using addWindow_returns [OF week] by blast
      show ?thesis
      proof (cases z)
        case None
        then show ?thesis using tok z by (subst window_words.simps) (simp add: Let_def)
      next
        case (Some week')
        let ?w = "w\<lparr>w_windows := (if w_windows w = [] then tok else w_windows w @ '' '' @ tok), w_week := week'\<rparr>"
        obtain z' where "window_words r ?w = Some z'" "\<forall>w' u. z' = Some (w', u) \<longrightarrow> suffix u r"
          using IH' [THEN spec, of ?w] z(2) Some by auto
        moreover have "window_words x w = window_words r ?w"
          using tok z Some by (subst window_words.simps) (simp add: Let_def)
        ultimately show ?thesis using getToken_suffix(1) [OF tok] by (auto intro: suffix_order.trans)
      qed
    qed
  qed
  then show ?thesis using assms(2) by blast
qed

text \<open>A step that neither crashes nor hangs, and passes over text it does not skip backwards.\<close>

definition step_ok :: "string \<Rightarrow> parse_result \<Rightarrow> bool" where
  "step_ok s res \<longleftrightarrow> (\<exists>st r. res = Some (st, r) \<and> (\<forall>r'. r = Some r' \<longrightarrow> suffix r' s))"

lemma step_ok_simps [simp]:
  "step_ok s (syntax_error st)" "step_ok s (Some (st, Some r)) \<longleftrightarrow> suffix r s"
  by (auto simp: step_ok_def syntax_error_def)

lemma join_nodes_returns: "\<exists>ops' nodes'. join_nodes ns ops (n # nodes) = Some (ops', nodes')"
  by (induction ns arbitrary: n nodes) auto

lemma push_jobs_returns: "found \<noteq> None \<Longrightarrow> \<exists>st'. push_jobs t rel setFlag found st = Some st'"
  using join_nodes_returns by (fastforce simp: push_jobs_def createMoreNodes_def split: list.split)

lemma job_term_ok:
  assumes "\<not> replay env" "env_live env"
  shows "step_ok s (job_term env user t s st)"
proof (cases "expect DPT_LEFT s")
  case (Some r)
  show ?thesis
  proof (cases "getToken r")
    case tok: (Some x)
    obtain u tok r1 where x: "x = (u, tok, r1)" by (cases x)
    obtain tok' v found where m: "matchJobs env user True tok (vars st) = Some (tok', v, found)"
      using matchJobs_returns [OF assms] by (metis prod_cases3)
    have suf: "suffix r1 s" using expect_suffix [OF Some] getToken_suffix(1) tok x by (meson suffix_order.trans)
    let ?args = "if t = DPT_EXIT then rel_arg False r1 else map_option (Pair None) (expect DPT_RIGHT r1)"
    show ?thesis
    proof (cases found)
      case None
      then show ?thesis using Some tok x m assms(1) by (simp add: job_term_def Let_def)
    next
      case f: (Some y)
      have push: "\<exists>st'. push_jobs t rel True (Some y) (st\<lparr>vars := v\<rparr>) = Some st'" for rel using push_jobs_returns by blast
      then obtain st0 where "push_jobs t None True (Some y) (st\<lparr>vars := v\<rparr>) = Some st0" by blast
      then have "job_term env user t s st = (case ?args of None \<Rightarrow> syntax_error (st\<lparr>vars := v\<rparr>)
          | Some (rel, r2) \<Rightarrow> map_option (\<lambda>st3. (st3, Some r2)) (push_jobs t rel True (Some y) (st\<lparr>vars := v\<rparr>)))"
        using Some tok x m by (simp add: job_term_def Let_def crash_or_def f)
      moreover have "suffix r2 s" if "?args = Some (rel, r2)" for rel r2
        using that rel_arg_suffix expect_suffix suf by (auto split: if_splits) (meson suffix_order.trans)+
      moreover obtain st3 where "push_jobs t (fst (the ?args)) True (Some y) (st\<lparr>vars := v\<rparr>) = Some st3" using push by blast
      ultimately show ?thesis by (cases ?args) auto
    qed
  qed (simp add: job_term_def Some)
qed (simp add: job_term_def)

lemma name_term_ok:
  assumes "\<not> replay env" "env_live env"
  shows "step_ok s (name_term env user tok s st)"
proof -
  obtain tok' v found where "matchJobs env user False tok (vars st) = Some (tok', v, found)"
    using matchJobs_returns [OF assms] by (metis prod_cases3)
  then show ?thesis
    using assms(1) push_jobs_returns [of found DPT_DONE None False "st\<lparr>vars := v\<rparr>"]
    by (cases found) (auto simp: name_term_def Let_def)
qed

lemma name_term_empty: "\<not> replay env \<Longrightarrow> name_term env user [] r st \<noteq> Some (st', Some r')"
proof -
  have "cut_star [] = ([], False)" by (simp add: cut_star_def)
  moreover have "array_index env [] = (None, LSBE_NO_ERROR)" by (simp add: array_index_def parseJobArrayIndex_def strchr_def)
  moreover have "\<not> isint []" by (simp add: isint_def)
  ultimately show "\<not> replay env \<Longrightarrow> name_term env user [] r st \<noteq> Some (st', Some r')"
    by (simp add: name_term_def matchJobs_def match_name_def Let_def syntax_error_def split: option.split)
qed

lemma group_term_ok:
  assumes "\<not> replay env" "env_live env"
  shows "step_ok s (group_term env t s st)"
proof (cases "expect DPT_LEFT s")
  case (Some r)
  show ?thesis
  proof (cases "getToken r")
    case tok: (Some x)
    obtain u tok r1 where x: "x = (u, tok, r1)" by (cases x)
    have suf: "suffix r1 s" using expect_suffix [OF Some] getToken_suffix(1) tok x by (meson suffix_order.trans)
    then have arg: "suffix r2 s" if "rel_arg True r1 = Some (rel, r2)" for rel r2
      using rel_arg_suffix [OF that] by (meson suffix_order.trans)
    let ?job = "if isint tok then getJobData env (word_of_int (atoi tok)) else None"
    show ?thesis
    proof (cases ?job)
      case None
      then show ?thesis using Some tok x assms(1) by (auto simp: group_term_def Let_def)
    next
      case a: (Some a)
      then obtain j where "jobs env a = Some j" using getJobData_live [OF assms(2)] by (auto split: if_splits)
      then show ?thesis using Some tok x a arg assms(1)
        by (cases "d_jgrp j") (auto simp: group_term_def Let_def split: option.split)
    qed
  qed (simp add: group_term_def Some)
qed (simp add: group_term_def)

text \<open>Wherever the word \<open>time\<close> with an open parenthesis occurs, the pass over the arguments ends.\<close>

definition measured :: "string \<Rightarrow> bool" where
  "measured s = list_all (\<lambda>u. case getToken u of
       None \<Rightarrow> True
     | Some (t, tok, r) \<Rightarrow> t = DPT_WINDOW \<longrightarrow>
         (case expect DPT_LEFT r of None \<Rightarrow> True | Some args \<Rightarrow> window_length args \<noteq> None)) (suffixes s)"

lemma measured_suffix: "suffix r s \<Longrightarrow> measured s \<Longrightarrow> measured r"
  unfolding measured_def list_all_iff in_set_suffixes by (meson in_set_suffixes suffix_order.trans)

lemma measured_time:
  "\<lbrakk>measured s; getToken s = Some (DPT_WINDOW, tok, r); expect DPT_LEFT r = Some args\<rbrakk> \<Longrightarrow> window_length args \<noteq> None"
  unfolding measured_def list_all_iff by (drule bspec [of _ _ s]) simp_all

lemma window_term_ok:
  assumes "\<And>args. expect DPT_LEFT s = Some args \<Longrightarrow> window_length args \<noteq> None"
  shows "step_ok s (window_term env s st)"
proof (cases "expect DPT_LEFT s")
  case (Some r)
  then have suf: "suffix r s" by (rule expect_suffix)
  then obtain z where z: "window_length r = Some z" using assms [OF Some] by blast
  have "week_ok (w_week newTimeWindow)" by (simp add: newTimeWindow_def week_ok_def)
  then obtain z' where "window_words r newTimeWindow = Some z'" "\<forall>w' u. z' = Some (w', u) \<longrightarrow> suffix u r"
    using window_words_returns [OF z] by blast
  then show ?thesis
    using Some z suf by (auto simp: window_term_def split: option.split intro: suffix_order.trans)
qed (simp add: window_term_def)

lemma parse_step_ok:
  assumes "\<not> replay env" "env_live env"
    "\<And>args. t = DPT_WINDOW \<Longrightarrow> expect DPT_LEFT r = Some args \<Longrightarrow> window_length args \<noteq> None"
  shows "step_ok r (parse_step env user w t tok r st)"
  using job_term_ok [OF assms(1,2)] name_term_ok [OF assms(1,2)] group_term_ok [OF assms(1,2)] window_term_ok [of r] assms(3)
  by (auto simp: parse_step_def split: option.split)

lemma parse_loop_returns:
  assumes "\<not> replay env" "env_live env" "measured s"
  shows "\<exists>z. parse_loop env user w s st = Some z"
  using assms(3)
proof (induction "length s" arbitrary: s st rule: less_induct)
  case less
  show ?case
  proof (cases "getToken s")
    case None
    then show ?thesis by (subst parse_loop.simps) auto
  next
    case (Some x)
    obtain t tok r where x: "x = (t, tok, r)" by (cases x)
    note tok = Some [unfolded x]
    have sub: "measured r" using less.prems getToken_suffix(1) [OF tok] measured_suffix by blast
    obtain st' z where step: "parse_step env user w t tok r st = Some (st', z)" "\<forall>r'. z = Some r' \<longrightarrow> suffix r' r"
      using parse_step_ok [OF assms(1,2), of t r user w tok st] measured_time [OF less.prems] tok unfolding step_ok_def by blast
    show ?thesis
    proof (cases z)
      case None
      then show ?thesis using tok step by (subst parse_loop.simps) auto
    next
      case z: (Some r')
      have "t \<noteq> DPT_NAME \<or> tok \<noteq> []"
        using step(1) z name_term_empty [OF assms(1), of user r st st' r'] by (auto simp: parse_step_def syntax_error_def split: if_splits)
      then have "length r' < length s"
        using getToken_suffix(2,3) [OF tok] step(2) z by (auto dest: suffix_length_le)
      moreover have "measured r'" using sub step(2) z measured_suffix by blast
      ultimately obtain y where "parse_loop env user w r' st' = Some y" using less.hyps by blast
      then show ?thesis using loop_token [OF tok] step(1) z by simp
    qed
  qed
qed

declare window_length.simps [code]

text \<open>C10. Outside of event replay the parser returns for every text, provided that the pass that measures
  the arguments of \<open>time(...)\<close> ends wherever the text has the word \<open>time\<close> before an open parenthesis: every other
  token is either passed over or a syntax error, the
  searches for jobs end, and no pointer is followed that is not valid. The tables may only refer to
  existing jobs.\<close>

theorem parseDepCond_returns:
  assumes "\<not> replay env" and "env_live env" and "measured dependCond"
  shows "\<exists>z. parseDepCond env user windowConf dependCond = Some z"
  using parse_loop_returns [OF assms, of user windowConf init_state] by (auto simp: parseDepCond_def)

theorem parseDepCond_returns_witness:
  "(\<exists>z. parseDepCond ex_env ''ann'' False ''done(a[2]) && time(8:00-18:30) 7'' = Some z) \<and>
   (\<exists>z. parseDepCond ex_env ''ann'' False ''done(#) || (#'' = Some z)"
proof -
  have "\<not> replay ex_env" "env_live ex_env" by (auto simp: ex_env_def env_live_def split: if_splits)
  moreover have "measured ''done(a[2]) && time(8:00-18:30) 7''" "measured ''done(#) || (#''" by code_simp+
  ultimately show ?thesis by (intro conjI parseDepCond_returns)
qed

subsection \<open>Conditions on names\<close>

lemma jobs_of_user_all:
  assumes "\<not> jobDepLastSub env" "\<forall>a\<in>set as. jobs env a \<noteq> None"
  shows "jobs_of_user env user wild as t found = Some (found @ filter (\<lambda>a. d_user (the (jobs env a)) = user) as)"
  using assms(2) by (induction as arbitrary: found) (auto simp: assms(1))

text \<open>C32. A name in a condition is not compared with the names of the jobs: unless only the job submitted
  last is wanted, a condition on any name made of letters is a condition on all jobs of the user at the
  top level, whatever they are called.\<close>

theorem matchJobs_ignores_name:
  assumes "name \<noteq> []" and "\<forall>c\<in>set name. isalpha c"
    and "\<not> jobDepLastSub env" and "groupRoot env = Some children" and "\<forall>a\<in>set children. jobs env a \<noteq> None"
    and "\<not> v_opFlag v" and "\<exists>a\<in>set children. d_user (the (jobs env a)) = user"
  shows "matchJobs env user hasFlag name v =
    (let found = filter (\<lambda>a. d_user (the (jobs env a)) = user) children
     in Some (name, v\<lparr>v_element := 0, v_numJob := length found\<rparr>, Some (found, None)))"
proof -
  have bracket: "CHR ''['' \<notin> set name" using assms(2) by (auto simp: isalpha_def)
  have "\<not> prefix ''[*]'' (drop m name)" for m using bracket by (auto simp: prefix_def dest: in_set_dropD) (metis in_set_dropD list.set_intros(1))
  then have star: "cut_star name = (name, False)" by (auto simp: cut_star_def find_None_iff split: option.split)
  have "dropWhile (\<lambda>x. x \<noteq> CHR ''['') name = []" using bracket by auto
  then have "strchr name (CHR ''['') = None" unfolding strchr_def by (simp only: list.case)
  then have index: "array_index env name = (None, LSBE_NO_ERROR)" by (simp add: array_index_def parseJobArrayIndex_def)
  have tok: "takeWhile (\<lambda>c. c \<noteq> CHR ''['') name = name" using bracket by auto
  obtain c cs where n: "name = c # cs" "isalpha c" using assms(1,2) by (cases name) auto
  have "\<not> isspace c" "\<not> isdigit c" "c \<noteq> CHR ''-''" "c \<noteq> CHR ''+''" using n(2) by (auto simp: isalpha_def isspace_def isdigit_def)
  then have noint: "\<not> isint name" using n(1) by (simp add: isint_def strtol_def Let_def)
  have noquote: "\<not> IS_QUOTE (hd name)" using n by (auto simp: IS_QUOTE_def isalpha_def)
  show ?thesis
    using jobs_of_user_all [OF assms(3,5), of user _ 0 "[]"] assms star index noint noquote
    by (cases v) (auto simp: matchJobs_def match_name_def check_idx_def Let_def filter_empty_conv tok)
qed

theorem matchJobs_ignores_name_witness:
  "\<exists>v'. matchJobs ex_env ''ann'' True ''nosuchjob'' (vars init_state) = Some (''nosuchjob'', v', Some ([107, 105], None))"
  using matchJobs_ignores_name [of "''nosuchjob''" ex_env "[107, 105]" "vars init_state" "''ann''" True]
  by (simp add: ex_defs isalpha_def init_state_def)

end
