(* ===== verification/Hash_Tab.thy ===== *)
theory Hash_Tab
  imports Link_Ring C_Strings "HOL-Library.Multiset"
begin

text \<open>
  The hash tables of \<open>lsf/lib/lib.table.c\<close>: an array of slot headers, each the head of a circular list
  of entries in the pointer store, with growth, iteration and destruction; and the membership tables of
  \<open>lsbatch/lib/lsb.misc.c\<close> on top of them.

  Memory comes from an allocator that does not run out and does not hand out freed memory again;
  \<open>freed\<close> records what was given back. An entry holds its own copy of the key, which \<open>putstr_\<close> allocates:
  \<open>keyAddr\<close> is the address of the copy, the pointer in the field \<open>keyname\<close> of the code, and \<open>keyname\<close> the text there.
\<close>

subsection \<open>Data\<close>

record hheap = links +
  keyname :: "addr \<Rightarrow> string"
  keyAddr :: "addr \<Rightarrow> addr"
  hData :: "addr \<Rightarrow> addr"
  brk :: addr
  freed :: "addr list"

record hTab =
  slotPtr :: addr
  numEnts :: int
  tsize :: nat

definition malloc :: "nat \<Rightarrow> hheap \<Rightarrow> addr \<times> hheap" where
  "malloc n h = (brk h, h\<lparr>brk := brk h + n\<rparr>)"

definition free_at :: "addr \<Rightarrow> hheap \<Rightarrow> hheap" where
  "free_at p h = h\<lparr>freed := p # freed h\<rparr>"

definition primes :: "int list" where
  "primes = [101, 1009, 5009, 10007, 20011, 50021, 100003, 200003, 500009, 1030637]"

definition getClosestPrime :: "int \<Rightarrow> int" where
  "getClosestPrime x = (case find (\<lambda>p. x < p) primes of Some p \<Rightarrow> p | None \<Rightarrow> last primes)"

subsection \<open>Operations\<close>

fun init_slots :: "addr \<Rightarrow> nat \<Rightarrow> hheap \<Rightarrow> hheap option" where
  "init_slots p 0 h = Some h"
| "init_slots p (Suc n) h = Option.bind (initList h p) (init_slots (p + 1) n)"

definition h_initTab :: "int \<Rightarrow> hheap \<Rightarrow> (hheap \<times> hTab) option" where
  "h_initTab numSlots h =
     (let n = nat (getClosestPrime numSlots);
          (p, h1) = malloc n h
      in map_option (\<lambda>h2. (h2, \<lparr>slotPtr = p, numEnts = 0, tsize = n\<rparr>)) (init_slots p n h1))"

text \<open>The hash of a key: \<open>char\<close> is signed, the sum is an unsigned 32-bit number.\<close>

definition schar :: "char \<Rightarrow> int" where
  "schar c = (if of_char c < (128::nat) then int (of_char c) else int (of_char c) - 256)"

definition getAddr :: "nat \<Rightarrow> string \<Rightarrow> nat" where
  "getAddr sz key = nat (foldl (\<lambda>ha c. (ha * 128 + schar c) mod 2 ^ 32 mod int sz) 0 key)"

partial_function (option) find_from :: "hheap \<Rightarrow> string \<Rightarrow> addr \<Rightarrow> addr \<Rightarrow> addr option" where
  "find_from h key hList e =
     (if e = hList then Some NULL
      else if e = NULL then None
      else if keyname h e = key then Some e
      else find_from h key hList (backw h e))"

definition h_findEnt :: "hheap \<Rightarrow> string \<Rightarrow> addr \<Rightarrow> addr option" where
  "h_findEnt h key hList = Option.bind (ld_back h hList) (find_from h key hList)"

definition slot :: "hTab \<Rightarrow> string \<Rightarrow> addr" where
  "slot t key = slotPtr t + getAddr (tsize t) key"

definition h_getEnt :: "hheap \<Rightarrow> hTab \<Rightarrow> string \<Rightarrow> addr option" where
  "h_getEnt h t key = (if numEnts t = 0 then Some NULL else h_findEnt h key (slot t key))"

partial_function (option) move_slot :: "addr \<Rightarrow> hheap \<Rightarrow> hTab \<Rightarrow> (hheap \<times> hTab) option" where
  "move_slot lastList h t =
     (if lastList = NULL then None
      else if backw h lastList = lastList then Some (h, t)
      else
        let e = backw h lastList
        in Option.bind (remList h e) (\<lambda>h1.
             Option.bind (insList h1 e (slot t (keyname h1 e))) (\<lambda>h2.
               move_slot lastList h2 (t\<lparr>numEnts := numEnts t + 1\<rparr>))))"

fun move_slots :: "addr \<Rightarrow> nat \<Rightarrow> hheap \<Rightarrow> hTab \<Rightarrow> (hheap \<times> hTab) option" where
  "move_slots p 0 h t = Some (h, t)"
| "move_slots p (Suc n) h t = Option.bind (move_slot p h t) (\<lambda>(h1, t1). move_slots (p + 1) n h1 t1)"

abbreviation (input) RESETFACTOR :: int where "RESETFACTOR \<equiv> 2"

definition resetTab :: "hheap \<Rightarrow> hTab \<Rightarrow> (hheap \<times> hTab) option" where
  "resetTab h t = do {
     (h1, t1) \<leftarrow> h_initTab (int (tsize t) * RESETFACTOR) h;
     (h2, t2) \<leftarrow> move_slots (slotPtr t) (tsize t) h1 t1;
     Some (free_at (slotPtr t) h2, t2)
   }"

text \<open>\<open>numEnts >= 1.5 * size\<close>\<close>

definition table_full :: "hTab \<Rightarrow> bool" where
  "table_full t \<longleftrightarrow> 2 * numEnts t \<ge> 3 * int (tsize t)"

text \<open>The copy of a key: as many bytes as the key has and one for the end.\<close>

definition putstr :: "addr \<Rightarrow> string \<Rightarrow> hheap \<Rightarrow> hheap" where
  "putstr e key h =
     (let (k, h1) = malloc (length key + 1) h
      in h1\<lparr>keyname := (keyname h1)(e := key), keyAddr := (keyAddr h1)(e := k)\<rparr>)"

text \<open>Freeing the copy: \<open>free\<close> of a null pointer does nothing.\<close>

definition free_key :: "addr \<Rightarrow> hheap \<Rightarrow> hheap" where
  "free_key e h = (if keyAddr h e = NULL then h else free_at (keyAddr h e) h)"

definition h_addEnt :: "hheap \<Rightarrow> hTab \<Rightarrow> string \<Rightarrow> (hheap \<times> hTab \<times> addr \<times> bool) option" where
  "h_addEnt h t key = do {
     e \<leftarrow> h_findEnt h key (slot t key);
     if e \<noteq> NULL then Some (h, t, e, False)
     else do {
       (h1, t1) \<leftarrow> (if table_full t then resetTab h t else Some (h, t));
       let (e, h2) = malloc 1 h1;
       let h3 = putstr e key h2;
       h4 \<leftarrow> insList (h3\<lparr>hData := (hData h3)(e := NULL)\<rparr>) e (slot t1 key);
       Some (h4, t1\<lparr>numEnts := numEnts t1 + 1\<rparr>, e, True)
     }
   }"

definition h_rmEnt :: "hheap \<Rightarrow> hTab \<Rightarrow> addr \<Rightarrow> (hheap \<times> hTab) option" where
  "h_rmEnt h t e =
     (if e = NULL then Some (h, t)
      else map_option (\<lambda>h1. (free_at e (free_key e h1), t\<lparr>numEnts := numEnts t - 1\<rparr>)) (remList h e))"

definition h_delRef :: "hheap \<Rightarrow> hTab \<Rightarrow> addr \<Rightarrow> (hheap \<times> hTab) option" where
  "h_delRef h t e =
     (if e = NULL then Some (h, t)
      else map_option (\<lambda>h1. (free_at e (free_key e h1), t\<lparr>numEnts := numEnts t - 1\<rparr>)) (remList h e))"

definition free_data :: "addr \<Rightarrow> hheap \<Rightarrow> hheap" where
  "free_data e h = (if hData h e = NULL then h else free_at (hData h e) h)"

definition h_delEnt :: "hheap \<Rightarrow> hTab \<Rightarrow> addr \<Rightarrow> (hheap \<times> hTab) option" where
  "h_delEnt h t e =
     (if e = NULL then Some (h, t)
      else map_option (\<lambda>h1. (free_at e (free_data e (free_key e h1)), t\<lparr>numEnts := numEnts t - 1\<rparr>)) (remList h e))"

definition HTAB_ZERO_OUT :: "hTab \<Rightarrow> hTab" where
  "HTAB_ZERO_OUT t = t\<lparr>numEnts := 0, tsize := 0\<rparr>"

definition h_TabEmpty :: "hTab \<Rightarrow> bool" where
  "h_TabEmpty t \<longleftrightarrow> numEnts t = 0"

text \<open>
  Destruction. \<open>release\<close> is what happens to the data of an entry: nothing in \<open>h_freeRefTab_\<close>, the
  caller's function or \<open>free\<close> in \<open>h_freeTab_\<close>.
\<close>

partial_function (option) free_slot :: "(addr \<Rightarrow> hheap \<Rightarrow> hheap) \<Rightarrow> addr \<Rightarrow> hheap \<Rightarrow> hheap option" where
  "free_slot release p h =
     (if p = NULL then None
      else if backw h p = p then Some h
      else
        let e = backw h p
        in Option.bind (remList h e) (\<lambda>h1. free_slot release p (free_at e (release e (free_key e h1)))))"

fun free_slots :: "(addr \<Rightarrow> hheap \<Rightarrow> hheap) \<Rightarrow> addr \<Rightarrow> nat \<Rightarrow> hheap \<Rightarrow> hheap option" where
  "free_slots release p 0 h = Some h"
| "free_slots release p (Suc n) h = Option.bind (free_slot release p h) (free_slots release (p + 1) n)"

definition drop_table :: "(addr \<Rightarrow> hheap \<Rightarrow> hheap) \<Rightarrow> hheap \<Rightarrow> hTab \<Rightarrow> (hheap \<times> hTab) option" where
  "drop_table release h t =
     map_option (\<lambda>h1. (free_at (slotPtr t) h1, t\<lparr>slotPtr := NULL, numEnts := 0\<rparr>))
       (free_slots release (slotPtr t) (tsize t) h)"



definition h_freeRefTab :: "hheap \<Rightarrow> hTab \<Rightarrow> (hheap \<times> hTab) option" where
  "h_freeRefTab = drop_table (\<lambda>e h. h)"

subsection \<open>Iteration\<close>

record sTab =
  nIndex :: nat
  hEntPtr :: addr
  hList :: addr

fun next_slot :: "nat \<Rightarrow> hheap \<Rightarrow> hTab \<Rightarrow> sTab \<Rightarrow> addr \<times> sTab" where
  "next_slot 0 h t s = (NULL, s)"
| "next_slot (Suc n) h t s =
     (let p = slotPtr t + nIndex s; s1 = s\<lparr>nIndex := nIndex s + 1\<rparr>
      in if p \<noteq> backw h p then (backw h p, s1\<lparr>hList := p\<rparr>) else next_slot n h t s1)"

definition h_nextEnt :: "hheap \<Rightarrow> hTab \<Rightarrow> sTab \<Rightarrow> addr \<times> sTab" where
  "h_nextEnt h t s =
     (let (e, s1) = (if hEntPtr s = NULL \<or> hEntPtr s = hList s then next_slot (tsize t - nIndex s) h t s
                     else (hEntPtr s, s))
      in if e = NULL then (NULL, s1) else (e, s1\<lparr>hEntPtr := backw h e\<rparr>))"

definition h_firstEnt :: "hheap \<Rightarrow> hTab \<Rightarrow> sTab \<Rightarrow> addr \<times> sTab" where
  "h_firstEnt h t s0 =
     (let s = s0\<lparr>nIndex := 0, hEntPtr := NULL\<rparr> in if slotPtr t \<noteq> NULL then h_nextEnt h t s else (NULL, s))"

text \<open>The entries the iteration macros visit, with an upper bound on their number.\<close>

fun iterate :: "nat \<Rightarrow> hheap \<Rightarrow> hTab \<Rightarrow> addr \<times> sTab \<Rightarrow> addr list" where
  "iterate 0 h t (e, s) = []"
| "iterate (Suc n) h t (e, s) = (if e = NULL then [] else e # iterate n h t (h_nextEnt h t s))"

subsection \<open>Membership tables\<close>

definition addMembStr :: "hheap \<Rightarrow> hTab \<Rightarrow> string \<Rightarrow> (hheap \<times> hTab \<times> addr) option" where
  "addMembStr h t key =
     map_option (\<lambda>(h1, t1, e, isNew). (h1, t1, if isNew then e else NULL)) (h_addEnt h t key)"

definition remvMembStr :: "hheap \<Rightarrow> hTab \<Rightarrow> string \<Rightarrow> (hheap \<times> hTab \<times> bool) option" where
  "remvMembStr h t key = do {
     e \<leftarrow> h_getEnt h t key;
     if e = NULL then Some (h, t, False)
     else map_option (\<lambda>(h1, t1). (h1, t1, True)) (h_delEnt (h\<lparr>hData := (hData h)(e := NULL)\<rparr>) t e)
   }"

definition chekMembStr :: "hheap \<Rightarrow> hTab \<Rightarrow> string \<Rightarrow> addr option" where
  "chekMembStr h t key = h_getEnt h t key"

text \<open>The same with a number as the key, printed as by \<open>%lld\<close>.\<close>

definition addMemb :: "hheap \<Rightarrow> hTab \<Rightarrow> int \<Rightarrow> (hheap \<times> hTab \<times> addr) option" where
  "addMemb h t i = addMembStr h t (print_int i)"

definition remvMemb :: "hheap \<Rightarrow> hTab \<Rightarrow> int \<Rightarrow> (hheap \<times> hTab \<times> bool) option" where
  "remvMemb h t i = remvMembStr h t (print_int i)"

definition chekMemb :: "hheap \<Rightarrow> hTab \<Rightarrow> int \<Rightarrow> addr option" where
  "chekMemb h t i = chekMembStr h t (print_int i)"

definition initTab :: "hheap \<Rightarrow> (hheap \<times> hTab) option" where
  "initTab = h_initTab 50"

subsection \<open>Slots in memory\<close>

text \<open>The slot headers from \<open>p\<close> on hold the lists \<open>cs\<close>, in disjoint memory.\<close>

definition slot_addrs :: "addr \<Rightarrow> addr list list \<Rightarrow> addr list" where
  "slot_addrs p cs = [p..<p + length cs] @ concat cs"

definition slots_at :: "'a links_scheme \<Rightarrow> addr \<Rightarrow> addr list list \<Rightarrow> bool" where
  "slots_at h p cs \<longleftrightarrow> distinct (slot_addrs p cs) \<and> (\<forall>i < length cs. ring h (p + i) (cs ! i))"

lemma slot_addrs_distinct:
  "distinct (slot_addrs p cs) \<longleftrightarrow> distinct (concat cs) \<and> (\<forall>j < length cs. p + j \<notin> set (concat cs))"
proof -
  have "{p..<p + length cs} = {p + j | j. j < length cs}"
    by (auto simp: nat_le_iff_add)
  then show ?thesis by (auto simp: slot_addrs_def simp del: upt_Suc)
qed

lemma slot_addrs_iff: "a \<in> set (slot_addrs p cs) \<longleftrightarrow> (\<exists>j < length cs. a = p + j) \<or> a \<in> set (concat cs)"
proof -
  have "a \<in> {p..<p + length cs} \<longleftrightarrow> (\<exists>j < length cs. a = p + j)"
    by (auto simp: nat_le_iff_add)
  then show ?thesis by (simp add: slot_addrs_def)
qed

text \<open>The links outside of \<open>A\<close> are the same.\<close>

definition links_eq :: "addr set \<Rightarrow> 'a links_scheme \<Rightarrow> 'b links_scheme \<Rightarrow> bool" where
  "links_eq A h h' \<longleftrightarrow> (\<forall>a. a \<notin> A \<longrightarrow> forw h' a = forw h a \<and> backw h' a = backw h a)"

lemma links_eq_trans: "links_eq A h h1 \<Longrightarrow> links_eq B h1 h2 \<Longrightarrow> A \<subseteq> C \<Longrightarrow> B \<subseteq> C \<Longrightarrow> links_eq C h h2"
  unfolding links_eq_def by (metis subsetD)

lemma links_eq_mono: "links_eq A h h' \<Longrightarrow> A \<subseteq> B \<Longrightarrow> links_eq B h h'"
  unfolding links_eq_def by (metis subsetD)

lemma ring_frame: "links_eq A h h' \<Longrightarrow> set (s # xs) \<inter> A = {} \<Longrightarrow> ring h s xs \<Longrightarrow> ring h' s xs"
proof -
  assume eq: "links_eq A h h'" and d: "set (s # xs) \<inter> A = {}" and r: "ring h s xs"
  have "a \<notin> A" if "a \<in> set (s # xs)" for a using d that by blast
  then have "ring h' s xs = ring h s xs" using eq by (intro ring_cong) (auto simp: links_eq_def)
  then show ?thesis using r by simp
qed

lemma slots_frame:
  assumes "links_eq A h h'" "set (slot_addrs p cs) \<inter> A = {}" "slots_at h p cs"
  shows "slots_at h' p cs"
proof -
  have "ring h' (p + i) (cs ! i)" if i: "i < length cs" for i
  proof (rule ring_frame [OF assms(1)])
    have "set ((p + i) # cs ! i) \<subseteq> set (slot_addrs p cs)"
      using i nth_mem [OF i] by (auto simp: slot_addrs_iff)
    then show "set ((p + i) # cs ! i) \<inter> A = {}" using assms(2) by blast
  qed (use assms(3) i in \<open>simp add: slots_at_def\<close>)
  then show ?thesis using assms(3) by (simp add: slots_at_def)
qed

lemma slots_split:
  assumes "slots_at h p (us @ xs # vs)"
  shows "ring h (p + length us) xs" "distinct (slot_addrs p (us @ xs # vs))"
  using assms by (auto simp: slots_at_def dest: spec [of _ "length us"])

lemma slots_change:
  assumes "slots_at h p (us @ xs # vs)" "ring h' (p + length us) ys"
    and "links_eq A h h'" "A \<subseteq> insert (p + length us) (set xs \<union> set ys)"
    and "distinct (slot_addrs p (us @ ys # vs))"
  shows "slots_at h' p (us @ ys # vs)"
proof -
  have "ring h' (p + i) ((us @ ys # vs) ! i)" if i: "i < length (us @ ys # vs)" for i
  proof (cases "i = length us")
    case False
    then have same: "(us @ ys # vs) ! i = (us @ xs # vs) ! i" by (simp add: nth_append nth_Cons')
    have "ring h (p + i) ((us @ xs # vs) ! i)" using assms(1) i by (simp add: slots_at_def)
    moreover have "set ((p + i) # (us @ xs # vs) ! i) \<inter> A = {}"
    proof -
      define U where "U = set (concat us @ concat vs)"
      have "(us @ xs # vs) ! i \<in> set us \<union> set vs"
        using False i by (auto simp: nth_append nth_Cons')
      then have "set ((us @ xs # vs) ! i) \<subseteq> U" by (auto simp: U_def)
      moreover have "U \<inter> (set xs \<union> set ys) = {}" "p + length us \<notin> U" "p + i \<notin> set xs \<union> set ys"
        using assms(1,5) i unfolding slots_at_def slot_addrs_distinct U_def by auto
      moreover have "p + i \<noteq> p + length us" using False by simp
      ultimately show ?thesis using assms(4) by auto
    qed
    ultimately show ?thesis using ring_frame [OF assms(3)] same by simp
  qed (use assms(2) in simp)
  then show ?thesis using assms(5) by (simp add: slots_at_def)
qed

lemma slots_insert:
  assumes "slots_at h p (us @ xs # vs)" "e \<notin> set (slot_addrs p (us @ xs # vs))" "e \<noteq> NULL"
  shows "\<exists>h'. insList h e (p + length us) = Some h' \<and> slots_at h' p (us @ (xs @ [e]) # vs) \<and>
    links_eq (insert e (set (slot_addrs p (us @ xs # vs)))) h h' \<and>
    h' = h\<lparr>forw := forw h', backw := backw h'\<rparr>"
proof -
  let ?s = "p + length us"
  note r = slots_split [OF assms(1)]
  have new: "e \<notin> set (concat (us @ xs # vs))" "\<forall>j < length (us @ xs # vs). e \<noteq> p + j"
    using assms(2) unfolding slot_addrs_iff by blast+
  then have e: "e \<notin> set (NULL # ?s # xs)" using assms(3) by simp
  let ?h = "splice_in h (last (?s # xs)) e ?s"
  have ins: "insList h e ?s = Some ?h" using insList_eq [of h ?s xs "[]" e] r(1) e by simp
  have ring: "ring ?h ?s (xs @ [e])" using ring_splice_in [of h ?s xs "[]" e] r(1) e by simp
  have last: "last (?s # xs) \<in> insert ?s (set xs)" using last_in_set [of xs] by auto
  then have eq: "links_eq (insert e (insert ?s (set xs))) h ?h"
    by (simp add: links_eq_def splice_in_def)
  have dist: "distinct (slot_addrs p (us @ (xs @ [e]) # vs))"
    using r(2) new unfolding slot_addrs_distinct by (simp add: eq_commute)
  have "slots_at ?h p (us @ (xs @ [e]) # vs)" by (rule slots_change [OF assms(1) ring eq _ dist]) auto
  moreover have "links_eq (insert e (set (slot_addrs p (us @ xs # vs)))) h ?h"
    by (rule links_eq_mono [OF eq]) (auto simp: slot_addrs_iff)
  moreover have "?h = h\<lparr>forw := forw ?h, backw := backw ?h\<rparr>" by (simp add: splice_in_def)
  ultimately show ?thesis using ins by blast
qed

lemma slots_remove:
  assumes "slots_at h p (us @ (xs @ e # ys) # vs)"
  shows "\<exists>h'. remList h e = Some h' \<and> slots_at h' p (us @ (xs @ ys) # vs) \<and>
    links_eq (set (slot_addrs p (us @ (xs @ ys) # vs))) h h' \<and>
    h' = h\<lparr>forw := forw h', backw := backw h'\<rparr>"
proof -
  let ?s = "p + length us" and ?h = "splice_out h e"
  note r = slots_split [OF assms]
  have rem: "remList h e = Some ?h" by (rule remList_eq [OF r(1)])
  have ring: "ring ?h ?s (xs @ ys)" by (rule ring_splice_out [OF r(1)])
  have "forw h e \<in> insert ?s (set (xs @ ys))" "backw h e \<in> insert ?s (set (xs @ ys))"
    using ring_split_links [OF r(1)] by (cases ys; cases xs rule: rev_cases; simp)+
  then have eq: "links_eq (insert ?s (set (xs @ ys))) h ?h"
    by (auto simp: links_eq_def splice_out_def)
  have dist: "distinct (slot_addrs p (us @ (xs @ ys) # vs))" using r(2) unfolding slot_addrs_distinct by auto
  have "slots_at ?h p (us @ (xs @ ys) # vs)" by (rule slots_change [OF assms ring eq _ dist]) auto
  moreover have "links_eq (set (slot_addrs p (us @ (xs @ ys) # vs))) h ?h"
    by (rule links_eq_mono [OF eq]) (auto simp: slot_addrs_iff)
  moreover have "?h = h\<lparr>forw := forw ?h, backw := backw ?h\<rparr>" by (simp add: splice_out_def)
  ultimately show ?thesis using rem by blast
qed

subsection \<open>Tables in memory\<close>

lemma getAddr_less: "0 < sz \<Longrightarrow> getAddr sz key < sz"
proof -
  assume sz: "0 < sz"
  have "0 \<le> foldl (\<lambda>ha c. (ha * 128 + schar c) mod 2 ^ 32 mod int sz) a key \<and>
      foldl (\<lambda>ha c. (ha * 128 + schar c) mod 2 ^ 32 mod int sz) a key < int sz"
    if "0 \<le> a" "a < int sz" for a
    using that sz by (induction key arbitrary: a) (auto intro: pos_mod_sign pos_mod_bound)
  then show ?thesis using sz by (simp add: getAddr_def nat_less_iff)
qed

definition placed :: "hheap \<Rightarrow> addr list list \<Rightarrow> bool" where
  "placed h cs \<longleftrightarrow> (\<forall>i < length cs. \<forall>e \<in> set (cs ! i). getAddr (length cs) (keyname h e) = i)"

definition htab_ok :: "hheap \<Rightarrow> hTab \<Rightarrow> addr list list \<Rightarrow> bool" where
  "htab_ok h t cs \<longleftrightarrow>
     0 < tsize t \<and> length cs = tsize t \<and> slots_at h (slotPtr t) cs \<and> placed h cs \<and>
     distinct (map (keyname h) (concat cs)) \<and> numEnts t = int (length (concat cs)) \<and>
     (\<forall>a \<in> set (slot_addrs (slotPtr t) cs). a < brk h)"

lemma find_from_ring:
  assumes "ring h s (xs @ ys)"
  shows "find_from h key s (last (s # xs)) =
    Some (case find (\<lambda>e. keyname h e = key) (rev xs) of Some e \<Rightarrow> e | None \<Rightarrow> NULL)"
  using assms
proof (induction xs arbitrary: ys rule: rev_induct)
  case Nil
  then show ?case by (subst find_from.simps) simp
next
  case (snoc x xs)
  have r: "ring h s (xs @ x # ys)" using snoc.prems by simp
  then have "x \<noteq> NULL" "x \<noteq> s" "backw h x = last (s # xs)"
    using ring_entry_links(1) [OF r] ring_distinct [OF r] ring_split_links(2) [OF r] by auto
  then show ?case using snoc.IH [OF r] by (subst find_from.simps) simp
qed

lemma h_findEnt_ring:
  assumes "ring h s xs"
  shows "h_findEnt h key s = Some (case find (\<lambda>e. keyname h e = key) (rev xs) of Some e \<Rightarrow> e | None \<Rightarrow> NULL)"
  using find_from_ring [of h s xs "[]" key] assms ring_nonnull(1) [OF assms] ring_back [OF assms]
  by (simp add: h_findEnt_def ld_back_def)

lemma in_concat_nth: "e \<in> set (concat cs) \<Longrightarrow> \<exists>j < length cs. e \<in> set (cs ! j)"
  by simp (metis in_set_conv_nth)

lemma slots_nonnull:
  assumes "slots_at h p cs" "e \<in> set (concat cs)"
  shows "e \<noteq> NULL"
proof -
  obtain j where "j < length cs" "e \<in> set (cs ! j)" using in_concat_nth [OF assms(2)] by blast
  moreover from this have "ring h (p + j) (cs ! j)" using assms(1) by (simp add: slots_at_def)
  ultimately show ?thesis using ring_nonnull(2) by metis
qed

lemma h_findEnt_ok:
  assumes "htab_ok h t cs"
  obtains e where "h_findEnt h key (slot t key) = Some e"
    "e = NULL \<and> key \<notin> keyname h ` set (concat cs) \<or> e \<noteq> NULL \<and> e \<in> set (concat cs) \<and> keyname h e = key"
proof -
  let ?i = "getAddr (tsize t) key"
  have i: "?i < length cs" using assms getAddr_less by (simp add: htab_ok_def)
  then have r: "ring h (slot t key) (cs ! ?i)" using assms by (simp add: htab_ok_def slots_at_def slot_def)
  have home: "e \<in> set (cs ! ?i)" if e: "e \<in> set (concat cs)" "keyname h e = key" for e
  proof -
    obtain j where "j < length cs" "e \<in> set (cs ! j)" using in_concat_nth [OF e(1)] by blast
    then show ?thesis using assms e(2) by (auto simp: htab_ok_def placed_def)
  qed
  show ?thesis
  proof (cases "find (\<lambda>e. keyname h e = key) (rev (cs ! ?i))")
    case None
    then have "key \<notin> keyname h ` set (concat cs)" using home by (auto simp: find_None_iff)
    then show ?thesis using that None h_findEnt_ring [OF r] by simp
  next
    case (Some e)
    then have "e \<in> set (rev (cs ! ?i)) \<and> keyname h e = key" unfolding find_Some_iff by (metis nth_mem)
    then have "e \<in> set (cs ! ?i)" "keyname h e = key" by simp_all
    moreover from this(1) have "e \<in> set (concat cs)" "e \<noteq> NULL" using i ring_nonnull(2) [OF r] by (auto intro: Nat.gr0I)
    ultimately show ?thesis using that Some h_findEnt_ring [OF r] by simp
  qed
qed

lemma h_getEnt_ok:
  assumes "htab_ok h t cs"
  obtains e where "h_getEnt h t key = Some e"
    "e = NULL \<and> key \<notin> keyname h ` set (concat cs) \<or> e \<noteq> NULL \<and> e \<in> set (concat cs) \<and> keyname h e = key"
proof (cases "numEnts t = 0")
  case True
  then have "concat cs = []" using assms by (simp add: htab_ok_def)
  then have "key \<notin> keyname h ` set (concat cs)" by (simp only: list.set image_empty empty_iff not_False_eq_True)
  then show ?thesis using that [of NULL] True by (simp only: h_getEnt_def if_True simp_thms)
next
  case False
  then show ?thesis using h_findEnt_ok [OF assms, of key] that by (simp add: h_getEnt_def) blast
qed

text \<open>What a splice leaves alone.\<close>

definition same_data :: "hheap \<Rightarrow> hheap \<Rightarrow> bool" where
  "same_data h h' \<longleftrightarrow> keyname h' = keyname h \<and> keyAddr h' = keyAddr h \<and> hData h' = hData h \<and> brk h' = brk h \<and> freed h' = freed h"

lemma same_data_links: "h' = h\<lparr>forw := forw h', backw := backw h'\<rparr> \<Longrightarrow> same_data h h'"
  unfolding same_data_def by (metis hheap.select_convs hheap.surjective links.update_convs)

lemma htab_insert:
  assumes ok: "htab_ok h t cs" and e: "e \<notin> set (slot_addrs (slotPtr t) cs)" "e \<noteq> NULL" "e < brk h"
    and key: "keyname h e \<notin> keyname h ` set (concat cs)"
  shows "\<exists>h' cs'. insList h e (slot t (keyname h e)) = Some h' \<and> htab_ok h' (t\<lparr>numEnts := numEnts t + 1\<rparr>) cs' \<and>
    set (concat cs') = insert e (set (concat cs)) \<and> links_eq (insert e (set (slot_addrs (slotPtr t) cs))) h h' \<and> same_data h h'"
proof -
  let ?i = "getAddr (tsize t) (keyname h e)"
  let ?us = "take ?i cs" and ?xs = "cs ! ?i" and ?vs = "drop (Suc ?i) cs"
  let ?cs = "?us @ (?xs @ [e]) # ?vs"
  have i: "?i < length cs" using ok getAddr_less by (simp add: htab_ok_def)
  then have split: "cs = ?us @ ?xs # ?vs" by (rule id_take_nth_drop)
  have upd: "?cs = cs[?i := ?xs @ [e]]" using i by (simp add: upd_conv_take_nth_drop)
  have "slots_at h (slotPtr t) (?us @ ?xs # ?vs)" using ok split by (simp add: htab_ok_def)
  then obtain h' where h': "insList h e (slotPtr t + length ?us) = Some h'" "slots_at h' (slotPtr t) ?cs"
    "links_eq (insert e (set (slot_addrs (slotPtr t) (?us @ ?xs # ?vs)))) h h'" "same_data h h'"
    using slots_insert [of h "slotPtr t" ?us ?xs ?vs e] e(1,2) split same_data_links by (metis (no_types, lifting))
  have mem: "set (concat ?cs) = insert e (set (concat cs))" by (subst (2) split) auto
  have len: "length (concat ?cs) = Suc (length (concat cs))" by (subst (2) split) auto
  have keys: "distinct (map (keyname h) (concat ?cs))"
  proof -
    have "distinct (map (keyname h) (concat (?us @ ?xs # ?vs)))" "keyname h e \<notin> keyname h ` set (concat (?us @ ?xs # ?vs))"
      using ok key split by (simp_all add: htab_ok_def)
    then show ?thesis by auto
  qed
  have "placed h' ?cs"
    unfolding placed_def
  proof (intro allI impI ballI)
    fix j x assume j: "j < length ?cs" and x: "x \<in> set (?cs ! j)"
    have "length ?cs = tsize t" "?cs ! j = (if j = ?i then ?xs @ [e] else cs ! j)"
      using i j ok unfolding upd by (auto simp: htab_ok_def)
    then show "getAddr (length ?cs) (keyname h' x) = j"
      using x j ok h'(4) unfolding upd by (auto simp: htab_ok_def placed_def same_data_def split: if_splits)
  qed
  moreover have "length ?cs = tsize t" unfolding upd using ok by (simp add: htab_ok_def)
  moreover have "\<forall>a \<in> set (slot_addrs (slotPtr t) ?cs). a < brk h'"
  proof
    fix a assume "a \<in> set (slot_addrs (slotPtr t) ?cs)"
    then have "a = e \<or> a \<in> set (slot_addrs (slotPtr t) cs)"
      unfolding slot_addrs_iff mem using upd by (metis insertE length_list_update)
    then show "a < brk h'" using ok e(3) h'(4) by (auto simp: htab_ok_def same_data_def)
  qed
  ultimately have "htab_ok h' (t\<lparr>numEnts := numEnts t + 1\<rparr>) ?cs"
    using ok h'(2,4) keys len by (simp add: htab_ok_def same_data_def)
  moreover have "slot t (keyname h e) = slotPtr t + length ?us" using i by (simp add: slot_def)
  ultimately show ?thesis using h' mem split by (metis (no_types, lifting))
qed

text \<open>Taking an entry out, seen from the slots alone and from the table.\<close>

lemma slots_remove_entry:
  assumes sl: "slots_at h p cs" and e: "e \<in> set (concat cs)"
  shows "\<exists>h' i. i < length cs \<and> e \<in> set (cs ! i) \<and> remList h e = Some h' \<and> slots_at h' p (cs[i := remove1 e (cs ! i)]) \<and>
    links_eq (set (slot_addrs p cs) - {e}) h h' \<and> same_data h h'"
proof -
  obtain i where i: "i < length cs" "e \<in> set (cs ! i)" using in_concat_nth [OF e] by blast
  obtain xs ys where xy: "cs ! i = xs @ e # ys" "e \<notin> set xs" using split_list_first [OF i(2)] by blast
  let ?us = "take i cs" and ?vs = "drop (Suc i) cs"
  have split: "cs = ?us @ (xs @ e # ys) # ?vs" using id_take_nth_drop [OF i(1)] xy by simp
  obtain h' where h': "remList h e = Some h'" "slots_at h' p (?us @ (xs @ ys) # ?vs)"
    "links_eq (set (slot_addrs p (?us @ (xs @ ys) # ?vs))) h h'" "same_data h h'"
    using slots_remove [of h p ?us xs e ys ?vs] sl split same_data_links by (metis (no_types, lifting))
  have "?us @ (xs @ ys) # ?vs = cs[i := remove1 e (cs ! i)]"
    using i xy by (simp add: upd_conv_take_nth_drop remove1_append)
  moreover have "set (slot_addrs p (?us @ (xs @ ys) # ?vs)) \<subseteq> set (slot_addrs p cs) - {e}"
  proof -
    have "distinct (slot_addrs p (?us @ (xs @ e # ys) # ?vs))" using sl split by (simp add: slots_at_def)
    then have "set (slot_addrs p (?us @ (xs @ ys) # ?vs)) \<subseteq> set (slot_addrs p (?us @ (xs @ e # ys) # ?vs)) - {e}"
      by (auto simp: slot_addrs_distinct slot_addrs_iff simp del: length_drop length_take)
    then show ?thesis using split by simp
  qed
  ultimately show ?thesis using i h' links_eq_mono by metis
qed

lemma concat_remove:
  assumes "distinct (concat cs)" "i < length cs" "e \<in> set (cs ! i)"
  shows "set (concat (cs[i := remove1 e (cs ! i)])) = set (concat cs) - {e}"
    "Suc (length (concat (cs[i := remove1 e (cs ! i)]))) = length (concat cs)"
    "distinct (map f (concat cs)) \<Longrightarrow> distinct (map f (concat (cs[i := remove1 e (cs ! i)])))"
proof -
  obtain xs ys where xy: "cs ! i = xs @ e # ys" "e \<notin> set xs" using split_list_first [OF assms(3)] by blast
  have a: "cs = take i cs @ (xs @ e # ys) # drop (Suc i) cs" using id_take_nth_drop [OF assms(2)] xy by simp
  have b: "cs[i := remove1 e (cs ! i)] = take i cs @ (xs @ ys) # drop (Suc i) cs"
    using assms(2) xy by (simp add: upd_conv_take_nth_drop remove1_append)
  have d: "distinct (concat (take i cs @ (xs @ e # ys) # drop (Suc i) cs))" using a assms(1) by simp
  show "set (concat (cs[i := remove1 e (cs ! i)])) = set (concat cs) - {e}"
    unfolding b using d by (subst (3) a) auto
  show "Suc (length (concat (cs[i := remove1 e (cs ! i)]))) = length (concat cs)"
    unfolding b by (subst (3) a) simp
  assume "distinct (map f (concat cs))"
  then have "distinct (map f (concat (take i cs @ (xs @ e # ys) # drop (Suc i) cs)))" using a by simp
  then show "distinct (map f (concat (cs[i := remove1 e (cs ! i)])))" unfolding b by auto
qed

lemma htab_remove:
  assumes ok: "htab_ok h t cs" and e: "e \<in> set (concat cs)"
  shows "\<exists>h' cs'. remList h e = Some h' \<and> htab_ok h' (t\<lparr>numEnts := numEnts t - 1\<rparr>) cs' \<and>
    set (concat cs') = set (concat cs) - {e} \<and> links_eq (set (slot_addrs (slotPtr t) cs) - {e}) h h' \<and> same_data h h'"
proof -
  have sl: "slots_at h (slotPtr t) cs" using ok by (simp add: htab_ok_def)
  obtain h' i where i: "i < length cs" "e \<in> set (cs ! i)"
    and h': "remList h e = Some h'" "slots_at h' (slotPtr t) (cs[i := remove1 e (cs ! i)])"
      "links_eq (set (slot_addrs (slotPtr t) cs) - {e}) h h'" "same_data h h'"
    using slots_remove_entry [OF sl e] by blast
  let ?cs = "cs[i := remove1 e (cs ! i)]"
  have dc: "distinct (concat cs)" using sl by (simp add: slots_at_def slot_addrs_def)
  note r = concat_remove [OF dc i]
  have "placed h ?cs"
    using ok i unfolding placed_def htab_ok_def by (auto simp: nth_list_update split: if_splits dest!: subsetD [OF set_remove1_subset])
  then have "placed h' ?cs" using h'(4) by (simp add: placed_def same_data_def)
  moreover have "\<forall>a \<in> set (slot_addrs (slotPtr t) ?cs). a < brk h'"
  proof -
    have "set (slot_addrs (slotPtr t) ?cs) \<subseteq> set (slot_addrs (slotPtr t) cs)"
      by (rule subsetI) (use r(1) in \<open>simp only: slot_addrs_iff length_list_update, blast\<close>)
    then show ?thesis using ok h'(4) by (auto simp: htab_ok_def same_data_def)
  qed
  moreover have "distinct (map (keyname h) (concat ?cs))" using ok by (intro r(3)) (simp add: htab_ok_def)
  moreover have "numEnts t - 1 = int (length (concat ?cs))" using ok r(2) by (simp add: htab_ok_def)
  ultimately have "htab_ok h' (t\<lparr>numEnts := numEnts t - 1\<rparr>) ?cs"
    using ok h'(2,4) by (simp add: htab_ok_def same_data_def)
  then show ?thesis using h' r(1) by blast
qed

subsection \<open>A new table\<close>

lemma init_slots_ok:
  "p \<noteq> NULL \<Longrightarrow> \<exists>h'. init_slots p n h = Some h' \<and> (\<forall>i < n. ring h' (p + i) []) \<and>
     links_eq {p..<p + n} h h' \<and> same_data h h'"
proof (induction n arbitrary: p h)
  case 0
  then show ?case by (simp add: links_eq_def same_data_def)
next
  case (Suc n)
  have i: "initList h p = Some (h\<lparr>forw := (forw h)(p := p), backw := (backw h)(p := p)\<rparr>)"
    using Suc.prems by (simp add: initList_def st_forw_def st_back_def)
  obtain h' where h': "init_slots (p + 1) n (h\<lparr>forw := (forw h)(p := p), backw := (backw h)(p := p)\<rparr>) = Some h'"
    "\<forall>i < n. ring h' (p + 1 + i) []" "links_eq {p + 1..<p + 1 + n} (h\<lparr>forw := (forw h)(p := p), backw := (backw h)(p := p)\<rparr>) h'"
    "same_data (h\<lparr>forw := (forw h)(p := p), backw := (backw h)(p := p)\<rparr>) h'"
    using Suc.IH by (metis add_is_0 zero_neq_one)
  have "ring h' (p + i) []" if "i < Suc n" for i
    using that h'(2,3) Suc.prems by (cases i) (auto simp: links_eq_def ring_def)
  then show ?case using i h' by (auto simp: links_eq_def same_data_def)
qed

lemma getClosestPrime_pos: "0 < getClosestPrime x"
  by (simp add: getClosestPrime_def primes_def)

lemma h_initTab_ok:
  assumes "0 < brk h"
  shows "\<exists>h' t. h_initTab k h = Some (h', t) \<and> htab_ok h' t (replicate (tsize t) []) \<and> slotPtr t = brk h \<and>
    tsize t = nat (getClosestPrime k) \<and> brk h' = brk h + tsize t \<and> links_eq {brk h..<brk h'} h h' \<and>
    keyname h' = keyname h \<and> keyAddr h' = keyAddr h \<and> hData h' = hData h \<and> freed h' = freed h"
proof -
  let ?n = "nat (getClosestPrime k)" and ?h = "h\<lparr>brk := brk h + nat (getClosestPrime k)\<rparr>"
  obtain h' where h': "init_slots (brk h) ?n ?h = Some h'" "\<forall>i < ?n. ring h' (brk h + i) []"
    "links_eq {brk h..<brk h + ?n} ?h h'" "same_data ?h h'"
    using init_slots_ok [of "brk h" ?n ?h] assms by auto
  have "concat (replicate m []) = []" for m by (induction m) auto
  then show ?thesis
    using h' getClosestPrime_pos [of k]
    by (auto simp: h_initTab_def malloc_def htab_ok_def slots_at_def slot_addrs_def placed_def same_data_def links_eq_def
        simp del: upt_Suc)
qed

subsection \<open>Growth\<close>

text \<open>The old slots at \<open>p\<close> and a new table, with distinct keys over both.\<close>

definition two_tables :: "hheap \<Rightarrow> addr \<Rightarrow> addr list list \<Rightarrow> hTab \<Rightarrow> addr list list \<Rightarrow> bool" where
  "two_tables h p cs t ds \<longleftrightarrow> slots_at h p cs \<and> htab_ok h t ds \<and>
     set (slot_addrs p cs) \<inter> set (slot_addrs (slotPtr t) ds) = {} \<and>
     distinct (map (keyname h) (concat cs @ concat ds)) \<and> (\<forall>a \<in> set (slot_addrs p cs). a < brk h)"

lemma htab_frame:
  assumes "htab_ok h t cs" "links_eq A h h'" "set (slot_addrs (slotPtr t) cs) \<inter> A = {}"
    and "\<forall>e \<in> set (concat cs). keyname h' e = keyname h e" "brk h \<le> brk h'"
  shows "htab_ok h' t cs"
proof -
  have "map (keyname h') (concat cs) = map (keyname h) (concat cs)" using assms(4) by simp
  then have "distinct (map (keyname h') (concat cs))" using assms(1) by (simp only: htab_ok_def)
  moreover have "placed h' cs"
    using assms(1,4) unfolding htab_ok_def placed_def by (metis UN_I nth_mem set_concat)
  ultimately show ?thesis using assms(1,5) slots_frame [OF assms(2,3)] by (auto simp: htab_ok_def)
qed

lemma distinct_concat_nth_eq:
  "distinct (concat cs) \<Longrightarrow> i < length cs \<Longrightarrow> j < length cs \<Longrightarrow> e \<in> set (cs ! i) \<Longrightarrow> e \<in> set (cs ! j) \<Longrightarrow> i = j"
proof (induction cs arbitrary: i j)
  case (Cons c cs)
  have tail: "e \<in> set (concat cs)" if "k < length cs" "e \<in> set (cs ! k)" for k
    using that nth_mem by fastforce
  show ?case using Cons tail by (cases i; cases j) auto
qed simp

lemma move_one:
  assumes two: "two_tables h p cs t ds" and e: "e \<in> set (concat cs)"
  shows "\<exists>h1 h2 i ds'. i < length cs \<and> e \<in> set (cs ! i) \<and> remList h e = Some h1 \<and>
    insList h1 e (slot t (keyname h1 e)) = Some h2 \<and>
    two_tables h2 p (cs[i := remove1 e (cs ! i)]) (t\<lparr>numEnts := numEnts t + 1\<rparr>) ds' \<and>
    set (concat ds') = insert e (set (concat ds)) \<and> same_data h h2"
proof -
  let ?A = "set (slot_addrs p cs)" and ?B = "set (slot_addrs (slotPtr t) ds)"
  have sl: "slots_at h p cs" and ok: "htab_ok h t ds" and dj: "?A \<inter> ?B = {}"
    and keys: "distinct (map (keyname h) (concat cs @ concat ds))" and lt: "\<forall>a \<in> ?A. a < brk h"
    using two by (simp_all add: two_tables_def)
  obtain h1 i where i: "i < length cs" "e \<in> set (cs ! i)" and h1: "remList h e = Some h1"
      "slots_at h1 p (cs[i := remove1 e (cs ! i)])" "links_eq (?A - {e}) h h1" "same_data h h1"
    using slots_remove_entry [OF sl e] by blast
  let ?cs = "cs[i := remove1 e (cs ! i)]"
  have eA: "e \<in> ?A" using e by (simp add: slot_addrs_iff)
  have ok1: "htab_ok h1 t ds" 
    by (rule htab_frame [OF ok h1(3)]) (use dj h1(4) in \<open>auto simp: same_data_def\<close>)
  have "e \<noteq> NULL" by (rule slots_nonnull [OF sl e])
  moreover have "keyname h1 e \<notin> keyname h1 ` set (concat ds)" using keys e h1(4) by (auto simp: same_data_def)
  moreover have "e < brk h1" "e \<notin> ?B" using eA lt dj h1(4) by (auto simp: same_data_def)
  ultimately obtain h2 ds' where h2: "insList h1 e (slot t (keyname h1 e)) = Some h2"
      "htab_ok h2 (t\<lparr>numEnts := numEnts t + 1\<rparr>) ds'" "set (concat ds') = insert e (set (concat ds))"
      "links_eq (insert e ?B) h1 h2" "same_data h1 h2"
    using htab_insert [OF ok1] by blast
  have dc: "distinct (concat cs)" using sl by (simp add: slots_at_def slot_addrs_def)
  note r = concat_remove [OF dc i]
  have "\<forall>j < length cs. e \<noteq> p + j" using sl e by (auto simp: slots_at_def slot_addrs_distinct)
  then have A': "set (slot_addrs p ?cs) \<subseteq> ?A - {e}"
    by - (rule subsetI, use r(1) in \<open>simp only: slot_addrs_iff length_list_update Diff_iff, blast\<close>)
  have len: "length ds' = length ds" using h2(2) ok by (simp add: htab_ok_def)
  then have B': "set (slot_addrs (slotPtr t) ds') = insert e ?B"
    using h2(3) by (simp only: set_eq_iff insert_iff slot_addrs_iff) blast
  have same: "same_data h h2" using h1(4) h2(5) by (simp add: same_data_def)
  have "slots_at h2 p ?cs" by (rule slots_frame [OF h2(4) _ h1(2)]) (use A' dj in blast)
  moreover have "distinct (map (keyname h2) (concat ?cs @ concat ds'))"
  proof -
    have "distinct (map (keyname h) (concat ?cs))" using keys by (intro r(3)) simp
    moreover have "distinct (map (keyname h) (concat ds'))" using h2(2) same by (simp add: htab_ok_def same_data_def)
    moreover have "keyname h ` set (concat ?cs) \<inter> keyname h ` set (concat ds') = {}"
    proof -
      have "inj_on (keyname h) (set (concat cs))" "keyname h ` set (concat cs) \<inter> keyname h ` set (concat ds) = {}"
        using keys by (simp_all only: map_append distinct_append distinct_map set_map)
      then show ?thesis unfolding r(1) h2(3) using e by (blast dest: inj_onD)
    qed
    ultimately show ?thesis using same by (simp add: same_data_def)
  qed
  ultimately have "two_tables h2 p ?cs (t\<lparr>numEnts := numEnts t + 1\<rparr>) ds'"
    using h2(2) A' B' dj lt same by (auto simp: two_tables_def same_data_def)
  then show ?thesis using i h1(1) h2(1,3) same by blast
qed

lemma move_slot_ok:
  assumes "two_tables h p cs t ds" "i < length cs" "cs ! i = xs"
  shows "\<exists>h' t' ds'. move_slot (p + i) h t = Some (h', t') \<and> two_tables h' p (cs[i := []]) t' ds' \<and>
    set (concat ds') = set (concat ds) \<union> set xs \<and> slotPtr t' = slotPtr t \<and> tsize t' = tsize t \<and> same_data h h'"
  using assms
proof (induction xs arbitrary: h cs t ds rule: rev_induct)
  case Nil
  have r: "ring h (p + i) []" using Nil.prems by (auto simp: two_tables_def slots_at_def)
  have "move_slot (p + i) h t = Some (h, t)"
    using ring_back [OF r] ring_nonnull(1) [OF r] by (subst move_slot.simps) simp
  moreover have "cs[i := []] = cs" using list_update_id [of cs i] Nil.prems(3) by simp
  ultimately show ?case using Nil.prems(1) by (auto simp: same_data_def)
next
  case (snoc e xs)
  have r: "ring h (p + i) (xs @ [e])" using snoc.prems by (auto simp: two_tables_def slots_at_def)
  have e: "e \<in> set (concat cs)" "e \<in> set (cs ! i)" using snoc.prems(2,3) nth_mem [OF snoc.prems(2)] by (auto intro: bexI [of _ "cs ! i"])
  obtain h1 h2 j ds1 where j: "j < length cs" "e \<in> set (cs ! j)" and s: "remList h e = Some h1"
      "insList h1 e (slot t (keyname h1 e)) = Some h2"
      "two_tables h2 p (cs[j := remove1 e (cs ! j)]) (t\<lparr>numEnts := numEnts t + 1\<rparr>) ds1"
      "set (concat ds1) = insert e (set (concat ds))" "same_data h h2"
    using move_one [OF snoc.prems(1) e(1)] by blast
  have "distinct (concat cs)" using snoc.prems(1) by (simp add: two_tables_def slots_at_def slot_addrs_def)
  from distinct_concat_nth_eq [OF this j(1) snoc.prems(2) j(2) e(2)] have "j = i" .
  then have cs1: "cs[j := remove1 e (cs ! j)] = cs[i := xs]"
    using snoc.prems(3) ring_distinct [OF r] by (simp add: remove1_append)
  obtain h' t' ds' where IH: "move_slot (p + i) h2 (t\<lparr>numEnts := numEnts t + 1\<rparr>) = Some (h', t')"
      "two_tables h' p (cs[i := xs, i := []]) t' ds'" "set (concat ds') = set (concat ds1) \<union> set xs"
      "slotPtr t' = slotPtr t" "tsize t' = tsize t" "same_data h2 h'"
    using snoc.IH [OF s(3) [unfolded cs1]] snoc.prems(2) by auto
  have "backw h (p + i) = e" "e \<noteq> p + i" "p + i \<noteq> NULL"
    using ring_back [OF r] ring_distinct [OF r] ring_nonnull(1) [OF r] by auto
  then have "move_slot (p + i) h t = Some (h', t')" using s(1,2) IH(1) by (subst move_slot.simps) simp
  moreover have "set (concat ds') = set (concat ds) \<union> set (xs @ [e])" using IH(3) s(4) by simp
  moreover have "same_data h h'" using s(5) IH(6) by (simp add: same_data_def)
  ultimately show ?case using IH(2,4,5) by (intro exI [of _ h'] exI [of _ t'] exI [of _ ds']) simp
qed

lemma move_slots_ok:
  assumes "two_tables h p (replicate i [] @ cs) t ds"
  shows "\<exists>h' t' ds'. move_slots (p + i) (length cs) h t = Some (h', t') \<and> htab_ok h' t' ds' \<and>
    set (concat ds') = set (concat ds) \<union> set (concat cs) \<and> slotPtr t' = slotPtr t \<and> tsize t' = tsize t \<and> same_data h h'"
  using assms
proof (induction cs arbitrary: h i t ds)
  case Nil
  then show ?case by (auto simp: two_tables_def same_data_def)
next
  case (Cons xs cs)
  obtain h1 t1 ds1 where s: "move_slot (p + i) h t = Some (h1, t1)"
      "two_tables h1 p ((replicate i [] @ xs # cs)[i := []]) t1 ds1"
      "set (concat ds1) = set (concat ds) \<union> set xs" "slotPtr t1 = slotPtr t" "tsize t1 = tsize t" "same_data h h1"
    using move_slot_ok [OF Cons.prems, of i xs] by (auto simp: nth_append)
  have "(replicate i [] @ xs # cs)[i := []] = replicate (Suc i) [] @ cs"
    by (simp add: list_update_append replicate_app_Cons_same)
  then have "two_tables h1 p (replicate (Suc i) [] @ cs) t1 ds1" using s(2) by simp
  then obtain h' t' ds' where IH: "move_slots (p + Suc i) (length cs) h1 t1 = Some (h', t')" "htab_ok h' t' ds'"
      "set (concat ds') = set (concat ds1) \<union> set (concat cs)" "slotPtr t' = slotPtr t1" "tsize t' = tsize t1" "same_data h1 h'"
    using Cons.IH by blast
  have "set (concat ds') = set (concat ds) \<union> set (concat (xs # cs))" using IH(3) s(3) by auto
  moreover have "same_data h h'" using s(6) IH(6) by (simp add: same_data_def)
  moreover have "move_slots (p + i) (length (xs # cs)) h t = Some (h', t')" using s(1) IH(1) by simp
  ultimately show ?case using s(4,5) IH(2,4,5) by (intro exI [of _ h'] exI [of _ t'] exI [of _ ds']) simp
qed

lemma htab_slots_at: "htab_ok h t cs \<Longrightarrow> slots_at h (slotPtr t) cs"
  by (simp add: htab_ok_def)

lemma resetTab_ok:
  assumes ok: "htab_ok h t cs"
  shows "\<exists>h' t' cs'. resetTab h t = Some (h', t') \<and> htab_ok h' t' cs' \<and> set (concat cs') = set (concat cs) \<and>
    tsize t' = nat (getClosestPrime (int (tsize t) * RESETFACTOR)) \<and> slotPtr t' = brk h \<and>
    brk h' = brk h + tsize t' \<and> keyname h' = keyname h \<and> keyAddr h' = keyAddr h \<and> hData h' = hData h \<and> freed h' = slotPtr t # freed h"
proof -
  have lt: "\<forall>a \<in> set (slot_addrs (slotPtr t) cs). a < brk h" using ok by (simp add: htab_ok_def)
  have "slotPtr t \<in> set (slot_addrs (slotPtr t) cs)" using ok by (auto simp: htab_ok_def slot_addrs_iff)
  then have brk: "0 < brk h" using lt by (metis gr0I not_less_zero)
  obtain h1 t1 where i: "h_initTab (int (tsize t) * RESETFACTOR) h = Some (h1, t1)" "htab_ok h1 t1 (replicate (tsize t1) [])"
      "slotPtr t1 = brk h" "tsize t1 = nat (getClosestPrime (int (tsize t) * RESETFACTOR))" "brk h1 = brk h + tsize t1"
      "links_eq {brk h..<brk h1} h h1" "keyname h1 = keyname h" "keyAddr h1 = keyAddr h" "hData h1 = hData h" "freed h1 = freed h"
    using h_initTab_ok [OF brk] by blast
  have "two_tables h1 (slotPtr t) cs t1 (replicate (tsize t1) [])"
  proof -
    have emp: "concat (replicate m []) = []" for m by (induction m) auto
    have "slots_at h1 (slotPtr t) cs"
      by (rule slots_frame [OF i(6) _ htab_slots_at [OF ok]]) (use lt in fastforce)
    moreover have "set (slot_addrs (slotPtr t) cs) \<inter> set (slot_addrs (slotPtr t1) (replicate (tsize t1) [])) = {}"
      using lt i(3) by (auto simp: slot_addrs_iff [of _ "brk h"] emp)
    ultimately show ?thesis using i(2,5,7) ok lt by (auto simp: two_tables_def emp htab_ok_def)
  qed
  then obtain h' t' cs' where m: "move_slots (slotPtr t) (length cs) h1 t1 = Some (h', t')" "htab_ok h' t' cs'"
      "set (concat cs') = set (concat cs)" "slotPtr t' = slotPtr t1" "tsize t' = tsize t1" "same_data h1 h'"
    using move_slots_ok [of h1 "slotPtr t" 0 cs t1 "replicate (tsize t1) []"] by auto
  have "resetTab h t = Some (free_at (slotPtr t) h', t')"
    using i(1) m(1) ok by (simp add: resetTab_def htab_ok_def)
  moreover have "htab_ok (free_at (slotPtr t) h') t' cs'"
    by (rule htab_frame [OF m(2), of "{}"]) (simp_all add: links_eq_def free_at_def)
  ultimately show ?thesis using m i by (auto simp: free_at_def same_data_def)
qed

subsection \<open>The contents of a table\<close>

text \<open>The keys and the data of the entries, as a map.\<close>

definition contents :: "hheap \<Rightarrow> addr list list \<Rightarrow> string \<Rightarrow> addr option" where
  "contents h cs = map_of (map (\<lambda>e. (keyname h e, hData h e)) (concat cs))"

lemma contents_entry:
  assumes "distinct (map (keyname h) (concat cs))" "e \<in> set (concat cs)" "keyname h e = key"
  shows "contents h cs key = Some (hData h e)"
  unfolding contents_def
  by (rule map_of_is_SomeI) (use assms in \<open>force simp: comp_def\<close>)+

lemma contents_None: "contents h cs key = None \<longleftrightarrow> key \<notin> keyname h ` set (concat cs)"
  by (simp add: contents_def map_of_eq_None_iff image_image)

lemma contents_dom: "dom (contents h cs) = keyname h ` set (concat cs)"
  by (simp add: contents_def dom_map_of_conv_image_fst image_image)

lemma contents_iff:
  assumes "distinct (map (keyname h) (concat cs))"
  shows "contents h cs key = Some v \<longleftrightarrow> (\<exists>e. e \<in> set (concat cs) \<and> keyname h e = key \<and> hData h e = v)"
  using contents_entry [OF assms] contents_None [of h cs key] by (metis imageE option.distinct(1) option.inject)

lemma map_eqI: "(\<And>k v. m k = Some v \<longleftrightarrow> m' k = Some v) \<Longrightarrow> m = m'"
  by (rule ext) (metis option.exhaust)

text \<open>The contents determine only which entries there are, not how they are spread over the slots.\<close>

lemma contents_cong:
  assumes "distinct (map (keyname h) (concat cs))" "distinct (map (keyname h') (concat cs'))"
    and "set (concat cs') = set (concat cs)" "\<forall>e \<in> set (concat cs). keyname h' e = keyname h e \<and> hData h' e = hData h e"
  shows "contents h' cs' = contents h cs"
  by (rule map_eqI) (unfold contents_iff [OF assms(1)] contents_iff [OF assms(2)] assms(3), use assms(4) in metis)

lemma contents_insert:
  assumes "distinct (map (keyname h) (concat cs))" "distinct (map (keyname h') (concat cs'))"
    and "set (concat cs') = insert e (set (concat cs))" "e \<notin> set (concat cs)"
    and "\<forall>x \<in> set (concat cs). keyname h' x = keyname h x \<and> hData h' x = hData h x"
  shows "contents h' cs' = (contents h cs)(keyname h' e \<mapsto> hData h' e)"
proof (rule map_eqI)
  fix k v
  have "keyname h x \<noteq> keyname h' e" if "x \<in> set (concat cs)" for x
    using assms(2-5) that unfolding distinct_map by (metis inj_onD insertI1 insertI2)
  then show "contents h' cs' k = Some v \<longleftrightarrow> ((contents h cs)(keyname h' e \<mapsto> hData h' e)) k = Some v"
    unfolding contents_iff [OF assms(2)] assms(3) fun_upd_def
    using contents_iff [OF assms(1), of k v] assms(5) by (metis insert_iff option.inject)
qed

lemma contents_remove:
  assumes "distinct (map (keyname h) (concat cs))" "distinct (map (keyname h') (concat cs'))"
    and "set (concat cs') = set (concat cs) - {e}" "e \<in> set (concat cs)"
    and "\<forall>x \<in> set (concat cs). x \<noteq> e \<longrightarrow> keyname h' x = keyname h x \<and> hData h' x = hData h x"
  shows "contents h' cs' = (contents h cs)(keyname h e := None)"
proof (rule map_eqI)
  fix k v
  have "keyname h x \<noteq> keyname h e" if "x \<in> set (concat cs)" "x \<noteq> e" for x
    using assms(1,4) that unfolding distinct_map by (metis inj_onD)
  then show "contents h' cs' k = Some v \<longleftrightarrow> ((contents h cs)(keyname h e := None)) k = Some v"
    unfolding contents_iff [OF assms(2)] assms(3) fun_upd_def
    using contents_iff [OF assms(1), of k v] assms(5) by (metis DiffE DiffI empty_iff insert_iff option.distinct(1))
qed

lemma htab_keys: "htab_ok h t cs \<Longrightarrow> distinct (map (keyname h) (concat cs))"
  by (simp add: htab_ok_def)

lemma htab_brk:
  assumes "htab_ok h t cs"
  shows "0 < brk h" "brk h \<notin> set (slot_addrs (slotPtr t) cs)"
proof -
  have lt: "\<forall>a \<in> set (slot_addrs (slotPtr t) cs). a < brk h" using assms by (simp add: htab_ok_def)
  have "slotPtr t \<in> set (slot_addrs (slotPtr t) cs)" using assms by (auto simp: htab_ok_def slot_addrs_iff)
  then show "0 < brk h" "brk h \<notin> set (slot_addrs (slotPtr t) cs)" using lt by (metis gr0I not_less_zero, blast)
qed

text \<open>Every entry has a copy of its key to itself, outside the memory of the slots and the entries.\<close>

definition owned :: "hheap \<Rightarrow> addr \<Rightarrow> addr list list \<Rightarrow> bool" where
  "owned h p cs \<longleftrightarrow> inj_on (keyAddr h) (set (concat cs)) \<and>
     (\<forall>e \<in> set (concat cs). keyAddr h e \<noteq> NULL \<and> keyAddr h e < brk h \<and> keyAddr h e \<notin> set (slot_addrs p cs))"

lemma owned_empty: "concat cs = [] \<Longrightarrow> owned h p cs"
  unfolding owned_def by (simp only: list.set) blast

lemma owned_mono:
  assumes "owned h p cs" "set (concat cs') \<subseteq> set (concat cs)" "keyAddr h' = keyAddr h" "brk h \<le> brk h'"
    and "set (slot_addrs p' cs') \<subseteq> set (slot_addrs p cs) \<union> {brk h..}"
  shows "owned h' p' cs'"
proof -
  have "inj_on (keyAddr h') (set (concat cs'))" using assms(1-3) inj_on_subset unfolding owned_def by metis
  moreover have "keyAddr h' e \<noteq> NULL \<and> keyAddr h' e < brk h' \<and> keyAddr h' e \<notin> set (slot_addrs p' cs')"
    if "e \<in> set (concat cs')" for e
  proof -
    have "keyAddr h e \<noteq> NULL" "keyAddr h e < brk h" "keyAddr h e \<notin> set (slot_addrs p cs)"
      using assms(1,2) that unfolding owned_def by blast+
    then show ?thesis using assms(3-5) by auto
  qed
  ultimately show ?thesis unfolding owned_def by blast
qed

lemma owned_insert:
  assumes own: "owned h p cs" and lt: "\<forall>a \<in> set (slot_addrs p cs). a < brk h"
    and new: "keyAddr h' = (keyAddr h)(brk h := brk h + 1)" "brk h + 1 < brk h'"
    and cs': "set (concat cs') = insert (brk h) (set (concat cs))" "length cs' = length cs"
  shows "owned h' p cs'"
proof -
  have addrs: "a \<in> set (slot_addrs p cs') \<longleftrightarrow> a = brk h \<or> a \<in> set (slot_addrs p cs)" for a
    using cs' by (auto simp: slot_addrs_iff simp del: set_concat)
  have out: "brk h \<notin> set (concat cs)" using lt slot_addrs_iff by blast
  have old: "keyAddr h e \<noteq> NULL" "keyAddr h e < brk h" "keyAddr h e \<notin> set (slot_addrs p cs)" if "e \<in> set (concat cs)" for e
    using own that unfolding owned_def by blast+
  have "inj_on (keyAddr h') (set (concat cs'))"
    unfolding cs'(1) new(1) using own out old(2) by (force simp: owned_def inj_on_def simp del: set_concat)
  moreover have "keyAddr h' e \<noteq> NULL \<and> keyAddr h' e < brk h' \<and> keyAddr h' e \<notin> set (slot_addrs p cs')"
    if "e \<in> set (concat cs')" for e
    using that old [of e] lt new(2) unfolding cs'(1) addrs new(1) by (auto simp del: set_concat)
  ultimately show ?thesis unfolding owned_def by blast
qed

text \<open>Making room changes neither the contents nor the entries.\<close>

lemma owned_reset:
  assumes "set (concat cs') = set (concat cs)" "keyAddr h' = keyAddr h" "brk h \<le> brk h'" "p' = brk h" "owned h p cs"
  shows "owned h' p' cs'"
proof (rule owned_mono [OF assms(5) _ assms(2,3)])
  show "set (slot_addrs p' cs') \<subseteq> set (slot_addrs p cs) \<union> {brk h..}"
    using assms(1,4) by (auto simp: slot_addrs_iff simp del: set_concat)
qed (simp add: assms(1) del: set_concat)

definition make_room :: "hheap \<Rightarrow> hTab \<Rightarrow> (hheap \<times> hTab) option" where
  "make_room h t = (if table_full t then resetTab h t else Some (h, t))"

lemma numEnts_eq:
  assumes ok: "htab_ok h t cs" "htab_ok h' t' cs'" and "set (concat cs') = set (concat cs)"
  shows "numEnts t' = numEnts t"
proof -
  have "distinct (concat cs)" "distinct (concat cs')" using ok htab_keys distinct_map by blast+
  then have "length (concat cs') = length (concat cs)" using assms(3) by (metis distinct_card)
  then show ?thesis using ok by (simp add: htab_ok_def)
qed

lemma make_room_ok:
  assumes ok: "htab_ok h t cs"
  shows "\<exists>h1 t1 cs1. make_room h t = Some (h1, t1) \<and> htab_ok h1 t1 cs1 \<and> set (concat cs1) = set (concat cs) \<and>
    numEnts t1 = numEnts t \<and> keyname h1 = keyname h \<and> hData h1 = hData h \<and>
    (owned h (slotPtr t) cs \<longrightarrow> owned h1 (slotPtr t1) cs1) \<and>
    tsize t1 = (if table_full t then nat (getClosestPrime (int (tsize t) * 2)) else tsize t)"
proof (cases "table_full t")
  case True
  obtain h1 t1 cs1 where r: "resetTab h t = Some (h1, t1)" "htab_ok h1 t1 cs1" "set (concat cs1) = set (concat cs)"
    "tsize t1 = nat (getClosestPrime (int (tsize t) * 2))" "keyname h1 = keyname h" "hData h1 = hData h"
    "slotPtr t1 = brk h" "keyAddr h1 = keyAddr h" "brk h1 = brk h + tsize t1"
    using resetTab_ok [OF ok] by blast
  have "numEnts t1 = numEnts t" by (rule numEnts_eq [OF ok r(2,3)])
  moreover have "owned h (slotPtr t) cs \<longrightarrow> owned h1 (slotPtr t1) cs1" using owned_reset [OF r(3,8) _ r(7)] r(9) by simp
  ultimately show ?thesis using True r(1-6) by (intro exI [of _ h1] exI [of _ t1] exI [of _ cs1]) (simp add: make_room_def)
qed (use ok in \<open>auto simp: make_room_def\<close>)

lemma h_addEnt_present:
  assumes ok: "htab_ok h t cs" and "contents h cs key \<noteq> None"
  shows "\<exists>e. h_addEnt h t key = Some (h, t, e, False) \<and> e \<noteq> NULL \<and> e \<in> set (concat cs) \<and> keyname h e = key"
proof -
  have "key \<in> keyname h ` set (concat cs)" using assms(2) contents_None [of h cs key] by (simp del: not_None_eq set_concat)
  then obtain e where "h_findEnt h key (slot t key) = Some e" "e \<noteq> NULL" "e \<in> set (concat cs)" "keyname h e = key"
    using h_findEnt_ok [OF ok, of key] by metis
  then show ?thesis by (intro exI [of _ e]) (simp add: h_addEnt_def)
qed

abbreviation new_entry :: "addr \<Rightarrow> string \<Rightarrow> hheap \<Rightarrow> hheap" where
  "new_entry e key h \<equiv> h\<lparr>brk := e + 1 + (length key + 1), keyname := (keyname h)(e := key),
     keyAddr := (keyAddr h)(e := e + 1), hData := (hData h)(e := NULL)\<rparr>"

lemma new_entry_ok:
  assumes "htab_ok h t cs" "e = brk h"
  shows "htab_ok (new_entry e key h) t cs"
proof (rule htab_frame [OF assms(1), of "{}"])
  have "e \<notin> set (concat cs)" using htab_brk(2) [OF assms(1)] assms(2) by (simp add: slot_addrs_iff)
  then show "\<forall>x \<in> set (concat cs). keyname (new_entry e key h) x = keyname h x"
    by auto
qed (simp_all add: links_eq_def assms(2))

lemma h_addEnt_absent:
  assumes ok: "htab_ok h t cs" and new: "contents h cs key = None"
  shows "\<exists>h' t' e cs'. h_addEnt h t key = Some (h', t', e, True) \<and> htab_ok h' t' cs' \<and> e \<noteq> NULL \<and>
    set (concat cs') = insert e (set (concat cs)) \<and> keyname h' e = key \<and>
    contents h' cs' = (contents h cs)(key \<mapsto> NULL) \<and> numEnts t' = numEnts t + 1 \<and>
    (owned h (slotPtr t) cs \<longrightarrow> owned h' (slotPtr t') cs') \<and>
    tsize t' = (if table_full t then nat (getClosestPrime (int (tsize t) * 2)) else tsize t)"
proof -
  have none: "key \<notin> keyname h ` set (concat cs)" using new contents_None by metis
  then have find: "h_findEnt h key (slot t key) = Some NULL" using h_findEnt_ok [OF ok, of key] by (metis imageI)
  obtain h1 t1 cs1 where r: "make_room h t = Some (h1, t1)" "htab_ok h1 t1 cs1" "set (concat cs1) = set (concat cs)"
      "numEnts t1 = numEnts t" "keyname h1 = keyname h" "hData h1 = hData h"
      "owned h (slotPtr t) cs \<longrightarrow> owned h1 (slotPtr t1) cs1"
      "tsize t1 = (if table_full t then nat (getClosestPrime (int (tsize t) * 2)) else tsize t)"
    using make_room_ok [OF ok] by blast
  define e where "e = brk h1"
  define h2 where "h2 = new_entry e key h1"
  have ok2: "htab_ok h2 t1 cs1" unfolding h2_def by (rule new_entry_ok [OF r(2) e_def])
  have e: "e \<notin> set (slot_addrs (slotPtr t1) cs1)" "e \<noteq> NULL" "e < brk h2" using htab_brk [OF r(2)] by (auto simp: e_def h2_def)
  then have e': "e \<notin> set (concat cs)" using r(3) by (simp only: slot_addrs_iff) blast
  have "keyname h2 e \<notin> keyname h2 ` set (concat cs1)"
    using none e' r(3,5) by (auto simp: h2_def)
  then obtain h' cs' where i: "insList h2 e (slot t1 (keyname h2 e)) = Some h'"
      "htab_ok h' (t1\<lparr>numEnts := numEnts t1 + 1\<rparr>) cs'" "set (concat cs') = insert e (set (concat cs1))" "same_data h2 h'"
    using htab_insert [OF ok2 e] by blast
  have add: "h_addEnt h t key = Some (h', t1\<lparr>numEnts := numEnts t1 + 1\<rparr>, e, True)"
    using find r(1) i(1) by (simp add: h_addEnt_def make_room_def malloc_def putstr_def h2_def e_def split: if_splits)
  have key: "keyname h' e = key" "hData h' e = NULL" using i(4) by (auto simp: same_data_def h2_def)
  have old: "keyname h' x = keyname h x" "hData h' x = hData h x" if "x \<in> set (concat cs)" for x
    using that e' i(4) r(5,6) by (auto simp: same_data_def h2_def)
  have mem: "set (concat cs') = insert e (set (concat cs))" using i(3) r(3) by simp
  have "contents h' cs' = (contents h cs)(key \<mapsto> NULL)"
    using contents_insert [OF htab_keys [OF ok] htab_keys [OF i(2)] mem e'] old key by simp
  moreover have "owned h' (slotPtr t1) cs'" if "owned h (slotPtr t) cs"
  proof (rule owned_insert [OF mp [OF r(7) that]])
    show "\<forall>a \<in> set (slot_addrs (slotPtr t1) cs1). a < brk h1" "length cs' = length cs1"
      using r(2) i(2) by (simp_all add: htab_ok_def)
  qed (use i(3,4) in \<open>simp_all add: same_data_def h2_def e_def del: set_concat\<close>)
  ultimately show ?thesis using add i(2) e(2) mem key(1) r(4,8)
    by (intro exI [of _ h'] exI [of _ "t1\<lparr>numEnts := numEnts t1 + 1\<rparr>"] exI [of _ e] exI [of _ cs']) simp
qed

text \<open>Deletion: the three routines differ in what they free.\<close>

lemma remList_contents:
  assumes ok: "htab_ok h t cs" and e: "e \<in> set (concat cs)"
  shows "\<exists>h1 cs'. remList h e = Some h1 \<and> same_data h h1 \<and> e \<noteq> NULL \<and>
    (\<forall>fs. htab_ok (h1\<lparr>freed := fs\<rparr>) (t\<lparr>numEnts := numEnts t - 1\<rparr>) cs' \<and>
      contents (h1\<lparr>freed := fs\<rparr>) cs' = (contents h cs)(keyname h e := None) \<and>
      (owned h (slotPtr t) cs \<longrightarrow> owned (h1\<lparr>freed := fs\<rparr>) (slotPtr t) cs')) \<and> set (concat cs') = set (concat cs) - {e}"
proof -
  obtain h1 cs' where r: "remList h e = Some h1" "htab_ok h1 (t\<lparr>numEnts := numEnts t - 1\<rparr>) cs'"
      "set (concat cs') = set (concat cs) - {e}" "same_data h h1"
    using htab_remove [OF ok e] by blast
  have "e \<noteq> NULL" by (rule slots_nonnull [OF htab_slots_at [OF ok] e])
  moreover have "htab_ok (h1\<lparr>freed := fs\<rparr>) (t\<lparr>numEnts := numEnts t - 1\<rparr>) cs'" for fs
    by (rule htab_frame [OF r(2), of "{}"]) (simp_all add: links_eq_def)
  moreover from this have "contents (h1\<lparr>freed := fs\<rparr>) cs' = (contents h cs)(keyname h e := None)" for fs
    using r(4) by (intro contents_remove [OF htab_keys [OF ok] htab_keys r(3) e]) (auto simp: same_data_def)
  moreover have "owned (h1\<lparr>freed := fs\<rparr>) (slotPtr t) cs'" if "owned h (slotPtr t) cs" for fs
  proof (rule owned_mono [OF that])
    have "length cs' = length cs" using ok r(2) by (simp add: htab_ok_def)
    then have "a \<in> set (slot_addrs (slotPtr t) cs)" if "a \<in> set (slot_addrs (slotPtr t) cs')" for a
      using that unfolding slot_addrs_iff r(3) by auto
    then show "set (slot_addrs (slotPtr t) cs') \<subseteq> set (slot_addrs (slotPtr t) cs) \<union> {brk h..}" by blast
  qed (use r(3,4) in \<open>auto simp: same_data_def simp del: set_concat\<close>)
  ultimately show ?thesis using r(1,3,4) by (intro exI [of _ h1] exI [of _ cs']) (simp del: set_concat)
qed

definition key_freed :: "hheap \<Rightarrow> addr \<Rightarrow> addr list" where
  "key_freed h e = (if keyAddr h e = NULL then [] else [keyAddr h e])"

definition data_freed :: "hheap \<Rightarrow> addr \<Rightarrow> addr list" where
  "data_freed h e = (if hData h e = NULL then [] else [hData h e])"

lemma h_delEnt_ok:
  assumes "htab_ok h t cs" "e \<in> set (concat cs)"
  shows "\<exists>h' cs'. h_delEnt h t e = Some (h', t\<lparr>numEnts := numEnts t - 1\<rparr>) \<and> htab_ok h' (t\<lparr>numEnts := numEnts t - 1\<rparr>) cs' \<and>
    contents h' cs' = (contents h cs)(keyname h e := None) \<and> freed h' = e # data_freed h e @ key_freed h e @ freed h \<and>
    (owned h (slotPtr t) cs \<longrightarrow> owned h' (slotPtr t) cs') \<and> set (concat cs') = set (concat cs) - {e}"
proof -
  obtain h1 cs' where r: "remList h e = Some h1" "same_data h h1" "e \<noteq> NULL" "set (concat cs') = set (concat cs) - {e}"
    and fs: "htab_ok (h1\<lparr>freed := fs\<rparr>) (t\<lparr>numEnts := numEnts t - 1\<rparr>) cs'"
      "contents (h1\<lparr>freed := fs\<rparr>) cs' = (contents h cs)(keyname h e := None)"
      "owned h (slotPtr t) cs \<longrightarrow> owned (h1\<lparr>freed := fs\<rparr>) (slotPtr t) cs'" for fs
    using remList_contents [OF assms] by blast
  let ?h = "h1\<lparr>freed := e # data_freed h e @ key_freed h e @ freed h\<rparr>"
  have "free_at e (free_data e (free_key e h1)) = ?h"
    using r(2) by (simp add: free_at_def free_data_def free_key_def data_freed_def key_freed_def same_data_def)
  then have "h_delEnt h t e = Some (?h, t\<lparr>numEnts := numEnts t - 1\<rparr>)" using r(1,3) by (simp add: h_delEnt_def)
  then show ?thesis using fs r(4) by (intro exI [of _ ?h] exI [of _ cs']) simp
qed

lemma h_rmEnt_ok:
  assumes "htab_ok h t cs" "e \<in> set (concat cs)"
  shows "\<exists>h' cs'. h_rmEnt h t e = Some (h', t\<lparr>numEnts := numEnts t - 1\<rparr>) \<and> htab_ok h' (t\<lparr>numEnts := numEnts t - 1\<rparr>) cs' \<and>
    contents h' cs' = (contents h cs)(keyname h e := None) \<and> freed h' = e # key_freed h e @ freed h \<and>
    (owned h (slotPtr t) cs \<longrightarrow> owned h' (slotPtr t) cs') \<and> set (concat cs') = set (concat cs) - {e}"
proof -
  obtain h1 cs' where r: "remList h e = Some h1" "same_data h h1" "e \<noteq> NULL" "set (concat cs') = set (concat cs) - {e}"
    and fs: "htab_ok (h1\<lparr>freed := fs\<rparr>) (t\<lparr>numEnts := numEnts t - 1\<rparr>) cs'"
      "contents (h1\<lparr>freed := fs\<rparr>) cs' = (contents h cs)(keyname h e := None)"
      "owned h (slotPtr t) cs \<longrightarrow> owned (h1\<lparr>freed := fs\<rparr>) (slotPtr t) cs'" for fs
    using remList_contents [OF assms] by blast
  let ?h = "h1\<lparr>freed := e # key_freed h e @ freed h\<rparr>"
  have "h_rmEnt h t e = Some (?h, t\<lparr>numEnts := numEnts t - 1\<rparr>)" using r(1-3) by (simp add: h_rmEnt_def free_at_def free_key_def key_freed_def same_data_def)
  then show ?thesis using fs r(4) by (intro exI [of _ ?h] exI [of _ cs']) simp
qed

lemma h_delRef_rmEnt: "h_delRef = h_rmEnt"
  by (intro ext) (simp add: h_delRef_def h_rmEnt_def)

subsection \<open>Tables as maps\<close>

text \<open>A lookup as the callers do it: the data of the entry, if there is one.\<close>

definition lookup :: "hheap \<times> hTab \<Rightarrow> string \<Rightarrow> addr option" where
  "lookup s key = (case s of (h, t) \<Rightarrow>
     Option.bind (chekMembStr h t key) (\<lambda>e. if e = NULL then None else Some (hData h e)))"

text \<open>An insertion as the callers do it: the data are stored in the entry if it is a new one.\<close>

definition put :: "hheap \<times> hTab \<Rightarrow> string \<Rightarrow> addr \<Rightarrow> ((hheap \<times> hTab) \<times> bool) option" where
  "put s key v = (case s of (h, t) \<Rightarrow>
     map_option (\<lambda>(h1, t1, e). if e = NULL then ((h1, t1), False) else ((h1\<lparr>hData := (hData h1)(e := v)\<rparr>, t1), True))
       (addMembStr h t key))"

definition del :: "hheap \<times> hTab \<Rightarrow> string \<Rightarrow> ((hheap \<times> hTab) \<times> bool) option" where
  "del s key = (case s of (h, t) \<Rightarrow> map_option (\<lambda>(h1, t1, b). ((h1, t1), b)) (remvMembStr h t key))"

text \<open>The number of slots is a prime of the list, and at most three entries share two slots until the list ends.\<close>

definition sized :: "hTab \<Rightarrow> bool" where
  "sized t \<longleftrightarrow> int (tsize t) \<in> set primes \<and> (2 * numEnts t \<le> 3 * int (tsize t) + 1 \<or> int (tsize t) = last primes)"

definition table_inv :: "hheap \<times> hTab \<Rightarrow> bool" where
  "table_inv s \<longleftrightarrow> (\<exists>cs. htab_ok (fst s) (snd s) cs \<and> owned (fst s) (slotPtr (snd s)) cs) \<and> sized (snd s)"

lemma lookup_contents:
  assumes ok: "htab_ok h t cs"
  shows "lookup (h, t) key = contents h cs key"
proof -
  obtain e where e: "h_getEnt h t key = Some e"
    "e = NULL \<and> key \<notin> keyname h ` set (concat cs) \<or> e \<noteq> NULL \<and> e \<in> set (concat cs) \<and> keyname h e = key"
    using h_getEnt_ok [OF ok] by blast
  show ?thesis
  proof (cases "e = NULL")
    case True
    then have "contents h cs key = None" using e(2) contents_None by metis
    then show ?thesis using True e(1) by (simp add: lookup_def chekMembStr_def)
  next
    case False
    then have "contents h cs key = Some (hData h e)" using e(2) contents_entry [OF htab_keys [OF ok]] by blast
    then show ?thesis using False e(1) by (simp add: lookup_def chekMembStr_def)
  qed
qed

text \<open>
  The contract of a table, for any state, key and data: \<open>put\<close> refuses a key that is there, \<open>del\<close> reports
  whether it found the key, and both return whatever the table holds.
\<close>

locale keyed_table =
  fixes inv :: "'s \<Rightarrow> bool" and look :: "'s \<Rightarrow> 'k \<Rightarrow> 'v option"
    and add :: "'s \<Rightarrow> 'k \<Rightarrow> 'v \<Rightarrow> ('s \<times> bool) option" and rem :: "'s \<Rightarrow> 'k \<Rightarrow> ('s \<times> bool) option"
  assumes add_new: "inv s \<Longrightarrow> look s k = None \<Longrightarrow> \<exists>s'. add s k v = Some (s', True) \<and> inv s' \<and> look s' = (look s)(k \<mapsto> v)"
    and add_old: "inv s \<Longrightarrow> look s k \<noteq> None \<Longrightarrow> add s k v = Some (s, False)"
    and rem_any: "inv s \<Longrightarrow> \<exists>s'. rem s k = Some (s', look s k \<noteq> None) \<and> inv s' \<and> look s' = (look s)(k := None)"

text \<open>Commands on a table, run on a table and on a map.\<close>

datatype ('k, 'v) tabcmd = Put 'k 'v | Del 'k

fun run_cmd :: "('s \<Rightarrow> 'k \<Rightarrow> 'v \<Rightarrow> ('s \<times> bool) option) \<Rightarrow> ('s \<Rightarrow> 'k \<Rightarrow> ('s \<times> bool) option) \<Rightarrow>
    ('k, 'v) tabcmd \<Rightarrow> 's \<Rightarrow> ('s \<times> bool) option" where
  "run_cmd add rem (Put k v) s = add s k v"
| "run_cmd add rem (Del k) s = rem s k"

fun run_cmds :: "('s \<Rightarrow> 'k \<Rightarrow> 'v \<Rightarrow> ('s \<times> bool) option) \<Rightarrow> ('s \<Rightarrow> 'k \<Rightarrow> ('s \<times> bool) option) \<Rightarrow>
    ('k, 'v) tabcmd list \<Rightarrow> 's \<Rightarrow> ('s \<times> bool list) option" where
  "run_cmds add rem [] s = Some (s, [])"
| "run_cmds add rem (c # cs) s = do {
     (s1, b) \<leftarrow> run_cmd add rem c s;
     (s2, bs) \<leftarrow> run_cmds add rem cs s1;
     Some (s2, b # bs)
   }"

fun map_cmd :: "('k, 'v) tabcmd \<Rightarrow> ('k \<rightharpoonup> 'v) \<Rightarrow> ('k \<rightharpoonup> 'v) \<times> bool" where
  "map_cmd (Put k v) m = (if m k = None then (m(k \<mapsto> v), True) else (m, False))"
| "map_cmd (Del k) m = (m(k := None), m k \<noteq> None)"

fun map_cmds :: "('k, 'v) tabcmd list \<Rightarrow> ('k \<rightharpoonup> 'v) \<Rightarrow> ('k \<rightharpoonup> 'v) \<times> bool list" where
  "map_cmds [] m = (m, [])"
| "map_cmds (c # cs) m =
     (case map_cmd c m of (m1, b) \<Rightarrow> case map_cmds cs m1 of (m2, bs) \<Rightarrow> (m2, b # bs))"

context keyed_table
begin

lemma cmd_refines:
  "inv s \<Longrightarrow> \<exists>s' b. run_cmd add rem c s = Some (s', b) \<and> inv s' \<and> map_cmd c (look s) = (look s', b)"
  using add_new add_old rem_any by (cases c) (fastforce, metis map_cmd.simps(2) run_cmd.simps(2))

lemma cmds_refine:
  "inv s \<Longrightarrow> \<exists>s' bs. run_cmds add rem cs s = Some (s', bs) \<and> inv s' \<and> map_cmds cs (look s) = (look s', bs)"
proof (induction cs arbitrary: s)
  case (Cons c cs)
  obtain s1 b where 1: "run_cmd add rem c s = Some (s1, b)" "inv s1" "map_cmd c (look s) = (look s1, b)"
    using cmd_refines [OF Cons.prems] by blast
  obtain s2 bs where "run_cmds add rem cs s1 = Some (s2, bs)" "inv s2" "map_cmds cs (look s1) = (look s2, bs)"
    using Cons.IH [OF 1(2)] by blast
  then show ?case using 1 by simp
qed simp

end

text \<open>A table under encoded keys: an injective encoding gives the contract for the plain keys.\<close>

locale coded_table = keyed_table inv look add rem
  for inv :: "'s \<Rightarrow> bool" and look :: "'s \<Rightarrow> 'k \<Rightarrow> 'v option"
    and add :: "'s \<Rightarrow> 'k \<Rightarrow> 'v \<Rightarrow> ('s \<times> bool) option" and rem :: "'s \<Rightarrow> 'k \<Rightarrow> ('s \<times> bool) option" +
  fixes code :: "'n \<Rightarrow> 'k"
  assumes inj_code: "inj code"

sublocale coded_table \<subseteq> coded: keyed_table inv "\<lambda>s n. look s (code n)" "\<lambda>s n. add s (code n)" "\<lambda>s n. rem s (code n)"
proof unfold_locales
  have eq: "code m = code n \<longleftrightarrow> m = n" for m n using inj_code by (simp add: inj_eq)
  show "\<exists>s'. add s (code n) v = Some (s', True) \<and> inv s' \<and> (\<lambda>m. look s' (code m)) = (\<lambda>m. look s (code m))(n \<mapsto> v)"
    if "inv s" "look s (code n) = None" for s n v
    using add_new [OF that, of v] by (auto simp: eq fun_upd_def fun_eq_iff)
  show "\<exists>s'. rem s (code n) = Some (s', look s (code n) \<noteq> None) \<and> inv s' \<and>
      (\<lambda>m. look s' (code m)) = (\<lambda>m. look s (code m))(n := None)" if "inv s" for s n
    using rem_any [OF that, of "code n"] by (auto simp: eq fun_upd_def fun_eq_iff)
qed (rule add_old)

subsection \<open>The membership tables meet the contract\<close>

lemma getClosestPrime_in: "getClosestPrime x \<in> set primes"
  by (simp add: getClosestPrime_def primes_def)

lemma sized_new: "tsize t = nat (getClosestPrime k) \<Longrightarrow> numEnts t = 0 \<Longrightarrow> sized t"
  using getClosestPrime_in [of k] getClosestPrime_pos [of k] by (simp add: sized_def)

lemma sized_remove: "sized t \<Longrightarrow> sized (t\<lparr>numEnts := numEnts t - 1\<rparr>)"
  by (auto simp: sized_def)

lemma sized_add:
  assumes "sized t" "numEnts t' = numEnts t + 1"
    and "tsize t' = (if table_full t then nat (getClosestPrime (int (tsize t) * 2)) else tsize t)"
  shows "sized t'"
proof (cases "table_full t")
  case True
  have t': "int (tsize t') = getClosestPrime (int (tsize t) * 2)" using True assms(3) getClosestPrime_pos [of "int (tsize t) * 2"] by simp
  have "int (tsize t) \<in> set primes" using assms(1) by (simp add: sized_def)
  then have "int (tsize t) * 2 < int (tsize t') \<or> int (tsize t') = last primes"
    unfolding t' by (auto simp: primes_def getClosestPrime_def)
  moreover have "2 * numEnts t \<le> 3 * int (tsize t) + 1 \<or> int (tsize t') = last primes"
    using assms(1) unfolding sized_def t' by (auto simp: primes_def getClosestPrime_def)
  ultimately have "2 * numEnts t' \<le> 3 * int (tsize t') + 1 \<or> int (tsize t') = last primes"
    using assms(2) by auto
  then show ?thesis using getClosestPrime_in [of "int (tsize t) * 2"] t' by (simp add: sized_def)
next
  case False
  then show ?thesis using assms by (auto simp: sized_def table_full_def)
qed

lemma set_data:
  assumes ok: "htab_ok h t cs" and e: "e \<in> set (concat cs)"
  shows "htab_ok (h\<lparr>hData := (hData h)(e := v)\<rparr>) t cs"
    "contents (h\<lparr>hData := (hData h)(e := v)\<rparr>) cs = (contents h cs)(keyname h e \<mapsto> v)"
proof -
  let ?h = "h\<lparr>hData := (hData h)(e := v)\<rparr>"
  show ok': "htab_ok ?h t cs" by (rule htab_frame [OF ok, of "{}"]) (simp_all add: links_eq_def)
  show "contents ?h cs = (contents h cs)(keyname h e \<mapsto> v)"
  proof
    fix k
    show "contents ?h cs k = ((contents h cs)(keyname h e \<mapsto> v)) k"
    proof (cases "k = keyname h e")
      case True
      then show ?thesis using contents_entry [OF htab_keys [OF ok'] e] by simp
    next
      case other: False
      show ?thesis
      proof (cases "k \<in> keyname h ` set (concat cs)")
        case True
        then obtain x where x: "x \<in> set (concat cs)" "keyname h x = k" by blast
        then show ?thesis
          using other contents_entry [OF htab_keys [OF ok'], of x k] contents_entry [OF htab_keys [OF ok] x] by auto
      next
        case False
        then have "contents h cs k = None" "contents ?h cs k = None" using contents_None [of _ cs k] by simp_all
        then show ?thesis using other by simp
      qed
    qed
  qed
qed

lemma put_new:
  assumes "table_inv s" "lookup s key = None"
  shows "\<exists>s'. put s key v = Some (s', True) \<and> table_inv s' \<and> lookup s' = (lookup s)(key \<mapsto> v)"
proof -
  obtain h t cs where s: "s = (h, t)" and ok: "htab_ok h t cs" "sized t" and own: "owned h (slotPtr t) cs"
    using assms(1) by (cases s) (auto simp: table_inv_def)
  have "contents h cs key = None" using assms(2) lookup_contents [OF ok(1)] s by simp
  then obtain h' t' e cs' where a: "h_addEnt h t key = Some (h', t', e, True)" "htab_ok h' t' cs'" "e \<noteq> NULL"
      "set (concat cs') = insert e (set (concat cs))" "keyname h' e = key" "contents h' cs' = (contents h cs)(key \<mapsto> NULL)"
      "numEnts t' = numEnts t + 1" "tsize t' = (if table_full t then nat (getClosestPrime (int (tsize t) * 2)) else tsize t)"
      "owned h' (slotPtr t') cs'"
    using h_addEnt_absent [OF ok(1)] own by blast
  let ?h = "h'\<lparr>hData := (hData h')(e := v)\<rparr>"
  have "e \<in> set (concat cs')" unfolding a(4) by simp
  note d = set_data [OF a(2) this, of v]
  have "put s key v = Some ((?h, t'), True)" using a(1,3) by (simp add: s put_def addMembStr_def)
  moreover have "owned ?h (slotPtr t') cs'" using a(9) by (simp add: owned_def)
  then have "table_inv (?h, t')" using d(1) sized_add [OF ok(2) a(7,8)] by (auto simp: table_inv_def)
  moreover have "lookup (?h, t') = (lookup s)(key \<mapsto> v)"
    using d a(5,6) lookup_contents [OF ok(1)] lookup_contents [OF d(1)] by (simp add: s fun_eq_iff)
  ultimately show ?thesis by blast
qed

lemma put_old:
  assumes "table_inv s" "lookup s key \<noteq> None"
  shows "put s key v = Some (s, False)"
proof -
  obtain h t cs where s: "s = (h, t)" and ok: "htab_ok h t cs" using assms(1) by (cases s) (auto simp: table_inv_def)
  then show ?thesis
    using h_addEnt_present [OF ok, of key] assms(2) lookup_contents [OF ok, of key]
    by (auto simp: put_def addMembStr_def simp del: set_concat)
qed

lemma del_any:
  assumes "table_inv s"
  shows "\<exists>s'. del s key = Some (s', lookup s key \<noteq> None) \<and> table_inv s' \<and> lookup s' = (lookup s)(key := None)"
proof -
  obtain h t cs where s: "s = (h, t)" and ok: "htab_ok h t cs" "sized t" and own: "owned h (slotPtr t) cs"
    using assms by (cases s) (auto simp: table_inv_def)
  obtain e where e: "h_getEnt h t key = Some e"
    "e = NULL \<and> key \<notin> keyname h ` set (concat cs) \<or> e \<noteq> NULL \<and> e \<in> set (concat cs) \<and> keyname h e = key"
    using h_getEnt_ok [OF ok(1)] by blast
  show ?thesis
  proof (cases "e = NULL")
    case True
    then have "lookup s key = None" using e(1) by (simp add: s lookup_def chekMembStr_def)
    moreover from this have "(lookup s)(key := None) = lookup s" by (auto simp: fun_eq_iff)
    moreover have "del s key = Some (s, False)" using True e(1) by (simp add: s del_def remvMembStr_def)
    ultimately show ?thesis using assms by simp
  next
    case False
    then have mem: "e \<in> set (concat cs)" "keyname h e = key" using e(2) by blast+
    let ?h = "h\<lparr>hData := (hData h)(e := NULL)\<rparr>" and ?t = "t\<lparr>numEnts := numEnts t - 1\<rparr>"
    note d = set_data [OF ok(1) mem(1), of NULL]
    obtain h' cs' where r: "h_delEnt ?h t e = Some (h', ?t)" "htab_ok h' ?t cs'"
        "contents h' cs' = (contents ?h cs)(keyname ?h e := None)" "owned ?h (slotPtr t) cs \<longrightarrow> owned h' (slotPtr t) cs'"
      using h_delEnt_ok [OF d(1) mem(1)] by blast
    have "del s key = Some ((h', ?t), True)" using False e(1) r(1) by (simp add: s del_def remvMembStr_def)
    moreover have "lookup s key \<noteq> None" using False e(1) by (simp add: s lookup_def chekMembStr_def)
    moreover have "lookup (h', ?t) = (lookup s)(key := None)"
      using r(3) d(2) mem(2) lookup_contents [OF ok(1)] lookup_contents [OF r(2)] by (simp add: s fun_eq_iff)
    moreover have "owned ?h (slotPtr t) cs" using own by (simp add: owned_def)
    then have "table_inv (h', ?t)" using r(2,4) sized_remove [OF ok(2)] by (auto simp: table_inv_def)
    ultimately show ?thesis by simp
  qed
qed

interpretation str_table: keyed_table table_inv lookup put del
  by unfold_locales (fact put_new put_old del_any)+

interpretation num_table: coded_table table_inv lookup put del print_int
  by unfold_locales (rule inj_print_int)

text \<open>The same for the tables with numbers as keys.\<close>

definition look_memb :: "hheap \<times> hTab \<Rightarrow> int \<Rightarrow> addr option" where
  "look_memb s n = (case s of (h, t) \<Rightarrow>
     Option.bind (chekMemb h t n) (\<lambda>e. if e = NULL then None else Some (hData h e)))"

definition put_memb :: "hheap \<times> hTab \<Rightarrow> int \<Rightarrow> addr \<Rightarrow> ((hheap \<times> hTab) \<times> bool) option" where
  "put_memb s n v = (case s of (h, t) \<Rightarrow>
     map_option (\<lambda>(h1, t1, e). if e = NULL then ((h1, t1), False) else ((h1\<lparr>hData := (hData h1)(e := v)\<rparr>, t1), True))
       (addMemb h t n))"

definition del_memb :: "hheap \<times> hTab \<Rightarrow> int \<Rightarrow> ((hheap \<times> hTab) \<times> bool) option" where
  "del_memb s n = (case s of (h, t) \<Rightarrow> map_option (\<lambda>(h1, t1, b). ((h1, t1), b)) (remvMemb h t n))"

lemma memb_eq:
  "look_memb = (\<lambda>s n. lookup s (print_int n))" "put_memb = (\<lambda>s n. put s (print_int n))" "del_memb = (\<lambda>s n. del s (print_int n))"
  by (intro ext; simp add: look_memb_def lookup_def chekMemb_def put_memb_def put_def addMemb_def
      del_memb_def del_def remvMemb_def split: prod.splits)+

interpretation memb_table: keyed_table table_inv look_memb put_memb del_memb
  unfolding memb_eq by (rule num_table.coded.keyed_table_axioms)

lemma initTab_inv:
  assumes "0 < brk h"
  shows "\<exists>s. initTab h = Some s \<and> table_inv s \<and> look_memb s = Map.empty"
proof -
  obtain h' t where i: "h_initTab 50 h = Some (h', t)" "htab_ok h' t (replicate (tsize t) [])" "tsize t = nat (getClosestPrime 50)"
    using h_initTab_ok [OF assms, of 50] by blast
  have emp: "concat (replicate m []) = []" for m by (induction m) auto
  have "numEnts t = 0" using i(2) by (simp add: htab_ok_def emp)
  then have "table_inv (h', t)" using i(2) sized_new [OF i(3)] owned_empty [OF emp] by (auto simp: table_inv_def)
  moreover have "look_memb (h', t) = Map.empty"
    by (rule ext) (simp add: memb_eq lookup_contents [OF i(2)] contents_def emp)
  ultimately show ?thesis using i(1) by (simp add: initTab_def)
qed

text \<open>C11. A table of numbers under any sequence of insertions (\<open>addMemb\<close>, storing the data in a new entry) and removals
  (\<open>remvMemb\<close>), starting from \<open>initTab\<close>: every operation returns, reports what the same operation on a map reports, and
  \<open>chekMemb\<close> then finds what the map holds, however often the table was rebuilt with more slots in between.\<close>

theorem memb_table_refines_map:
  assumes "0 < brk h"
  shows "\<exists>s s' bs. initTab h = Some s \<and> run_cmds put_memb del_memb cmds s = Some (s', bs) \<and>
    map_cmds cmds Map.empty = (look_memb s', bs)"
  using initTab_inv [OF assms] memb_table.cmds_refine by metis

definition ex_heap :: hheap where
  "ex_heap = \<lparr>forw = \<lambda>_. 0, backw = \<lambda>_. 0, keyname = \<lambda>_. '''', keyAddr = \<lambda>_. 0, hData = \<lambda>_. 0, brk = 1, freed = []\<rparr>"

theorem memb_table_refines_map_witness:
  "0 < brk ex_heap \<and> (\<exists>s s' bs. initTab ex_heap = Some s \<and>
    run_cmds put_memb del_memb [Put 7 40, Put (-7) 41, Put 7 42, Del 7] s = Some (s', bs) \<and>
    bs = [True, True, False, True] \<and> look_memb s' 7 = None \<and> look_memb s' (-7) = Some 41)"
proof -
  have brk: "0 < brk ex_heap" by (simp add: ex_heap_def)
  obtain s s' bs where "initTab ex_heap = Some s" "run_cmds put_memb del_memb [Put 7 40, Put (-7) 41, Put 7 42, Del 7] s = Some (s', bs)"
    "map_cmds [Put 7 40, Put (-7) 41, Put 7 42, Del 7] Map.empty = (look_memb s', bs)"
    using memb_table_refines_map [OF brk] by blast
  moreover from this(3) have "look_memb s' = [-7 \<mapsto> 41]" "bs = [True, True, False, True]" by simp_all
  ultimately show ?thesis using brk by (intro conjI exI [of _ s] exI [of _ s'] exI [of _ bs]) simp_all
qed

text \<open>C27. However many entries are added and removed, the number of slots is a prime of the list, the entry count is the number
  of keys the table holds, and there are at most three entries for two slots (and one more, right after an insertion), until the largest
  prime of the list is reached.\<close>

theorem memb_table_load:
  assumes "0 < brk h"
  shows "\<exists>s h' t bs. initTab h = Some s \<and> run_cmds put_memb del_memb cmds s = Some ((h', t), bs) \<and>
    int (tsize t) \<in> set primes \<and> numEnts t = int (card (dom (lookup (h', t)))) \<and>
    (int (tsize t) = 1030637 \<or> 2 * numEnts t \<le> 3 * int (tsize t) + 1)"
proof -
  obtain s h' t bs where r: "initTab h = Some s" "run_cmds put_memb del_memb cmds s = Some ((h', t), bs)" "table_inv (h', t)"
    using initTab_inv [OF assms] memb_table.cmds_refine [of _ cmds] by (metis prod.exhaust)
  then obtain cs where ok: "htab_ok h' t cs" "sized t" by (auto simp: table_inv_def)
  have "lookup (h', t) = contents h' cs" by (rule ext) (rule lookup_contents [OF ok(1)])
  then have "card (dom (lookup (h', t))) = length (concat cs)"
    using htab_keys [OF ok(1)] by (metis contents_dom distinct_card length_map set_map)
  then have "numEnts t = int (card (dom (lookup (h', t))))" using ok(1) by (simp add: htab_ok_def)
  moreover have "last primes = 1030637" by (simp add: primes_def)
  ultimately show ?thesis using r ok(2) by (auto simp: sized_def)
qed

theorem memb_table_load_witness:
  "0 < brk ex_heap \<and> (\<exists>s h' t bs. initTab ex_heap = Some s \<and> run_cmds put_memb del_memb [Put 7 40] s = Some ((h', t), bs) \<and>
    int (tsize t) \<in> set primes \<and> numEnts t = int (card (dom (lookup (h', t)))))"
proof -
  have brk: "0 < brk ex_heap" by (simp add: ex_heap_def)
  then show ?thesis using memb_table_load [OF brk, of "[Put 7 40]"] by blast
qed

subsection \<open>Iteration visits every entry\<close>

lemma next_slot_ok:
  assumes "slots_at h (slotPtr t) cs" "nIndex s + n = length cs"
  shows "(\<forall>i < length cs. nIndex s \<le> i \<longrightarrow> cs ! i = []) \<and> fst (next_slot n h t s) = NULL \<and>
      snd (next_slot n h t s) = s\<lparr>nIndex := length cs\<rparr> \<or>
    (\<exists>j. nIndex s \<le> j \<and> j < length cs \<and> (\<forall>i < j. nIndex s \<le> i \<longrightarrow> cs ! i = []) \<and> cs ! j \<noteq> [] \<and>
      next_slot n h t s = (last (cs ! j), s\<lparr>nIndex := j + 1, hList := slotPtr t + j\<rparr>))"
  using assms(2)
proof (induction n arbitrary: s)
  case (Suc n)
  let ?i = "nIndex s"
  have i: "?i < length cs" using Suc.prems by simp
  then have r: "ring h (slotPtr t + ?i) (cs ! ?i)" using assms(1) by (simp add: slots_at_def)
  show ?case
  proof (cases "cs ! ?i = []")
    case True
    then have "backw h (slotPtr t + ?i) = slotPtr t + ?i" using ring_back [OF r] by simp
    then have step: "next_slot (Suc n) h t s = next_slot n h t (s\<lparr>nIndex := ?i + 1\<rparr>)" by (simp add: Let_def)
    have all: "(\<forall>i. P i \<longrightarrow> ?i \<le> i \<longrightarrow> cs ! i = []) \<longleftrightarrow> (\<forall>i. P i \<longrightarrow> ?i + 1 \<le> i \<longrightarrow> cs ! i = [])" for P
      using True by (metis Suc_eq_plus1 Suc_leD le_antisym not_less_eq_eq)
    show ?thesis using Suc.IH [of "s\<lparr>nIndex := ?i + 1\<rparr>"] Suc.prems unfolding step all by (auto intro: Suc_leD)
  next
    case False
    then have b: "backw h (slotPtr t + ?i) = last (cs ! ?i)" using ring_back [OF r] by simp
    moreover have "last (cs ! ?i) \<noteq> slotPtr t + ?i" using False ring_distinct [OF r] last_in_set by fastforce
    ultimately have "next_slot (Suc n) h t s = (last (cs ! ?i), s\<lparr>nIndex := ?i + 1, hList := slotPtr t + ?i\<rparr>)"
      by (simp add: Let_def)
    then show ?thesis using False i by (intro disjI2 exI [of _ ?i]) simp
  qed
qed (auto simp: assms)

lemma skip_empty:
  assumes "i \<le> j" "j \<le> length cs" "\<forall>k < j. i \<le> k \<longrightarrow> cs ! k = []"
  shows "concat (map rev (drop i cs)) = concat (map rev (drop j cs))"
  using assms
proof (induction i rule: inc_induct)
  case (step i)
  then have "drop i cs = [] # drop (Suc i) cs" using Cons_nth_drop_Suc [of i cs] by force
  then show ?case using step by simp
qed simp

text \<open>The iterator stands before the entries \<open>rev xs\<close> of its slot.\<close>

definition stands :: "hheap \<Rightarrow> sTab \<Rightarrow> addr list \<Rightarrow> bool" where
  "stands h s xs \<longleftrightarrow> hEntPtr s = NULL \<and> xs = [] \<or> (\<exists>ys. ring h (hList s) (xs @ ys) \<and> hEntPtr s = last (hList s # xs))"

lemma h_nextEnt_in_slot:
  assumes "stands h s (xs @ [x])"
  shows "h_nextEnt h t s = (x, s\<lparr>hEntPtr := backw h x\<rparr>)" "stands h (s\<lparr>hEntPtr := backw h x\<rparr>) xs" "x \<noteq> NULL"
proof -
  obtain ys where r: "ring h (hList s) (xs @ x # ys)" "hEntPtr s = x" using assms by (auto simp: stands_def)
  have "x \<noteq> hList s" "x \<noteq> NULL" using ring_distinct [OF r(1)] ring_nonnull(2) [OF r(1)] by auto
  then show "h_nextEnt h t s = (x, s\<lparr>hEntPtr := backw h x\<rparr>)" "x \<noteq> NULL" using r(2) by (simp_all add: h_nextEnt_def)
  show "stands h (s\<lparr>hEntPtr := backw h x\<rparr>) xs" using r(1) ring_split_links(2) [OF r(1)] by (auto simp: stands_def)
qed

lemma h_nextEnt_new_slot:
  assumes "slots_at h (slotPtr t) cs" "length cs = tsize t" "nIndex s \<le> length cs" "stands h s []"
  shows "concat (map rev (drop (nIndex s) cs)) = [] \<and> fst (h_nextEnt h t s) = NULL \<or>
    (\<exists>z zs s'. h_nextEnt h t s = (z, s') \<and> z \<noteq> NULL \<and> stands h s' zs \<and> nIndex s' \<le> length cs \<and>
      concat (map rev (drop (nIndex s) cs)) = z # rev zs @ concat (map rev (drop (nIndex s') cs)))"
proof -
  let ?n = "tsize t - nIndex s"
  have next_eq: "h_nextEnt h t s = (case next_slot ?n h t s of (e, s1) \<Rightarrow>
      if e = NULL then (NULL, s1) else (e, s1\<lparr>hEntPtr := backw h e\<rparr>))"
    using assms(4) by (auto simp: h_nextEnt_def stands_def Let_def)
  have n: "nIndex s + ?n = length cs" using assms(2,3) by simp
  consider (none) "\<forall>i < length cs. nIndex s \<le> i \<longrightarrow> cs ! i = []" "fst (next_slot ?n h t s) = NULL"
    | (slot) j where "nIndex s \<le> j" "j < length cs" "\<forall>i < j. nIndex s \<le> i \<longrightarrow> cs ! i = []" "cs ! j \<noteq> []"
        "next_slot ?n h t s = (last (cs ! j), s\<lparr>nIndex := j + 1, hList := slotPtr t + j\<rparr>)"
    using next_slot_ok [OF assms(1) n] by (elim disjE conjE exE) blast+
  then show ?thesis
  proof cases
    case none
    then have "concat (map rev (drop (nIndex s) cs)) = []" using skip_empty [OF assms(3) order_refl] by simp
    then show ?thesis using none(2) next_eq by (auto split: prod.splits)
  next
    case slot
    obtain z zs where z: "cs ! j = zs @ [z]" using slot(4) by (metis rev_exhaust)
    have r: "ring h (slotPtr t + j) (zs @ [z])" using assms(1) slot(2) unfolding slots_at_def z [symmetric] by blast
    let ?s = "s\<lparr>nIndex := j + 1, hList := slotPtr t + j, hEntPtr := backw h z\<rparr>"
    have nn: "z \<noteq> NULL" using ring_nonnull(2) [OF r] by auto
    then have "h_nextEnt h t s = (z, ?s)" using next_eq slot(5) z by simp
    moreover have "stands h ?s zs" using r ring_split_links(2) [OF r] by (auto simp: stands_def)
    moreover have "concat (map rev (drop (nIndex s) cs)) = z # rev zs @ concat (map rev (drop (j + 1) cs))"
    proof -
      have "drop j cs = (zs @ [z]) # drop (j + 1) cs" using Cons_nth_drop_Suc [OF slot(2)] z by simp
      then show ?thesis using skip_empty [OF slot(1) less_imp_le [OF slot(2)] slot(3)] by simp
    qed
    ultimately show ?thesis using nn slot(2) by (intro disjI2 exI [of _ z] exI [of _ zs] exI [of _ ?s]) simp
  qed
qed

lemma iterate_from:
  assumes "slots_at h (slotPtr t) cs" "length cs = tsize t"
  shows "nIndex s \<le> length cs \<Longrightarrow> stands h s xs \<Longrightarrow> length (rev xs @ concat (map rev (drop (nIndex s) cs))) \<le> n \<Longrightarrow>
    iterate n h t (h_nextEnt h t s) = rev xs @ concat (map rev (drop (nIndex s) cs))"
proof (induction n arbitrary: s xs)
  case 0
  then show ?case by (cases "h_nextEnt h t s") simp
next
  case (Suc n)
  show ?case
  proof (cases xs rule: rev_cases)
    case (snoc ys x)
    note step = h_nextEnt_in_slot [OF Suc.prems(2) [unfolded snoc]]
    show ?thesis using Suc.IH [OF _ step(2)] Suc.prems(1,3) step(1,3) snoc by simp
  next
    case Nil
    from h_nextEnt_new_slot [OF assms Suc.prems(1) Suc.prems(2) [unfolded Nil]] show ?thesis
    proof (elim disjE exE conjE)
      assume "concat (map rev (drop (nIndex s) cs)) = []" "fst (h_nextEnt h t s) = NULL"
      then show ?thesis using Nil by (cases "h_nextEnt h t s") simp
    next
      fix z zs s'
      assume step: "h_nextEnt h t s = (z, s')" "z \<noteq> NULL" "stands h s' zs" "nIndex s' \<le> length cs"
        "concat (map rev (drop (nIndex s) cs)) = z # rev zs @ concat (map rev (drop (nIndex s') cs))"
      have "length (rev zs @ concat (map rev (drop (nIndex s') cs))) \<le> n" using Suc.prems(3) step(5) Nil by simp
      then show ?thesis using Suc.IH [OF step(4,3)] step(1,2,5) Nil by simp
    qed
  qed
qed

lemma iterate_table:
  assumes ok: "htab_ok h t cs" and n: "numEnts t \<le> int n"
  shows "iterate n h t (h_firstEnt h t s0) = concat (map rev cs)"
proof -
  let ?s = "s0\<lparr>nIndex := 0, hEntPtr := NULL\<rparr>"
  have len: "0 < length cs" "length cs = tsize t" "slots_at h (slotPtr t) cs" "length (concat cs) \<le> n"
    using ok n by (auto simp: htab_ok_def)
  have "ring h (slotPtr t + 0) (cs ! 0)" using len unfolding slots_at_def by blast
  then have "slotPtr t \<noteq> NULL" using ring_nonnull(1) by force
  then have first: "h_firstEnt h t s0 = h_nextEnt h t ?s" by (simp add: h_firstEnt_def Let_def)
  have "stands h ?s []" by (simp add: stands_def)
  moreover have "length (concat (map rev cs)) = length (concat cs)" by (induction cs) auto
  ultimately show ?thesis using iterate_from [OF len(3,2), of ?s "[]" n] len(4) first by simp
qed

lemma concat_map_rev: "mset (concat (map rev cs)) = mset (concat cs)"
  by (induction cs) auto

text \<open>C25. A loop with \<open>h_firstEnt_\<close> and \<open>h_nextEnt_\<close> over a table ends and visits every entry exactly once: the entries
  visited are distinct, as many as \<open>numEnts\<close> says, and hold exactly the keys and data a lookup finds.\<close>

theorem iterate_visits_all:
  assumes "table_inv (h, t)" "numEnts t \<le> int n"
  shows "distinct (iterate n h t (h_firstEnt h t s0)) \<and> int (length (iterate n h t (h_firstEnt h t s0))) = numEnts t \<and>
    (\<forall>k v. lookup (h, t) k = Some v \<longleftrightarrow>
      (\<exists>e. e \<in> set (iterate n h t (h_firstEnt h t s0)) \<and> keyname h e = k \<and> hData h e = v))"
proof -
  obtain cs where ok: "htab_ok h t cs" using assms(1) by (auto simp: table_inv_def)
  have it: "mset (iterate n h t (h_firstEnt h t s0)) = mset (concat cs)"
    using iterate_table [OF ok assms(2)] concat_map_rev by simp
  have "distinct (concat cs)" "numEnts t = int (length (concat cs))" using ok by (auto simp: htab_ok_def distinct_map)
  then show ?thesis
    using mset_eq_imp_distinct_iff [OF it] mset_eq_length [OF it] mset_eq_setD [OF it]
      contents_iff [OF htab_keys [OF ok]] lookup_contents [OF ok] by simp
qed

text \<open>A table with one number in it.\<close>

definition ex_table :: "hheap \<times> hTab" where
  "ex_table = fst (the (put_memb (the (initTab ex_heap)) 7 40))"

lemma ex_table_inv: "table_inv ex_table" "look_memb ex_table = [7 \<mapsto> 40]"
proof -
  obtain s where s: "initTab ex_heap = Some s" "table_inv s" "look_memb s = Map.empty"
    using initTab_inv [of ex_heap] by (auto simp: ex_heap_def)
  then obtain s' where "put_memb s 7 40 = Some (s', True)" "table_inv s'" "look_memb s' = [7 \<mapsto> 40]"
    using memb_table.add_new [of s 7 40] by auto
  then show "table_inv ex_table" "look_memb ex_table = [7 \<mapsto> 40]" using s(1) by (simp_all add: ex_table_def)
qed

lemma ex_table_lookup: "lookup ex_table (print_int 7) = Some 40"
  using ex_table_inv(2) by (simp add: memb_eq fun_eq_iff split: if_splits)

abbreviation ex_scan :: sTab where "ex_scan \<equiv> \<lparr>nIndex = 3, hEntPtr = 5, hList = 5\<rparr>"

theorem iterate_visits_all_witness:
  "\<exists>h t. ex_table = (h, t) \<and> table_inv (h, t) \<and>
    (\<exists>e. e \<in> set (iterate (nat (numEnts t)) h t (h_firstEnt h t ex_scan)) \<and> keyname h e = print_int 7 \<and> hData h e = 40)"
proof -
  obtain h t where e: "ex_table = (h, t)" by fastforce
  then have inv: "table_inv (h, t)" using ex_table_inv(1) by simp
  have "numEnts t \<le> int (nat (numEnts t))" by simp
  from iterate_visits_all [OF inv this, of ex_scan]
  have "\<exists>e. e \<in> set (iterate (nat (numEnts t)) h t (h_firstEnt h t ex_scan)) \<and> keyname h e = print_int 7 \<and> hData h e = 40"
    using ex_table_lookup unfolding e by metis
  then show ?thesis using e inv by (intro exI [of _ h] exI [of _ t] conjI)
qed

subsection \<open>Destruction frees every entry once\<close>
















subsection \<open>Growth is invisible\<close>

lemma h_getEnt_unique:
  assumes ok: "htab_ok h t cs" "htab_ok h' t' cs'" and same: "set (concat cs') = set (concat cs)" "keyname h' = keyname h"
  shows "h_getEnt h' t' key = h_getEnt h t key"
proof -
  obtain e where e: "h_getEnt h t key = Some e"
    "e = NULL \<and> key \<notin> keyname h ` set (concat cs) \<or> e \<noteq> NULL \<and> e \<in> set (concat cs) \<and> keyname h e = key"
    using h_getEnt_ok [OF ok(1)] by blast
  obtain e' where e': "h_getEnt h' t' key = Some e'"
    "e' = NULL \<and> key \<notin> keyname h ` set (concat cs) \<or> e' \<noteq> NULL \<and> e' \<in> set (concat cs) \<and> keyname h e' = key"
    using h_getEnt_ok [OF ok(2)] unfolding same by blast
  have "inj_on (keyname h) (set (concat cs))" using htab_keys [OF ok(1)] unfolding distinct_map by blast
  then have "e' = e" using e(2) e'(2) by (metis imageI inj_onD)
  then show ?thesis using e(1) e'(1) by simp
qed

text \<open>C26. Rebuilding a table with more slots cannot be seen through its interface: for every key \<open>h_getEnt_\<close> finds the same entry as
  before (or none, as before), no entry changes its address, key or data, and only the old slot array is freed.\<close>

theorem resetTab_invisible:
  assumes "table_inv (h, t)"
  shows "\<exists>h' t'. resetTab h t = Some (h', t') \<and> table_inv (h', t') \<and> numEnts t' = numEnts t \<and>
    h_getEnt h' t' = h_getEnt h t \<and> keyname h' = keyname h \<and> hData h' = hData h \<and> freed h' = slotPtr t # freed h"
proof -
  obtain cs where ok: "htab_ok h t cs" "sized t" and own: "owned h (slotPtr t) cs" using assms by (auto simp: table_inv_def)
  obtain h' t' cs' where r: "resetTab h t = Some (h', t')" "htab_ok h' t' cs'" "set (concat cs') = set (concat cs)"
      "tsize t' = nat (getClosestPrime (int (tsize t) * 2))" "keyname h' = keyname h" "hData h' = hData h" "freed h' = slotPtr t # freed h"
      "keyAddr h' = keyAddr h" "brk h' = brk h + tsize t'" "slotPtr t' = brk h"
    using resetTab_ok [OF ok(1)] by blast
  have own': "owned h' (slotPtr t') cs'" by (rule owned_reset [OF r(3,8) _ r(10) own]) (simp add: r(9))
  have n: "numEnts t' = numEnts t" by (rule numEnts_eq [OF ok(1) r(2,3)])
  have "int (tsize t) \<le> int (tsize t')" "int (tsize t') \<in> set primes" "int (tsize t) = last primes \<Longrightarrow> tsize t' = tsize t"
    using ok(2) unfolding r(4) sized_def by (auto simp: primes_def getClosestPrime_def)
  then have "sized t'" using ok(2) n by (auto simp: sized_def)
  moreover have "h_getEnt h' t' = h_getEnt h t" by (rule ext) (rule h_getEnt_unique [OF ok(1) r(2,3,5)])
  ultimately show ?thesis using r n own' by (auto simp: table_inv_def)
qed

theorem resetTab_invisible_witness:
  "\<exists>h t h' t'. ex_table = (h, t) \<and> table_inv (h, t) \<and> resetTab h t = Some (h', t') \<and> lookup (h', t') (print_int 7) = Some 40"
proof -
  obtain h t where e: "ex_table = (h, t)" by fastforce
  then have inv: "table_inv (h, t)" using ex_table_inv(1) by simp
  obtain h' t' where r: "resetTab h t = Some (h', t')" "h_getEnt h' t' = h_getEnt h t" "hData h' = hData h"
    using resetTab_invisible [OF inv] by blast
  have "lookup (h', t') (print_int 7) = Some 40" 
    using ex_table_lookup unfolding e lookup_def chekMembStr_def prod.case r(2,3) .
  then show ?thesis using e inv r(1) by (intro exI conjI)
qed

end
