(* ===== verification/Bit_Set.thy ===== *)
theory Bit_Set
  imports Lava_Prelude "HOL-Library.Monad_Syntax"
begin

text \<open>
  Sets of objects numbered by an index function, kept as bits of an array of 32-bit words
  (\<open>lsf/intlib/bitset.c\<close>, \<open>bitset.h\<close>): creation, membership, insertion with enlargement, removal, the
  word-wise set operations, counting by a table of byte weights and iteration.

  The observers of a set are represented by the objects whose insertion they are told. \<open>None\<close> as the result of an
  operation means an access outside the array of words. Memory does not run out. \<open>setRemoveElement\<close>
  tests an uninitialised pointer for a negative value, which no pointer has, so that this test has no branch.
\<close>

subsection \<open>Data\<close>

record 'o bitset =
  bitmask :: "c_word list"
  setSize :: c_word
  setWidth :: c_word
  setNumElements :: c_word
  observed :: bool
  getIndexByObject :: "('o \<Rightarrow> int) option"
  getObjectByIndex :: "(int \<Rightarrow> 'o option) option"

abbreviation (input) WORDLENGTH :: nat where "WORDLENGTH \<equiv> 32"
abbreviation (input) SET_DEFAULT_SIZE :: int where "SET_DEFAULT_SIZE \<equiv> 32"
abbreviation (input) SET_WORD_DEFAULT_EXTENT :: c_word where "SET_WORD_DEFAULT_EXTENT \<equiv> 2"
abbreviation (input) LS_SET_UNION :: int where "LS_SET_UNION \<equiv> 0"
abbreviation (input) LS_SET_INTERSECT :: int where "LS_SET_INTERSECT \<equiv> 1"
abbreviation (input) LS_SET_DIFFERENCE :: int where "LS_SET_DIFFERENCE \<equiv> 2"
abbreviation (input) LS_SET_ASSIGN :: int where "LS_SET_ASSIGN \<equiv> 5"

subsection \<open>Operations\<close>

text \<open>The divisor is a \<open>size_t\<close>, so that a position is taken as a 64-bit unsigned number.\<close>

definition SET_GET_WORD :: "int \<Rightarrow> int" where
  "SET_GET_WORD position = c_int (position mod 2 ^ 64 div 32)"

definition SET_GET_BIT_IN_WORD :: "int \<Rightarrow> nat" where
  "SET_GET_BIT_IN_WORD position = nat (position mod 2 ^ 64 mod 32)"

definition setCreate :: "int \<Rightarrow> ('o \<Rightarrow> int) option \<Rightarrow> (int \<Rightarrow> 'o option) option \<Rightarrow> 'o bitset" where
  "setCreate n direct back_fn =
     (let sz = (if n > 0 then n else SET_DEFAULT_SIZE);
          width = word_of_int ((sz + 32 - 1) div 32)
      in \<lparr>bitmask = replicate (unat width) 0, setSize = width * 32, setWidth = width, setNumElements = 0,
          observed = False, getIndexByObject = direct, getObjectByIndex = back_fn\<rparr>)"

definition simpleSetCreate :: "int \<Rightarrow> 'o bitset" where
  "simpleSetCreate n = setCreate n None None"

text \<open>The mask is copied onto itself, that is, the freshly cleared mask remains.\<close>

definition setDup :: "'o bitset \<Rightarrow> 'o bitset" where
  "setDup s = s\<lparr>bitmask := replicate (unat (setWidth s)) 0\<rparr>"

definition setTestValue :: "'o bitset \<Rightarrow> int \<Rightarrow> bool option" where
  "setTestValue s value =
     (let word = SET_GET_WORD value; offset = SET_GET_BIT_IN_WORD value
      in if 0 \<le> word \<and> word < int (length (bitmask s)) then Some (bitmask s ! nat word AND push_bit offset 1 \<noteq> 0) else None)"

text \<open>Without an index function the object is the address of a number, which \<open>deref\<close> reads.\<close>

definition index_of :: "('o \<Rightarrow> int) \<Rightarrow> 'o bitset \<Rightarrow> 'o \<Rightarrow> int" where
  "index_of deref s obj = (case getIndexByObject s of None \<Rightarrow> deref obj | Some f \<Rightarrow> f obj)"

definition setIsMember :: "('o \<Rightarrow> int) \<Rightarrow> 'o bitset \<Rightarrow> 'o \<Rightarrow> int option" where
  "setIsMember deref s obj =
     (if setNumElements s = 0 then Some 0
      else let x = index_of deref s obj
           in if getIndexByObject s \<noteq> None \<and> x < 0 then Some (-1)
              else if word_of_int x \<ge> setSize s then Some 0
              else Option.bind (setTestValue s x) (\<lambda>b. Some (if b then 1 else 0)))"

definition setEnlarge :: "'o bitset \<Rightarrow> c_word \<Rightarrow> 'o bitset option" where
  "setEnlarge s newSize =
     (let width = setWidth s + (newSize + SET_WORD_DEFAULT_EXTENT)
      in if width < setWidth s then None
         else Some (s\<lparr>setWidth := width, bitmask := bitmask s @ replicate (unat width - unat (setWidth s)) 0, setSize := width * 32\<rparr>))"

definition put_word :: "'o bitset \<Rightarrow> int \<Rightarrow> (c_word \<Rightarrow> c_word) \<Rightarrow> 'o bitset option" where
  "put_word s word f =
     (if 0 \<le> word \<and> word < int (length (bitmask s)) then Some (s\<lparr>bitmask := (bitmask s)[nat word := f (bitmask s ! nat word)]\<rparr>) else None)"

text \<open>The result is the return code, the set and the objects that are announced to the observers.\<close>

definition setAddElement :: "('o \<Rightarrow> int) \<Rightarrow> 'o bitset \<Rightarrow> 'o \<Rightarrow> (int \<times> 'o bitset \<times> 'o list) option" where
  "setAddElement deref s obj =
     (let x = index_of deref s obj
      in if getIndexByObject s \<noteq> None \<and> x < 0 then Some (-1, s, [])
         else do {
           (present, s1) \<leftarrow> (if word_of_int x \<ge> setSize s then Option.bind (setEnlarge s (word_of_int x)) (\<lambda>s1. Some (False, s1))
                            else Option.bind (setTestValue s x) (\<lambda>b. Some (b, s)));
           if present then Some (-1, s1, [])
           else do {
             s2 \<leftarrow> put_word s1 (SET_GET_WORD x) (\<lambda>w. w OR push_bit (SET_GET_BIT_IN_WORD x) 1);
             Some (0, s2\<lparr>setNumElements := setNumElements s2 + 1\<rparr>, if observed s2 then [obj] else [])
           }
         })"

definition setRemoveElement :: "('o \<Rightarrow> int) \<Rightarrow> 'o bitset \<Rightarrow> 'o \<Rightarrow> (int \<times> 'o bitset) option" where
  "setRemoveElement deref s obj =
     (if setNumElements s = 0 then Some (-1, s)
      else let x = index_of deref s obj
           in if word_of_int x \<ge> setSize s then Some (0, s)
              else do {
                s1 \<leftarrow> put_word s (SET_GET_WORD x) (\<lambda>w. w AND NOT (push_bit (SET_GET_BIT_IN_WORD x) 1));
                Some (0, s1\<lparr>setNumElements := setNumElements s1 - 1\<rparr>)
              })"

definition setClear :: "'o bitset \<Rightarrow> 'o bitset" where
  "setClear s = s\<lparr>bitmask := replicate (unat (setWidth s)) 0, setNumElements := 0\<rparr>"

text \<open>The number of bits in each byte value.\<close>

definition nbits :: "nat list" where
  "nbits = [
     0,  1,  1,  2,  1,  2,  2,  3,  1,  2,  2,  3,  2,  3,  3,  4,
     1,  2,  2,  3,  2,  3,  3,  4,  2,  3,  3,  4,  3,  4,  4,  5,
     1,  2,  2,  3,  2,  3,  3,  4,  2,  3,  3,  4,  3,  4,  4,  5,
     2,  3,  3,  4,  3,  4,  4,  5,  3,  4,  4,  5,  4,  5,  5,  6,
     1,  2,  2,  3,  2,  3,  3,  4,  2,  3,  3,  4,  3,  4,  4,  5,
     2,  3,  3,  4,  3,  4,  4,  5,  3,  4,  4,  5,  4,  5,  5,  6,
     2,  3,  3,  4,  3,  4,  4,  5,  3,  4,  4,  5,  4,  5,  5,  6,
     3,  4,  4,  5,  4,  5,  5,  6,  4,  5,  5,  6,  5,  6,  6,  7,
     1,  2,  2,  3,  2,  3,  3,  4,  2,  3,  3,  4,  3,  4,  4,  5,
     2,  3,  3,  4,  3,  4,  4,  5,  3,  4,  4,  5,  4,  5,  5,  6,
     2,  3,  3,  4,  3,  4,  4,  5,  3,  4,  4,  5,  4,  5,  5,  6,
     3,  4,  4,  5,  4,  5,  5,  6,  4,  5,  5,  6,  5,  6,  6,  7,
     2,  3,  3,  4,  3,  4,  4,  5,  3,  4,  4,  5,  4,  5,  5,  6,
     3,  4,  4,  5,  4,  5,  5,  6,  4,  5,  5,  6,  5,  6,  6,  7,
     3,  4,  4,  5,  4,  5,  5,  6,  4,  5,  5,  6,  5,  6,  6,  7,
     4,  5,  5,  6,  5,  6,  6,  7,  5,  6,  6,  7,  6,  7,  7,  8]"

definition word_bytes :: "c_word \<Rightarrow> nat list" where
  "word_bytes w = map (\<lambda>i. unat (drop_bit (8 * i) w AND 0xFF)) [0, 1, 2, 3]"

definition count_bytes :: "nat list \<Rightarrow> nat" where
  "count_bytes bs = foldl (\<lambda>n b. n + nbits ! b) 0 bs"

definition getNum1BitsInWord :: "c_word \<Rightarrow> nat" where
  "getNum1BitsInWord w = count_bytes (word_bytes w)"

definition setGetNumElements :: "'o bitset \<Rightarrow> nat" where
  "setGetNumElements s = count_bytes (concat (map word_bytes (take (unat (setWidth s)) (bitmask s))))"

text \<open>The loops over the words of both sets, with the rest of the destination kept or cleared.\<close>

fun combine :: "(c_word \<Rightarrow> c_word \<Rightarrow> c_word) \<Rightarrow> bool \<Rightarrow> c_word list \<Rightarrow> c_word list \<Rightarrow> c_word list" where
  "combine f clear d [] = (if clear then map (\<lambda>_. 0) d else d)"
| "combine f clear [] ss = []"
| "combine f clear (x # xs) (y # ys) = f x y # combine f clear xs ys"

definition setOperate :: "'o bitset \<Rightarrow> 'o bitset \<Rightarrow> int \<Rightarrow> 'o bitset option" where
  "setOperate dest src op =
     (if op \<noteq> LS_SET_UNION \<and> op \<noteq> LS_SET_INTERSECT \<and> op \<noteq> LS_SET_DIFFERENCE \<and> op \<noteq> LS_SET_ASSIGN then Some dest
      else do {
        d \<leftarrow> (if setWidth dest < setWidth src then setEnlarge dest (setWidth src) else Some dest);
        let words = (if op = LS_SET_UNION then combine (OR) False (bitmask d) (bitmask src)
                     else if op = LS_SET_INTERSECT then combine (AND) True (bitmask d) (bitmask src)
                     else if op = LS_SET_DIFFERENCE then combine (XOR) False (bitmask d) (bitmask src)
                     else combine (\<lambda>x y. y) True (bitmask d) (bitmask src));
        Some (d\<lparr>bitmask := words\<rparr>)
      })"

subsection \<open>Iteration\<close>

text \<open>
  An iterator holds the next bit to look at and the size the set had when it was attached. Without an object function
  the number of the bit itself is returned as a pointer, so that bit 0 gives the null pointer.
\<close>

type_synonym 'o entry = "nat + 'o"

definition setIteratorAttach :: "'o bitset \<Rightarrow> nat \<times> c_word" where
  "setIteratorAttach s = (0, setSize s)"

function next_element :: "'o bitset \<Rightarrow> nat \<Rightarrow> ('o entry option \<times> nat) option" where
  "next_element s i =
     (if i < unat (setSize s)
      then (case setTestValue s (c_int (int i)) of
              None \<Rightarrow> None
            | Some False \<Rightarrow> next_element s (i + 1)
            | Some True \<Rightarrow>
                (case getObjectByIndex s of
                   None \<Rightarrow> Some (if i = 0 then None else Some (Inl i), i + 1)
                 | Some f \<Rightarrow> (case f (c_int (int i)) of None \<Rightarrow> Some (None, i) | Some obj \<Rightarrow> Some (Some (Inr obj), i + 1))))
      else Some (None, i))"
  by pat_completeness auto
termination by (relation "measure (\<lambda>(s, i). unat (setSize s) - i)") auto

declare next_element.simps [simp del]

definition setIteratorGetNextElement :: "'o bitset \<Rightarrow> nat \<Rightarrow> ('o entry option \<times> nat) option" where
  "setIteratorGetNextElement s i = (if setNumElements s = 0 then Some (None, i) else next_element s i)"

definition setIteratorBegin :: "'o bitset \<Rightarrow> nat \<Rightarrow> ('o entry option \<times> nat) option" where
  "setIteratorBegin s i = setIteratorGetNextElement s i"

definition setIteratorIsEndOfSet :: "c_word \<Rightarrow> nat \<Rightarrow> bool" where
  "setIteratorIsEndOfSet size0 i \<longleftrightarrow> i \<ge> unat size0"

text \<open>The loop \<open>for (e = Begin(it); e; e = GetNextElement(it))\<close> of the clients.\<close>

partial_function (option) visit_from :: "'o bitset \<Rightarrow> 'o entry option \<Rightarrow> nat \<Rightarrow> 'o entry list option" where
  "visit_from s e i =
     (case e of
        None \<Rightarrow> Some []
      | Some x \<Rightarrow> do {
          (e', i') \<leftarrow> setIteratorGetNextElement s i;
          xs \<leftarrow> visit_from s e' i';
          Some (x # xs)
        })"

definition visit_set :: "'o bitset \<Rightarrow> 'o entry list option" where
  "visit_set s = do {
     let (i, _) = setIteratorAttach s;
     (e, i') \<leftarrow> setIteratorBegin s i;
     visit_from s e i'
   }"

partial_function (option) cat_from ::
  "'o bitset \<Rightarrow> c_word \<Rightarrow> int \<Rightarrow> ('o entry \<Rightarrow> string option) \<Rightarrow> string \<Rightarrow> 'o entry option \<Rightarrow> nat \<Rightarrow> string option" where
  "cat_from s size0 bufferSize catFunc buffer e i =
     (case e of
        None \<Rightarrow> Some buffer
      | Some x \<Rightarrow>
          if setIteratorIsEndOfSet size0 i then Some buffer
          else if (case catFunc x of None \<Rightarrow> False | Some str \<Rightarrow> int (length buffer + length str) > (bufferSize - 1) mod 2 ^ 64) then Some buffer
          else do {
            (e', i') \<leftarrow> setIteratorGetNextElement s i;
            cat_from s size0 bufferSize catFunc (buffer @ (case catFunc x of None \<Rightarrow> [] | Some str \<Rightarrow> str)) e' i'
          })"

definition setCat :: "'o bitset \<Rightarrow> int \<Rightarrow> ('o entry \<Rightarrow> string option) \<Rightarrow> string option" where
  "setCat s bufferSize catFunc = do {
     let (i, size0) = setIteratorAttach s;
     (e, i') \<leftarrow> setIteratorBegin s i;
     cat_from s size0 bufferSize catFunc [] e i'
   }"

subsection \<open>The set of positions\<close>

definition mask_els :: "c_word list \<Rightarrow> nat set" where
  "mask_els ws = {n. n < 32 * length ws \<and> bit (ws ! (n div 32)) (n mod 32)}"

definition elems :: "'o bitset \<Rightarrow> nat set" where
  "elems s = mask_els (bitmask s)"

text \<open>The sizes agree with the array, and the counter with the set.\<close>

definition bs_ok :: "'o bitset \<Rightarrow> bool" where
  "bs_ok s \<longleftrightarrow> length (bitmask s) = unat (setWidth s) \<and> unat (setSize s) = 32 * unat (setWidth s)"

definition counted :: "'o bitset \<Rightarrow> bool" where
  "counted s \<longleftrightarrow> unat (setNumElements s) = card (elems s)"

lemma mask_els_finite [simp]: "finite (mask_els ws)"
  by (simp add: mask_els_def)

lemma mask_els_Nil [simp]: "mask_els [] = {}"
  by (simp add: mask_els_def)

lemma mask_els_Cons: "n \<in> mask_els (w # ws) \<longleftrightarrow> (if n < 32 then bit w n else n - 32 \<in> mask_els ws)"
proof (cases "n < 32")
  case False
  then have "(w # ws) ! (n div 32) = ws ! ((n - 32) div 32)" "n mod 32 = (n - 32) mod 32" "n < 32 * length (w # ws) \<longleftrightarrow> n - 32 < 32 * length ws"
    by (auto simp: nth_Cons' div_if [of n] mod_if [of n])
  then show ?thesis using False by (simp add: mask_els_def)
qed (simp add: mask_els_def)

lemma mask_els_zero: "mask_els (ws @ replicate m 0) = mask_els ws"
proof (induction ws)
  case Nil
  show ?case by (auto simp: mask_els_def nth_replicate)
qed (auto simp: mask_els_Cons)

lemma mask_els_replicate [simp]: "mask_els (replicate m 0) = {}"
  using mask_els_zero [of "[]" m] by simp

lemma mask_els_update:
  assumes "n < 32 * length ws"
  shows "mask_els (ws[n div 32 := ws ! (n div 32) OR push_bit (n mod 32) 1]) = insert n (mask_els ws)"
    "mask_els (ws[n div 32 := ws ! (n div 32) AND NOT (push_bit (n mod 32) 1)]) = mask_els ws - {n}"
proof -
  have l: "n div 32 < length ws" using assms by auto
  have eq: "m div 32 = n div 32 \<Longrightarrow> m mod 32 = n mod 32 \<Longrightarrow> m = n" for m by (metis div_mult_mod_eq)
  have b: "bit (2 ^ (n mod 32) :: c_word) k \<longleftrightarrow> k = n mod 32" for k by (auto simp: bit_simps)
  show "mask_els (ws[n div 32 := ws ! (n div 32) OR push_bit (n mod 32) 1]) = insert n (mask_els ws)"
    using assms l eq by (auto simp: mask_els_def nth_list_update b bit_or_iff split: if_splits)
  show "mask_els (ws[n div 32 := ws ! (n div 32) AND NOT (push_bit (n mod 32) 1)]) = mask_els ws - {n}"
    using assms l eq by (auto simp: mask_els_def nth_list_update b bit_and_iff bit_not_iff split: if_splits)
qed

lemma combine_els:
  assumes "length ss \<le> length d" "\<And>x y k. k < 32 \<Longrightarrow> bit (f x y) k = g (bit x k) (bit y k)"
  shows "n \<in> mask_els (combine f clear d ss) \<longleftrightarrow>
    (if n < 32 * length ss then g (n \<in> mask_els d) (n \<in> mask_els ss) else \<not> clear \<and> n \<in> mask_els d)"
  using assms
proof (induction f clear d ss arbitrary: n rule: combine.induct)
  case (1 f clear d)
  have "map (\<lambda>_. 0) d = replicate (length d) (0 :: c_word)" by (simp add: map_replicate_const)
  then show ?case by simp
next
  case (3 f clear x xs y ys)
  have "n - 32 \<in> mask_els (combine f clear xs ys) \<longleftrightarrow>
      (if n - 32 < 32 * length ys then g (n - 32 \<in> mask_els xs) (n - 32 \<in> mask_els ys) else \<not> clear \<and> n - 32 \<in> mask_els xs)"
    using 3 by simp
  moreover have "n < 32 \<Longrightarrow> bit (f x y) n = g (bit x n) (bit y n)" by (rule "3.prems"(2))
  ultimately show ?case by (auto simp: mask_els_Cons)
qed simp

subsection \<open>Operations on the set of positions\<close>

lemma position_split:
  assumes "n < 2 ^ 32"
  shows "SET_GET_WORD (int n) = int (n div 32)" "SET_GET_BIT_IN_WORD (int n) = n mod 32"
proof -
  have "int n mod 2 ^ 64 = int n" using assms by simp
  moreover have "c_int (int n div 32) = int n div 32" using assms by (intro c_int_id) auto
  ultimately show "SET_GET_WORD (int n) = int (n div 32)" "SET_GET_BIT_IN_WORD (int n) = n mod 32"
    by (simp_all add: SET_GET_WORD_def SET_GET_BIT_IN_WORD_def zdiv_int nat_mod_distrib)
qed

lemma unat_of_position: "n < 2 ^ 32 \<Longrightarrow> unat (word_of_int (int n) :: c_word) = n"
  by (simp add: unsigned_of_nat take_bit_nat_eq_self)

lemma size_bound: "unat (setSize s) < 2 ^ 32"
  using unsigned_less [of "setSize s", where ?'a = nat] by simp

lemma in_size: "n < 2 ^ 32 \<Longrightarrow> word_of_int (int n) \<ge> setSize s \<longleftrightarrow> unat (setSize s) \<le> n"
  using unat_of_position [of n] by (simp add: word_le_nat_alt)

lemma setTestValue_elems:
  assumes "bs_ok s" "n < unat (setSize s)"
  shows "setTestValue s (int n) = Some (n \<in> elems s)"
proof -
  have n: "n < 2 ^ 32" "n < 32 * length (bitmask s)" using assms size_bound [of s] by (auto simp: bs_ok_def)
  then have "int (n div 32) < int (length (bitmask s))" by auto
  then show ?thesis
    using n position_split [OF n(1)]
    by (simp add: setTestValue_def elems_def mask_els_def bit_iff_and_push_bit_not_eq_0)
qed

lemma elems_bound: "bs_ok s \<Longrightarrow> n \<in> elems s \<Longrightarrow> n < unat (setSize s)"
  by (simp add: bs_ok_def elems_def mask_els_def)

lemma put_word_set:
  assumes "bs_ok s" "n < unat (setSize s)"
  shows "put_word s (SET_GET_WORD (int n)) f = Some (s\<lparr>bitmask := (bitmask s)[n div 32 := f (bitmask s ! (n div 32))]\<rparr>)"
proof -
  have n: "n < 2 ^ 32" "n div 32 < length (bitmask s)" using assms size_bound [of s] by (auto simp: bs_ok_def)
  then show ?thesis using position_split(1) [OF n(1)] by (simp add: put_word_def)
qed

text \<open>The enlarged set has room for the position, as long as the size of the array in bits is a 32-bit number.\<close>

lemma setEnlarge_ok:
  assumes "bs_ok s" "n < 2 ^ 32" "unat (setWidth s) + n + 2 < 2 ^ 27"
  shows "\<exists>s'. setEnlarge s (word_of_int (int n)) = Some s' \<and> bs_ok s' \<and> elems s' = elems s \<and> n < unat (setSize s') \<and>
    unat (setWidth s') = unat (setWidth s) + n + 2 \<and> setNumElements s' = setNumElements s \<and> getIndexByObject s' = getIndexByObject s \<and>
    getObjectByIndex s' = getObjectByIndex s \<and> observed s' = observed s"
proof -
  define w where "w = setWidth s + (word_of_int (int n) + SET_WORD_DEFAULT_EXTENT)"
  have "unat (word_of_int (int n) + SET_WORD_DEFAULT_EXTENT :: c_word) = n + 2"
    using unat_of_position [OF assms(2)] assms(3) by (simp add: unat_word_ariths)
  then have w: "unat w = unat (setWidth s) + n + 2" using assms(3) by (simp add: unat_word_ariths w_def)
  then have "unat (w * 32) = 32 * unat w" using assms(3) by (simp add: unat_word_ariths)
  moreover have "\<not> w < setWidth s" using w by (simp add: word_less_nat_alt)
  moreover have "setEnlarge s (word_of_int (int n)) = (if w < setWidth s then None
      else Some (s\<lparr>setWidth := w, bitmask := bitmask s @ replicate (unat w - unat (setWidth s)) 0, setSize := w * 32\<rparr>))"
    by (simp add: setEnlarge_def Let_def w_def)
  ultimately show ?thesis
    using assms(1) w mask_els_zero [of "bitmask s" "Suc (Suc n)"] by (auto simp: bs_ok_def elems_def)
qed

text \<open>What an operation does not touch.\<close>

definition same_shape :: "'o bitset \<Rightarrow> 'o bitset \<Rightarrow> bool" where
  "same_shape s s' \<longleftrightarrow> getIndexByObject s' = getIndexByObject s \<and> getObjectByIndex s' = getObjectByIndex s \<and> observed s' = observed s"

lemma set_bit_ok:
  assumes "bs_ok s" "n < unat (setSize s)"
  shows "\<exists>s'. put_word s (SET_GET_WORD (int n)) (\<lambda>w. w OR push_bit (SET_GET_BIT_IN_WORD (int n)) 1) = Some s' \<and> bs_ok s' \<and>
      elems s' = insert n (elems s) \<and> setWidth s' = setWidth s \<and> setNumElements s' = setNumElements s \<and> same_shape s s'"
    "\<exists>s'. put_word s (SET_GET_WORD (int n)) (\<lambda>w. w AND NOT (push_bit (SET_GET_BIT_IN_WORD (int n)) 1)) = Some s' \<and> bs_ok s' \<and>
      elems s' = elems s - {n} \<and> setWidth s' = setWidth s \<and> setNumElements s' = setNumElements s \<and> same_shape s s'"
proof -
  have n: "n < 2 ^ 32" "n < 32 * length (bitmask s)" using assms size_bound [of s] by (auto simp: bs_ok_def)
  have off: "SET_GET_BIT_IN_WORD (int n) = n mod 32" by (rule position_split(2) [OF n(1)])
  show "\<exists>s'. put_word s (SET_GET_WORD (int n)) (\<lambda>w. w OR push_bit (SET_GET_BIT_IN_WORD (int n)) 1) = Some s' \<and> bs_ok s' \<and>
      elems s' = insert n (elems s) \<and> setWidth s' = setWidth s \<and> setNumElements s' = setNumElements s \<and> same_shape s s'"
    unfolding put_word_set [OF assms] off
    by (intro exI conjI, rule refl) (use assms(1) mask_els_update(1) [OF n(2)] in \<open>simp_all add: bs_ok_def elems_def same_shape_def\<close>)
  show "\<exists>s'. put_word s (SET_GET_WORD (int n)) (\<lambda>w. w AND NOT (push_bit (SET_GET_BIT_IN_WORD (int n)) 1)) = Some s' \<and> bs_ok s' \<and>
      elems s' = elems s - {n} \<and> setWidth s' = setWidth s \<and> setNumElements s' = setNumElements s \<and> same_shape s s'"
    unfolding put_word_set [OF assms] off
    by (intro exI conjI, rule refl) (use assms(1) mask_els_update(2) [OF n(2)] in \<open>simp_all add: bs_ok_def elems_def same_shape_def\<close>)
qed

lemma setAddElement_ok:
  assumes ok: "bs_ok s" and x: "index_of deref s obj = int n" "unat (setWidth s) + n + 2 < 2 ^ 27"
  shows "\<exists>s'. setAddElement deref s obj = Some (if n \<in> elems s then -1 else 0, s', if n \<notin> elems s \<and> observed s then [obj] else []) \<and> bs_ok s' \<and>
    elems s' = insert n (elems s) \<and> setNumElements s' = (if n \<in> elems s then setNumElements s else setNumElements s + 1) \<and>
    unat (setWidth s') = (if n < unat (setSize s) then unat (setWidth s) else unat (setWidth s) + n + 2) \<and> same_shape s s'"
proof (cases "n < unat (setSize s)")
  case True
  have n: "n < 2 ^ 32" using True size_bound [of s] by simp
  have small: "\<not> word_of_int (int n) \<ge> setSize s" using in_size [OF n, of s] True by simp
  have test: "setTestValue s (int n) = Some (n \<in> elems s)" by (rule setTestValue_elems [OF ok True])
  obtain s1 where "put_word s (SET_GET_WORD (int n)) (\<lambda>w. w OR push_bit (SET_GET_BIT_IN_WORD (int n)) 1) = Some s1" "bs_ok s1"
      "elems s1 = insert n (elems s)" "setWidth s1 = setWidth s" "setNumElements s1 = setNumElements s" "same_shape s s1"
    using set_bit_ok(1) [OF ok True] by blast
  then show ?thesis
    using x(1) small test True ok by (auto simp: setAddElement_def Let_def bs_ok_def elems_def same_shape_def insert_absorb)
next
  case False
  have n: "n < 2 ^ 32" using x(2) by simp
  have big: "word_of_int (int n) \<ge> setSize s" using in_size [OF n, of s] False by simp
  have new: "n \<notin> elems s" using elems_bound [OF ok] False by auto
  obtain s1 where 1: "setEnlarge s (word_of_int (int n)) = Some s1" "bs_ok s1" "elems s1 = elems s" "n < unat (setSize s1)"
      "unat (setWidth s1) = unat (setWidth s) + n + 2" "setNumElements s1 = setNumElements s" "same_shape s s1"
    using setEnlarge_ok [OF ok n x(2)] by (auto simp: same_shape_def)
  obtain s2 where "put_word s1 (SET_GET_WORD (int n)) (\<lambda>w. w OR push_bit (SET_GET_BIT_IN_WORD (int n)) 1) = Some s2" "bs_ok s2"
      "elems s2 = insert n (elems s1)" "setWidth s2 = setWidth s1" "setNumElements s2 = setNumElements s1" "same_shape s1 s2"
    using set_bit_ok(1) [OF 1(2,4)] by blast
  then show ?thesis
    using x(1) big new 1 False by (auto simp: setAddElement_def Let_def bs_ok_def elems_def same_shape_def)
qed

lemma setRemoveElement_ok:
  assumes ok: "bs_ok s" "setNumElements s \<noteq> 0" and x: "index_of deref s obj = int n" "n < unat (setSize s)"
  shows "\<exists>s'. setRemoveElement deref s obj = Some (0, s') \<and> bs_ok s' \<and> elems s' = elems s - {n} \<and>
    setNumElements s' = setNumElements s - 1 \<and> setWidth s' = setWidth s \<and> same_shape s s'"
proof -
  have n: "n < 2 ^ 32" using x(2) size_bound [of s] by simp
  have small: "\<not> word_of_int (int n) \<ge> setSize s" using in_size [OF n, of s] x(2) by simp
  obtain s1 where "put_word s (SET_GET_WORD (int n)) (\<lambda>w. w AND NOT (push_bit (SET_GET_BIT_IN_WORD (int n)) 1)) = Some s1" "bs_ok s1"
      "elems s1 = elems s - {n}" "setWidth s1 = setWidth s" "setNumElements s1 = setNumElements s" "same_shape s s1"
    using set_bit_ok(2) [OF ok(1) x(2)] by blast
  then show ?thesis
    using x(1) small ok by (auto simp: setRemoveElement_def Let_def bs_ok_def elems_def same_shape_def)
qed

lemma setIsMember_ok:
  assumes "bs_ok s" "index_of deref s obj = int n" "n < 2 ^ 32"
  shows "setIsMember deref s obj = Some (if setNumElements s \<noteq> 0 \<and> n \<in> elems s then 1 else 0)"
  using assms in_size [OF assms(3), of s] setTestValue_elems [OF assms(1), of n] elems_bound [OF assms(1), of n]
  by (auto simp: setIsMember_def Let_def)

definition op_result :: "int \<Rightarrow> nat set \<Rightarrow> nat set \<Rightarrow> nat set" where
  "op_result op A B = (if op = LS_SET_UNION then A \<union> B else if op = LS_SET_INTERSECT then A \<inter> B
     else if op = LS_SET_DIFFERENCE then (A - B) \<union> (B - A) else B)"

lemma combine_length: "length ss \<le> length d \<Longrightarrow> length (combine f clear d ss) = length d"
  by (induction f clear d ss rule: combine.induct) auto

lemma combine_ops:
  assumes len: "length ss \<le> length d"
  shows "mask_els (combine (OR) False d ss) = mask_els d \<union> mask_els ss"
    "mask_els (combine (AND) True d ss) = mask_els d \<inter> mask_els ss"
    "mask_els (combine (XOR) False d ss) = (mask_els d - mask_els ss) \<union> (mask_els ss - mask_els d)"
    "mask_els (combine (\<lambda>x y. y) True d ss) = mask_els ss"
proof -
  have ss: "n \<in> mask_els ss \<Longrightarrow> n < 32 * length ss" for n by (simp add: mask_els_def)
  show "mask_els (combine (OR) False d ss) = mask_els d \<union> mask_els ss"
    by (rule set_eqI, subst combine_els [OF len, where g = "(\<or>)"]) (auto simp: bit_or_iff dest: ss)
  show "mask_els (combine (AND) True d ss) = mask_els d \<inter> mask_els ss"
    by (rule set_eqI, subst combine_els [OF len, where g = "(\<and>)"]) (auto simp: bit_and_iff dest: ss)
  show "mask_els (combine (XOR) False d ss) = (mask_els d - mask_els ss) \<union> (mask_els ss - mask_els d)"
    by (rule set_eqI, subst combine_els [OF len, where g = "(\<noteq>)"]) (auto simp: bit_xor_iff dest: ss)
  show "mask_els (combine (\<lambda>x y. y) True d ss) = mask_els ss"
    by (rule set_eqI, subst combine_els [OF len, where g = "\<lambda>a b. b"]) (auto dest: ss)
qed

lemma setOperate_ok:
  assumes ok: "bs_ok dest" "bs_ok src" and op: "op \<in> {LS_SET_UNION, LS_SET_INTERSECT, LS_SET_DIFFERENCE, LS_SET_ASSIGN}"
    and w: "setWidth dest < setWidth src \<Longrightarrow> unat (setWidth dest) + unat (setWidth src) + 2 < 2 ^ 27"
  shows "\<exists>d. setOperate dest src op = Some d \<and> bs_ok d \<and> elems d = op_result op (elems dest) (elems src) \<and>
    setNumElements d = setNumElements dest \<and> same_shape dest d \<and>
    unat (setWidth d) = (if setWidth dest < setWidth src then unat (setWidth dest) + unat (setWidth src) + 2 else unat (setWidth dest))"
proof -
  let ?wide = "if setWidth dest < setWidth src then setEnlarge dest (setWidth src) else Some dest"
  obtain d where d: "?wide = Some d" "bs_ok d" "elems d = elems dest" "setNumElements d = setNumElements dest" "same_shape dest d"
      "unat (setWidth d) = (if setWidth dest < setWidth src then unat (setWidth dest) + unat (setWidth src) + 2 else unat (setWidth dest))"
  proof (cases "setWidth dest < setWidth src")
    case True
    have "unat (setWidth src) < 2 ^ 32" using w [OF True] by simp
    then show ?thesis using setEnlarge_ok [OF ok(1), of "unat (setWidth src)"] w [OF True] True that by (auto simp: same_shape_def)
  next
    case False
    then show ?thesis using ok(1) that by (auto simp: same_shape_def)
  qed
  have len: "length (bitmask src) \<le> length (bitmask d)" using d(2,6) ok(2) by (auto simp: bs_ok_def word_less_nat_alt split: if_splits)
  note ops = combine_ops [OF len]
  show ?thesis
    using op d ops combine_length [OF len]
    by (auto simp: setOperate_def op_result_def bs_ok_def elems_def same_shape_def)
qed

subsection \<open>Counting\<close>

lemma count_bytes_sum: "count_bytes bs = sum_list (map ((!) nbits) bs)"
proof -
  have "foldl (\<lambda>n b. n + nbits ! b) a bs = a + sum_list (map ((!) nbits) bs)" for a by (induction bs arbitrary: a) auto
  then show ?thesis by (simp add: count_bytes_def)
qed

lemma nbits_table:
  "map int nbits = map (\<lambda>b. b mod 2 + b div 2 mod 2 + b div 4 mod 2 + b div 8 mod 2 + b div 16 mod 2 + b div 32 mod 2 +
     b div 64 mod 2 + b div 128 mod 2) [0..255]"
  by code_simp

lemma upt_bits: "[0..<8] = [0, 1, 2, 3, 4, 5, 6, 7]"
  "[0..<32] = [0, 1, 2, 3, 4, 5, 6, 7, 8, 9, 10, 11, 12, 13, 14, 15, 16, 17, 18, 19, 20, 21, 22, 23, 24, 25, 26, 27, 28, 29, 30, 31]"
  by code_simp+

lemma nbits_byte:
  assumes "b < 256"
  shows "nbits ! b = (\<Sum>i \<leftarrow> [0..<8]. of_bool (bit b i))"
proof -
  have len: "length nbits = 256" using arg_cong [OF nbits_table, of length] by simp
  have "int (nbits ! b) = map int nbits ! b" using len assms by simp
  also have "\<dots> = int b mod 2 + int b div 2 mod 2 + int b div 4 mod 2 + int b div 8 mod 2 + int b div 16 mod 2 + int b div 32 mod 2 +
     int b div 64 mod 2 + int b div 128 mod 2"
    unfolding nbits_table using assms by simp
  also have "\<dots> = int (b mod 2 + b div 2 mod 2 + b div 4 mod 2 + b div 8 mod 2 + b div 16 mod 2 + b div 32 mod 2 + b div 64 mod 2 + b div 128 mod 2)"
    by (simp add: zdiv_int zmod_int)
  finally have "nbits ! b = b mod 2 + b div 2 mod 2 + b div 4 mod 2 + b div 8 mod 2 + b div 16 mod 2 + b div 32 mod 2 + b div 64 mod 2 + b div 128 mod 2"
    by linarith
  moreover have "of_bool (bit b i) = b div 2 ^ i mod 2" for i by (simp add: bit_iff_odd mod2_eq_if)
  ultimately show ?thesis by (simp add: upt_bits(1))
qed

lemma byte_bits: "i < 4 \<Longrightarrow> bit (unat (drop_bit (8 * i) w AND 0xFF)) j \<longleftrightarrow> j < 8 \<and> bit w (8 * i + j)" for w :: c_word
proof -
  have "(0xFF :: c_word) = mask 8" by (simp add: mask_eq_exp_minus_1)
  then have "bit (0xFF :: c_word) j \<longleftrightarrow> possible_bit TYPE(c_word) j \<and> j < 8" by (metis bit_mask_iff)
  then have "bit (0xFF :: c_word) j \<longleftrightarrow> j < 8" by auto
  then have "bit (drop_bit (8 * i) w AND 0xFF) j \<longleftrightarrow> j < 8 \<and> bit w (8 * i + j)" by (auto simp: bit_simps)
  then show ?thesis by (auto simp: bit_unsigned_iff)
qed

lemma byte_bound: "unat (v AND 0xFF) < 256" for v :: c_word
proof -
  have "v AND 0xFF \<le> 0xFF" by (rule word_and_le1)
  then show ?thesis by (simp add: word_le_nat_alt)
qed

lemma sum_card: "(\<Sum>i \<leftarrow> [0..<n]. of_bool (P i)) = card {i. i < n \<and> P i}"
proof (induction n)
  case (Suc n)
  have "{i. i < Suc n \<and> P i} = (if P n then insert n {i. i < n \<and> P i} else {i. i < n \<and> P i})" by (auto simp: less_Suc_eq)
  then show ?case using Suc by simp
qed simp

lemma getNum1BitsInWord_card: "getNum1BitsInWord w = card {i. i < 32 \<and> bit w i}"
proof -
  have byte: "nbits ! unat (drop_bit (8 * i) w AND 0xFF) = (\<Sum>j \<leftarrow> [0, 1, 2, 3, 4, 5, 6, 7]. of_bool (bit w (8 * i + j)))" if "i < 4" for i
    unfolding nbits_byte [OF byte_bound] upt_bits(1) using byte_bits [OF that, of w] by simp
  have "getNum1BitsInWord w = (\<Sum>i \<leftarrow> [0, 1, 2, 3]. nbits ! unat (drop_bit (8 * i) w AND 0xFF))"
    by (simp add: getNum1BitsInWord_def count_bytes_sum word_bytes_def)
  also have "\<dots> = (\<Sum>i \<leftarrow> [0..<32]. of_bool (bit w i))"
    unfolding upt_bits(2) using byte [of 0] byte [of 1] byte [of 2] byte [of 3] by simp
  also have "\<dots> = card {i. i < 32 \<and> bit w i}" by (rule sum_card)
  finally show ?thesis .
qed

lemma mask_els_card: "card (mask_els (w # ws)) = card {i. i < 32 \<and> bit w i} + card (mask_els ws)"
proof -
  have "mask_els (w # ws) = {i. i < 32 \<and> bit w i} \<union> (+) 32 ` mask_els ws" (is "_ = ?A \<union> ?B")
  proof (rule set_eqI)
    fix n
    show "n \<in> mask_els (w # ws) \<longleftrightarrow> n \<in> ?A \<union> ?B"
      by (cases "n < 32") (auto simp: mask_els_Cons image_iff intro: bexI [of _ "n - 32"])
  qed
  moreover have "card ((+) 32 ` mask_els ws) = card (mask_els ws)" by (rule card_image) simp
  moreover have "card (?A \<union> ?B) = card ?A + card ?B" by (rule card_Un_disjoint) auto
  ultimately show ?thesis by simp
qed

lemma setGetNumElements_card:
  assumes "bs_ok s"
  shows "setGetNumElements s = card (elems s)"
proof -
  have "count_bytes (concat (map word_bytes ws)) = card (mask_els ws)" for ws
  proof (induction ws)
    case (Cons w ws)
    then show ?case using getNum1BitsInWord_card [of w] by (simp add: mask_els_card count_bytes_sum getNum1BitsInWord_def)
  qed (simp add: count_bytes_def)
  then show ?thesis using assms by (simp add: setGetNumElements_def bs_ok_def elems_def)
qed

subsection \<open>Iteration in increasing order\<close>

definition rest :: "'o bitset \<Rightarrow> nat \<Rightarrow> nat list" where
  "rest s i = sorted_list_of_set {n \<in> elems s. i \<le> n}"

lemma elems_finite [simp]: "finite (elems s)"
  by (simp add: elems_def)

lemma rest_step: "rest s i = (if i \<in> elems s then i # rest s (i + 1) else rest s (i + 1))"
proof (cases "i \<in> elems s")
  case True
  then have "{n \<in> elems s. i \<le> n} = insert i {n \<in> elems s. i + 1 \<le> n}" by auto
  moreover have "sorted_list_of_set (insert i {n \<in> elems s. i + 1 \<le> n}) = i # sorted_list_of_set {n \<in> elems s. i + 1 \<le> n}"
    by (simp add: insort_is_Cons)
  ultimately show ?thesis using True by (simp add: rest_def)
next
  case False
  then have "{n \<in> elems s. i \<le> n} = {n \<in> elems s. i + 1 \<le> n}" using le_eq_less_or_eq by auto
  then show ?thesis using False by (simp add: rest_def)
qed

lemma rest_end: "bs_ok s \<Longrightarrow> unat (setSize s) \<le> i \<Longrightarrow> rest s i = []"
  using elems_bound [of s] by (fastforce simp: rest_def)

lemma next_element_rest:
  assumes ok: "bs_ok s" and f: "getObjectByIndex s = Some f" "\<And>n. n \<in> elems s \<Longrightarrow> f (int n) = Some (g n)" and size: "unat (setSize s) \<le> 2 ^ 31"
  shows "i \<le> unat (setSize s) \<Longrightarrow>
    next_element s i = Some (case rest s i of [] \<Rightarrow> (None, unat (setSize s)) | n # _ \<Rightarrow> (Some (Inr (g n)), n + 1))"
proof (induction "unat (setSize s) - i" arbitrary: i)
  case 0
  then have i: "i = unat (setSize s)" by simp
  then show ?case using rest_end [OF ok, of i] unfolding i by (subst next_element.simps) simp
next
  case (Suc k)
  have i: "i < unat (setSize s)" "c_int (int i) = int i" using Suc.hyps(2) size by (auto intro!: c_int_id)
  have test: "setTestValue s (int i) = Some (i \<in> elems s)" by (rule setTestValue_elems [OF ok i(1)])
  have later: "next_element s (i + 1) = Some (case rest s (i + 1) of [] \<Rightarrow> (None, unat (setSize s)) | n # _ \<Rightarrow> (Some (Inr (g n)), n + 1))"
    using Suc.hyps i(1) by simp
  show ?case
    using i test later f rest_step [of s i] by (simp add: next_element.simps [of s i])
qed

lemma rest_later: "bs_ok s \<Longrightarrow> rest s i = n # ns \<Longrightarrow> rest s (n + 1) = ns \<and> n \<in> elems s"
proof (induction "unat (setSize s) - i" arbitrary: i)
  case 0
  then show ?case using rest_end [of s i] by simp
next
  case (Suc k)
  show ?case
  proof (cases "i \<in> elems s")
    case True
    then have "i # rest s (i + 1) = n # ns" using Suc.prems(2) rest_step [of s i] by metis
    then show ?thesis using True by auto
  next
    case False
    then have "rest s (i + 1) = n # ns" using Suc.prems rest_step [of s i] by simp
    then show ?thesis using Suc.hyps(1) [of "i + 1"] Suc.hyps(2) Suc.prems(1) by simp
  qed
qed

lemma visit_from_rest:
  assumes ok: "bs_ok s" and f: "getObjectByIndex s = Some f" "\<And>n. n \<in> elems s \<Longrightarrow> f (int n) = Some (g n)" and size: "unat (setSize s) \<le> 2 ^ 31"
    and num: "setNumElements s \<noteq> 0"
  shows "i \<le> unat (setSize s) \<Longrightarrow> rest s i = ns \<Longrightarrow>
    Option.bind (setIteratorGetNextElement s i) (\<lambda>(e, i'). visit_from s e i') = Some (map (\<lambda>n. Inr (g n)) ns)"
proof (induction ns arbitrary: i)
  case Nil
  have "setIteratorGetNextElement s i = Some (None, unat (setSize s))"
    using next_element_rest [OF assms(1-4) Nil.prems(1)] Nil.prems(2) num by (simp add: setIteratorGetNextElement_def)
  then show ?case by (simp add: visit_from.simps [of s None])
next
  case (Cons n ns)
  have n: "rest s (n + 1) = ns" "n + 1 \<le> unat (setSize s)" using rest_later [OF ok Cons.prems(2)] elems_bound [OF ok, of n] by auto
  have "setIteratorGetNextElement s i = Some (Some (Inr (g n)), n + 1)"
    using next_element_rest [OF assms(1-4) Cons.prems(1)] Cons.prems(2) num by (simp add: setIteratorGetNextElement_def)
  moreover obtain e i' where "setIteratorGetNextElement s (n + 1) = Some (e, i')" "visit_from s e i' = Some (map (\<lambda>n. Inr (g n)) ns)"
    using Cons.IH [OF n(2,1)] by (cases "setIteratorGetNextElement s (n + 1)") auto
  ultimately show ?case by (simp add: visit_from.simps [of s "Some _"])
qed

subsection \<open>Properties\<close>

lemma setCreate_ok:
  assumes "0 < n" "n < 2 ^ 31"
  shows "bs_ok (setCreate n f g)" "elems (setCreate n f g) = {}" "setNumElements (setCreate n f g) = 0" "unat (setWidth (setCreate n f g)) = nat ((n + 31) div 32)"
proof -
  define w :: c_word where "w = word_of_int ((n + 31) div 32)"
  have "uint w = (n + 31) div 32" using assms by (simp add: w_def uint_word_of_int)
  then have w: "unat w = nat ((n + 31) div 32)" by (simp add: unat_eq_nat_uint)
  then have "unat w < 2 ^ 27" using assms by auto
  then have "unat (w * 32) = 32 * unat w" by (simp add: unat_word_ariths)
  moreover have "setCreate n f g = \<lparr>bitmask = replicate (unat w) 0, setSize = w * 32, setWidth = w, setNumElements = 0, observed = False,
      getIndexByObject = f, getObjectByIndex = g\<rparr>"
    using assms(1) by (simp add: setCreate_def Let_def w_def add.commute)
  ultimately show "bs_ok (setCreate n f g)" "elems (setCreate n f g) = {}" "setNumElements (setCreate n f g) = 0" "unat (setWidth (setCreate n f g)) = nat ((n + 31) div 32)"
    using w by (simp_all add: bs_ok_def elems_def)
qed

lemma elems_card: "bs_ok s \<Longrightarrow> card (elems s) < 2 ^ 32"
proof -
  assume "bs_ok s"
  then have "elems s \<subseteq> {..< unat (setSize s)}" using elems_bound by blast
  then have "card (elems s) \<le> unat (setSize s)" using card_mono [of "{..< unat (setSize s)}"] by simp
  then show ?thesis using size_bound [of s] by simp
qed

lemma bit_set_steps:
  assumes ok: "bs_ok s" "counted s" and x: "index_of deref s obj = int n" "unat (setWidth s) + n + 2 < 2 ^ 27"
  shows "setIsMember deref s obj = Some (if n \<in> elems s then 1 else 0)"
    and "\<exists>s' ev. setAddElement deref s obj = Some (if n \<in> elems s then -1 else 0, s', ev) \<and> bs_ok s' \<and> counted s' \<and> elems s' = insert n (elems s)"
    and "n \<in> elems s \<longrightarrow> (\<exists>s'. setRemoveElement deref s obj = Some (0, s') \<and> bs_ok s' \<and> counted s' \<and> elems s' = elems s - {n})"
    and "bs_ok (setClear s) \<and> counted (setClear s) \<and> elems (setClear s) = {}"
proof -
  have num: "unat (setNumElements s) = card (elems s)" using ok(2) by (simp add: counted_def)
  have zero: "setNumElements s = 0 \<longleftrightarrow> elems s = {}" using num by (metis card_0_eq elems_finite unat_eq_zero)
  show "setIsMember deref s obj = Some (if n \<in> elems s then 1 else 0)"
    using setIsMember_ok [OF ok(1) x(1)] x(2) zero by auto
  show "bs_ok (setClear s) \<and> counted (setClear s) \<and> elems (setClear s) = {}"
    using ok(1) by (simp add: setClear_def bs_ok_def counted_def elems_def)
  obtain s' ev where s': "setAddElement deref s obj = Some (if n \<in> elems s then -1 else 0, s', ev)" "bs_ok s'" "elems s' = insert n (elems s)"
      "setNumElements s' = (if n \<in> elems s then setNumElements s else setNumElements s + 1)"
    using setAddElement_ok [OF ok(1) x] by blast
  have "unat (setNumElements s + 1) = card (elems s) + 1" if "n \<notin> elems s"
    using that num elems_card [OF s'(2)] s'(3) by (simp add: unat_word_ariths)
  then have "counted s'" using s'(3,4) num by (auto simp: counted_def insert_absorb)
  then show "\<exists>s' ev. setAddElement deref s obj = Some (if n \<in> elems s then -1 else 0, s', ev) \<and> bs_ok s' \<and> counted s' \<and> elems s' = insert n (elems s)"
    using s' by blast
  show "n \<in> elems s \<longrightarrow> (\<exists>s'. setRemoveElement deref s obj = Some (0, s') \<and> bs_ok s' \<and> counted s' \<and> elems s' = elems s - {n})"
  proof
    assume n: "n \<in> elems s"
    then obtain s' where s': "setRemoveElement deref s obj = Some (0, s')" "bs_ok s'" "elems s' = elems s - {n}" "setNumElements s' = setNumElements s - 1"
      using setRemoveElement_ok [OF ok(1) _ x(1) elems_bound [OF ok(1) n]] zero by auto
    have "unat (setNumElements s - 1) = unat (setNumElements s) - 1" using n zero by (metis empty_iff unat_minus_one)
    then have "counted s'" using s'(3,4) num n by (simp add: counted_def)
    then show "\<exists>s'. setRemoveElement deref s obj = Some (0, s') \<and> bs_ok s' \<and> counted s' \<and> elems s' = elems s - {n}" using s' by blast
  qed
qed

text \<open>C14. A bit set implements a set of positions with its element counter: as long as the array stays below \<open>2^27\<close> words, membership, insertion
  (with the enlargement of the array, and the error reply for a present element), removal of a member and clearing have
  the effect of the set operations, and keep the sizes and the counter right.\<close>

theorem bit_set_refines:
  assumes "bs_ok s" "counted s" "index_of deref s obj = int n" "unat (setWidth s) + n + 2 < 2 ^ 27"
  shows "setIsMember deref s obj = Some (if n \<in> elems s then 1 else 0) \<and>
    (\<exists>s' ev. setAddElement deref s obj = Some (if n \<in> elems s then -1 else 0, s', ev) \<and> bs_ok s' \<and> counted s' \<and> elems s' = insert n (elems s)) \<and>
    (n \<in> elems s \<longrightarrow> (\<exists>s'. setRemoveElement deref s obj = Some (0, s') \<and> bs_ok s' \<and> counted s' \<and> elems s' = elems s - {n})) \<and>
    bs_ok (setClear s) \<and> counted (setClear s) \<and> elems (setClear s) = {}"
  using bit_set_steps [OF assms] by blast

theorem bit_set_refines_witness:
  "\<exists>s' ev. setAddElement (\<lambda>x. x) (simpleSetCreate 10 :: int bitset) 40 = Some (0, s', ev) \<and> counted s' \<and> elems s' = {40}"
proof -
  have "unat (setWidth (simpleSetCreate 10 :: int bitset)) + 40 + 2 < 2 ^ 27"
    using setCreate_ok(4) [of 10 "None :: (int \<Rightarrow> int) option" None] by (simp add: simpleSetCreate_def)
  moreover have "bs_ok (simpleSetCreate 10 :: int bitset)" "elems (simpleSetCreate 10 :: int bitset) = {}" "counted (simpleSetCreate 10 :: int bitset)"
    using setCreate_ok [of 10 "None :: (int \<Rightarrow> int) option" None] by (simp_all add: simpleSetCreate_def counted_def)
  moreover have "index_of (\<lambda>x. x) (simpleSetCreate 10 :: int bitset) 40 = int 40"
    by (simp add: index_of_def simpleSetCreate_def setCreate_def Let_def)
  ultimately show ?thesis using bit_set_refines [of "simpleSetCreate 10" "\<lambda>x. x" 40 40] by auto
qed

text \<open>C23. The clients' loop over a non-empty set ends and visits the objects of exactly the positions in the set, in increasing order, when every
  position has an object; and the number that the table of byte weights yields is the number of elements.\<close>

theorem bit_set_visits_all:
  assumes "bs_ok s" "setNumElements s \<noteq> 0" "unat (setSize s) \<le> 2 ^ 31"
    and "getObjectByIndex s = Some f" "\<forall>n \<in> elems s. f (int n) = Some (g n)"
  shows "visit_set s = Some (map (\<lambda>n. Inr (g n)) (sorted_list_of_set (elems s))) \<and> setGetNumElements s = card (elems s)"
proof -
  have "rest s 0 = sorted_list_of_set (elems s)" by (simp add: rest_def)
  then show ?thesis
    using visit_from_rest [OF assms(1,4) _ assms(3,2), of g 0] assms(5) setGetNumElements_card [OF assms(1)]
    by (simp add: visit_set_def setIteratorAttach_def setIteratorBegin_def)
qed

definition ex_set :: "nat bitset" where
  "ex_set = \<lparr>bitmask = [0x80000005], setSize = 32, setWidth = 1, setNumElements = 3, observed = False,
     getIndexByObject = Some int, getObjectByIndex = Some (\<lambda>i. Some (nat i))\<rparr>"

lemma ex_set_ok: "bs_ok ex_set" "elems ex_set = {0, 2, 31}" "counted ex_set"
proof -
  show "bs_ok ex_set" by (simp add: bs_ok_def ex_set_def)
  have "elems ex_set = {n \<in> set [0..<32]. bit (0x80000005 :: c_word) n}" by (auto simp: elems_def mask_els_def ex_set_def)
  also have "\<dots> = {0, 2, 31}" by code_simp
  finally show "elems ex_set = {0, 2, 31}" .
  then show "counted ex_set" by (simp add: counted_def ex_set_def)
qed

theorem bit_set_visits_all_witness:
  "visit_set ex_set = Some [Inr 0, Inr 2, Inr 31] \<and> setGetNumElements ex_set = 3"
  using bit_set_visits_all [of ex_set "\<lambda>i. Some (nat i)" "\<lambda>n. n"] ex_set_ok by (simp add: ex_set_def)

text \<open>C24. The word-wise operations on two sets, of any widths whose sum leaves the size a 32-bit number, are union, intersection,
  assignment and, for the one called difference, the symmetric difference; the element counter of the destination is not changed.\<close>

theorem bit_set_operate:
  assumes "bs_ok dest" "bs_ok src" "unat (setWidth dest) + unat (setWidth src) + 2 < 2 ^ 27"
    and "op \<in> {LS_SET_UNION, LS_SET_INTERSECT, LS_SET_DIFFERENCE, LS_SET_ASSIGN}"
  shows "\<exists>d. setOperate dest src op = Some d \<and> bs_ok d \<and> setNumElements d = setNumElements dest \<and>
    elems d = (if op = LS_SET_UNION then elems dest \<union> elems src else if op = LS_SET_INTERSECT then elems dest \<inter> elems src
      else if op = LS_SET_DIFFERENCE then (elems dest - elems src) \<union> (elems src - elems dest) else elems src)"
  using setOperate_ok [OF assms(1,2,4,3)] by (auto simp: op_result_def)

theorem bit_set_operate_witness:
  "\<exists>d. setOperate (setCreate 100 (Some int) None) (ex_set\<lparr>getObjectByIndex := None\<rparr>) LS_SET_DIFFERENCE = Some d \<and> elems d = {0, 2, 31}"
proof -
  let ?e = "ex_set\<lparr>getObjectByIndex := None\<rparr>" and ?d = "setCreate 100 (Some int) None"
  have e: "bs_ok ?e" "elems ?e = {0, 2, 31}" "unat (setWidth ?e) = 1" using ex_set_ok(1,2) by (simp_all add: bs_ok_def elems_def) (simp add: ex_set_def)
  have d: "bs_ok ?d" "elems ?d = {}" "unat (setWidth ?d) = 4" using setCreate_ok [of 100 "Some int" None] by simp_all
  show ?thesis using bit_set_operate [OF d(1) e(1), of LS_SET_DIFFERENCE] d e by auto
qed

text \<open>C40. The counter and the bits part company: removing an absent element counts as a removal, so that the only member is no longer
  found; the union with an empty set, which leaves the counter at zero, is not found either; the difference puts elements of the second set
  into an empty first one; and a duplicate has no elements.\<close>

theorem bit_set_defects:
  assumes ok: "bs_ok s" "counted s" "elems s = {m}" and x: "index_of deref s absent = int n" "n \<noteq> m" "n < unat (setSize s)"
    and d: "bs_ok d" "counted d" "elems d = {}" "same_shape s d" "unat (setWidth d) + unat (setWidth s) + 2 < 2 ^ 27"
  shows "(\<exists>s'. setRemoveElement deref s absent = Some (0, s') \<and> elems s' = {m} \<and> setIsMember deref s' present = Some 0) \<and>
    (\<exists>d'. setOperate d s LS_SET_UNION = Some d' \<and> elems d' = {m} \<and> setIsMember deref d' present = Some 0) \<and>
    (\<exists>d'. setOperate d s LS_SET_DIFFERENCE = Some d' \<and> elems d' = {m}) \<and>
    elems (setDup s) = {} \<and> setNumElements (setDup s) = 1"
proof -
  have m: "m < 2 ^ 32" using elems_bound [OF ok(1)] ok(3) size_bound [of s] by force
  have "unat (setNumElements s) = unat (1 :: c_word)" "unat (setNumElements d) = unat (0 :: c_word)" using ok(2,3) d(2,3) by (simp_all add: counted_def)
  then have num: "setNumElements s = 1" "setNumElements d = 0" by (simp_all only: word_unat_eq_iff)
  obtain s' where s': "setRemoveElement deref s absent = Some (0, s')" "bs_ok s'" "elems s' = {m}" "setNumElements s' = 0" "same_shape s s'"
    using setRemoveElement_ok [OF ok(1) _ x(1,3)] num ok(3) x(2) by auto
  obtain d1 where d1: "setOperate d s LS_SET_UNION = Some d1" "elems d1 = {m}" "setNumElements d1 = 0"
    using setOperate_ok [OF d(1) ok(1), of LS_SET_UNION] d(3,5) num ok(3) by (auto simp: op_result_def)
  obtain d2 where d2: "setOperate d s LS_SET_DIFFERENCE = Some d2" "elems d2 = {m}"
    using setOperate_ok [OF d(1) ok(1), of LS_SET_DIFFERENCE] d(3,5) ok(3) by (auto simp: op_result_def)
  have "setIsMember deref s' present = Some 0" "setIsMember deref d1 present = Some 0" using s'(4) d1(3) by (simp_all add: setIsMember_def)
  moreover have "elems (setDup s) = {}" "setNumElements (setDup s) = 1" using num by (simp_all add: setDup_def elems_def)
  ultimately show ?thesis using s'(1,3) d1 d2 by blast
qed

theorem bit_set_defects_witness:
  "elems (setDup (ex_set\<lparr>bitmask := [4], setNumElements := 1\<rparr>)) = {} \<and>
   (\<exists>s'. setRemoveElement int (ex_set\<lparr>bitmask := [4], setNumElements := 1\<rparr>) 7 = Some (0, s') \<and> elems s' = {2} \<and> setIsMember int s' 2 = Some 0)"
proof -
  let ?s = "ex_set\<lparr>bitmask := [4], setNumElements := 1\<rparr>" and ?d = "ex_set\<lparr>bitmask := [0], setNumElements := 0\<rparr>"
  have "elems ?s = {n \<in> set [0..<32]. bit (4 :: c_word) n}" by (auto simp: elems_def mask_els_def)
  also have "\<dots> = {2}" by code_simp
  finally have s: "elems ?s = {2}" .
  have d: "elems ?d = {}" by (auto simp: elems_def mask_els_def)
  have c: "counted ?s" "counted ?d" using s d by (simp_all add: counted_def)
  have ok: "bs_ok ?s" "bs_ok ?d" "same_shape ?s ?d" by (simp_all add: bs_ok_def same_shape_def ex_set_def)
  have i: "index_of int ?s 7 = int 7" "7 < unat (setSize ?s)" "unat (setWidth ?d) + unat (setWidth ?s) + 2 < 2 ^ 27"
    by (simp_all add: index_of_def ex_set_def)
  have "(7 :: nat) \<noteq> 2" by simp
  from bit_set_defects [OF ok(1) c(1) s i(1) this i(2) ok(2) c(2) d ok(3) i(3), of 2] show ?thesis by blast
qed

subsection \<open>The sets of the user groups\<close>

text \<open>What a client of such sets relies on: objects with a position can be added and looked up, and a set can be united with another once it has a member.\<close>

locale index_sets =
  fixes els :: "'s \<Rightarrow> nat set" and ok :: "'s \<Rightarrow> bool" and fresh :: "'s"
    and add :: "'s \<Rightarrow> 'o \<Rightarrow> (int \<times> 's \<times> 'o list) option" and unite :: "'s \<Rightarrow> 's \<Rightarrow> 's option" and has :: "'s \<Rightarrow> 'o \<Rightarrow> int option"
    and pos :: "'o \<Rightarrow> nat" and valid :: "'o \<Rightarrow> bool"
  assumes fresh_ok: "ok fresh" "els fresh = {}"
    and add_ok: "ok s \<Longrightarrow> valid x \<Longrightarrow> \<exists>rc s' ev. add s x = Some (rc, s', ev) \<and> ok s' \<and> els s' = insert (pos x) (els s)"
    and unite_ok: "ok d \<Longrightarrow> ok s \<Longrightarrow> els d \<noteq> {} \<Longrightarrow> \<exists>d'. unite d s = Some d' \<and> ok d' \<and> els d' = els d \<union> els s"
    and has_ok: "ok s \<Longrightarrow> valid x \<Longrightarrow> has s x = Some (if pos x \<in> els s then 1 else 0)"
begin

lemma add_then_unite:
  assumes "ok d" "ok s" "valid x"
  shows "\<exists>rc d1 ev d2. add d x = Some (rc, d1, ev) \<and> ok d1 \<and> els d1 = insert (pos x) (els d) \<and> unite d1 s = Some d2 \<and> ok d2 \<and>
    els d2 = insert (pos x) (els d \<union> els s)"
proof -
  obtain rc d1 ev where d1: "add d x = Some (rc, d1, ev)" "ok d1" "els d1 = insert (pos x) (els d)" using add_ok [OF assms(1,3)] by blast
  then have "els d1 \<noteq> {}" by simp
  from unite_ok [OF d1(2) assms(2) this] show ?thesis using d1 by auto
qed

end

abbreviation (input) MAX_GROUPS :: nat where "MAX_GROUPS \<equiv> 150"

text \<open>A set created for \<open>MAX_GROUPS\<close> elements has five words, enough for the positions below 160.\<close>

definition group_set_ok :: "('o \<Rightarrow> int) \<Rightarrow> 'o bitset \<Rightarrow> bool" where
  "group_set_ok index s \<longleftrightarrow> bs_ok s \<and> unat (setWidth s) = 5 \<and> getIndexByObject s = Some index \<and>
     unat (setNumElements s) \<le> card (elems s) \<and> (setNumElements s = 0 \<longleftrightarrow> elems s = {})"

lemma group_set_add:
  assumes "group_set_ok index s" "0 \<le> index x" "index x < 160"
  shows "\<exists>rc s' ev. setAddElement deref s x = Some (rc, s', ev) \<and> group_set_ok index s' \<and> elems s' = insert (nat (index x)) (elems s)"
proof -
  let ?n = "nat (index x)"
  have s: "bs_ok s" "unat (setWidth s) = 5" "getIndexByObject s = Some index" "unat (setNumElements s) \<le> card (elems s)"
      "setNumElements s = 0 \<longleftrightarrow> elems s = {}" "unat (setSize s) = 160"
    using assms(1) by (auto simp: group_set_ok_def bs_ok_def)
  have x: "index_of deref s x = int ?n" "unat (setWidth s) + ?n + 2 < 2 ^ 27" "?n < unat (setSize s)" using assms s by (auto simp: index_of_def)
  obtain s' where s': "setAddElement deref s x = Some (if ?n \<in> elems s then -1 else 0, s', if ?n \<notin> elems s \<and> observed s then [x] else [])" "bs_ok s'"
      "elems s' = insert ?n (elems s)" "setNumElements s' = (if ?n \<in> elems s then setNumElements s else setNumElements s + 1)"
      "unat (setWidth s') = unat (setWidth s)" "same_shape s s'"
    using setAddElement_ok [OF s(1) x(1,2)] x(3) by auto
  have "elems s \<subseteq> {..< 160}" using elems_bound [OF s(1)] s(6) by auto
  then have "card (elems s) \<le> 160" using card_mono [of "{..< 160 :: nat}"] by simp
  then have "unat (setNumElements s + 1) = unat (setNumElements s) + 1" using s(4) by (simp add: unat_word_ariths)
  moreover have "unat (setNumElements s) \<noteq> 0" if "?n \<in> elems s" using that s(5) unat_eq_zero [of "setNumElements s"] by auto
  ultimately have "unat (setNumElements s') \<le> card (elems s')" "unat (setNumElements s') \<noteq> 0"
    using s'(3,4) s(4) by (cases "?n \<in> elems s"; simp add: insert_absorb)+
  moreover from this(2) have "setNumElements s' \<noteq> 0" by auto
  ultimately have "group_set_ok index s'" using s(2,3) s' by (simp add: group_set_ok_def same_shape_def)
  then show ?thesis using s'(1,3) by blast
qed

lemma group_set_fresh:
  "group_set_ok index (setCreate (int MAX_GROUPS) (Some index) at)" "elems (setCreate (int MAX_GROUPS) (Some index) at) = {}"
proof -
  have c: "bs_ok (setCreate 150 (Some index) at)" "elems (setCreate 150 (Some index) at) = {}" "setNumElements (setCreate 150 (Some index) at) = 0"
      "unat (setWidth (setCreate 150 (Some index) at)) = 5" "getIndexByObject (setCreate 150 (Some index) at) = Some index"
    using setCreate_ok [of 150 "Some index" at] by (simp_all add: setCreate_def [of 150 "Some index" at] Let_def)
  then show "group_set_ok index (setCreate (int MAX_GROUPS) (Some index) at)" "elems (setCreate (int MAX_GROUPS) (Some index) at) = {}"
    by (simp_all add: group_set_ok_def)
qed

lemma group_set_has:
  assumes "group_set_ok index s" "0 \<le> index x" "index x < 160"
  shows "setIsMember deref s x = Some (if nat (index x) \<in> elems s then 1 else 0)"
proof -
  have s: "bs_ok s" "getIndexByObject s = Some index" "setNumElements s = 0 \<longleftrightarrow> elems s = {}" using assms(1) by (simp_all add: group_set_ok_def)
  have "index_of deref s x = int (nat (index x))" "nat (index x) < 2 ^ 32" using s(2) assms(2,3) by (simp_all add: index_of_def)
  from setIsMember_ok [OF s(1) this] show ?thesis using s(3) by auto
qed

lemma group_set_unite:
  assumes "group_set_ok index d" "group_set_ok index s" "elems d \<noteq> {}"
  shows "\<exists>d'. setOperate d s LS_SET_UNION = Some d' \<and> group_set_ok index d' \<and> elems d' = elems d \<union> elems s"
proof -
  have d: "bs_ok d" "unat (setWidth d) = 5" "getIndexByObject d = Some index" "unat (setNumElements d) \<le> card (elems d)" "setNumElements d \<noteq> 0"
    using assms(1,3) by (simp_all add: group_set_ok_def)
  have s: "bs_ok s" "unat (setWidth s) = 5" using assms(2) by (simp_all add: group_set_ok_def)
  have w: "\<not> setWidth d < setWidth s" using d(2) s(2) by (simp add: word_less_nat_alt)
  then obtain d' where d': "setOperate d s LS_SET_UNION = Some d'" "bs_ok d'" "elems d' = elems d \<union> elems s" "setNumElements d' = setNumElements d"
      "same_shape d d'" "unat (setWidth d') = 5"
    using setOperate_ok [OF d(1) s(1), of LS_SET_UNION] d(2) by (auto simp: op_result_def)
  have "card (elems d) \<le> card (elems d')" unfolding d'(3) by (rule card_mono) simp_all
  then have "group_set_ok index d'" using d d' assms(3) by (simp add: group_set_ok_def same_shape_def)
  then show ?thesis using d'(1,3) by blast
qed

interpretation group_set: index_sets elems "group_set_ok index" "setCreate (int MAX_GROUPS) (Some index) at" "setAddElement deref"
  "\<lambda>d s. setOperate d s LS_SET_UNION" "setIsMember deref" "\<lambda>x. nat (index x)" "\<lambda>x. 0 \<le> index x \<and> index x < 160" for index and at and deref
proof (unfold_locales, goal_cases)
  case 1
  show ?case by (rule group_set_fresh(1))
next
  case 2
  show ?case by (rule group_set_fresh(2))
next
  case (3 s x)
  then show ?case by (intro group_set_add) simp_all
next
  case (4 d s)
  then show ?case by (rule group_set_unite)
next
  case (5 s x)
  then show ?case by (intro group_set_has) simp_all
qed

end
