(* ===== verification/Job_Tree.thy ===== *)
theory Job_Tree
  imports Link_Ring Job_Status "HOL-Library.Tree"
begin

text \<open>
  The tree of job groups, jobs and job arrays (\<open>lsbatch/daemons/mbd.jgrp.c\<close>): nodes linked by
  \<open>parent\<close>, first \<open>child\<close>, \<open>left\<close> and \<open>right\<close> sibling, the job counters of the groups and
  arrays, and the observer that remembers where the dependency check is to continue.

  The model follows the pointers of the program; the abstraction is a binary tree \<open>Node cs a ts\<close>: the
  node \<open>a\<close>, the forest \<open>cs\<close> below it and the forest \<open>ts\<close> of the siblings to its right, so that the
  preorder of the binary tree is the order of the program's traversal. \<open>None\<close> as the result of an operation means that
  it does not return or takes the data of a job for those of a group.

  The list of observers holds the one observer that \<open>treeInit\<close> creates. Names, owners and time stamps of
  groups do not influence the operations and are left out, as is the tracing to a file.
\<close>

subsection \<open>Data\<close>

datatype nodeType = JGRP_NODE_JOB | JGRP_NODE_GROUP | JGRP_NODE_ARRAY

datatype treeEventType = TREE_EVENT_ADD | TREE_EVENT_CLIP | TREE_EVENT_CTRL | TREE_EVENT_NULL

text \<open>
  Nodes and jobs have separate addresses. \<open>ndInfo\<close> is the job of a job node and the \<open>jobArray\<close> of an
  array node; \<open>grpRef\<close> and \<open>grpVoid\<close> are the reference count and the void status of the data of a group or
  array node, \<open>numRef\<close> is the reference count of a job.
\<close>

record jgTree =
  t_parent :: "addr \<Rightarrow> addr"
  t_child :: "addr \<Rightarrow> addr"
  t_left :: "addr \<Rightarrow> addr"
  t_right :: "addr \<Rightarrow> addr"
  nodeType :: "addr \<Rightarrow> nodeType"
  ndInfo :: "addr \<Rightarrow> addr"
  counts :: "addr \<Rightarrow> nat \<Rightarrow> int"
  grpRef :: "addr \<Rightarrow> int"
  grpVoid :: "addr \<Rightarrow> bool"
  jobKind :: "addr \<Rightarrow> nodeType"
  jobStat :: "addr \<Rightarrow> jstatus"
  jgrpNode :: "addr \<Rightarrow> addr"
  nextJob :: "addr \<Rightarrow> addr"
  numRef :: "addr \<Rightarrow> int"
  voidJobs :: "addr list"
  freedNodes :: "addr list"
  freedJobs :: "addr list"
  depEntry :: addr
  rootNode :: addr
  nodeBrk :: addr
  jFlags :: "addr \<Rightarrow> c_word"
  newReason :: "addr \<Rightarrow> int"
  runCount :: "addr \<Rightarrow> int"
  hasDep :: "addr \<Rightarrow> bool"

abbreviation (input) NUM_JGRP_COUNTERS :: nat where "NUM_JGRP_COUNTERS \<equiv> 8"

subsection \<open>Moving in the tree\<close>

partial_function (option) climb :: "'a jgTree_scheme \<Rightarrow> addr \<Rightarrow> addr option" where
  "climb st p =
     (if p = NULL then Some NULL
      else if t_right st p \<noteq> NULL then Some (t_right st p)
      else climb st (t_parent st p))"

definition treeLexNext :: "'a jgTree_scheme \<Rightarrow> addr \<Rightarrow> addr option" where
  "treeLexNext st n =
     (if n = NULL then Some NULL
      else if t_child st n \<noteq> NULL then Some (t_child st n)
      else if t_right st n \<noteq> NULL then Some (t_right st n)
      else climb st (t_parent st n))"

definition treeNextSib :: "'a jgTree_scheme \<Rightarrow> addr \<Rightarrow> addr option" where
  "treeNextSib st n =
     (if n = NULL then Some NULL
      else if t_right st n \<noteq> NULL then Some (t_right st n)
      else climb st (t_parent st n))"

text \<open>The loop \<open>for (n = node; n; n = treeLexNext(n))\<close>.\<close>

partial_function (option) lex_walk :: "'a jgTree_scheme \<Rightarrow> addr \<Rightarrow> addr list option" where
  "lex_walk st p =
     (if p = NULL then Some []
      else do {
        q \<leftarrow> treeLexNext st p;
        xs \<leftarrow> lex_walk st q;
        Some (p # xs)
      })"

partial_function (option) ancestor_loop :: "'a jgTree_scheme \<Rightarrow> addr \<Rightarrow> addr \<Rightarrow> bool option" where
  "ancestor_loop st x p =
     (if p = NULL then Some False else if p = x then Some True else ancestor_loop st x (t_parent st p))"

definition isAncestor :: "'a jgTree_scheme \<Rightarrow> addr \<Rightarrow> addr \<Rightarrow> bool option" where
  "isAncestor st x y = (if x = NULL \<or> y = NULL then Some False else ancestor_loop st x (t_parent st y))"

partial_function (option) sibling_loop :: "'a jgTree_scheme \<Rightarrow> addr \<Rightarrow> addr \<Rightarrow> bool option" where
  "sibling_loop st y p =
     (if p = NULL then Some False else if p = y then Some True else sibling_loop st y (t_right st p))"

definition isChild :: "'a jgTree_scheme \<Rightarrow> addr \<Rightarrow> addr \<Rightarrow> bool option" where
  "isChild st x y = (if x = NULL \<or> y = NULL then Some False else sibling_loop st y (t_child st x))"

subsection \<open>Counters\<close>

text \<open>The counter a status is accounted under; 8 is the one for a status that is none of the seven.\<close>

definition getIndexOfJStatus :: "jstatus \<Rightarrow> nat" where
  "getIndexOfJStatus status =
     (let s = MASK_STATUS (status AND NOT JOB_STAT_UNKWN AND NOT JOB_STAT_PDONE AND NOT JOB_STAT_PERR)
      in if s = JOB_STAT_PEND \<or> s = (JOB_STAT_RUN OR JOB_STAT_WAIT) then 1
         else if s = JOB_STAT_PSUSP then 2
         else if s = JOB_STAT_RUN then 3
         else if s = JOB_STAT_SSUSP then 4
         else if s = JOB_STAT_USUSP then 5
         else if s = JOB_STAT_EXIT \<or> s = (JOB_STAT_EXIT OR JOB_STAT_WAIT) then 6
         else if s = JOB_STAT_DONE \<or> s = (JOB_STAT_DONE OR JOB_STAT_WAIT) then 7
         else 8)"

definition add_at :: "nat \<Rightarrow> int \<Rightarrow> (nat \<Rightarrow> int) \<Rightarrow> nat \<Rightarrow> int" where
  "add_at i d c = c(i := c i + d)"

definition count_status :: "jstatus \<Rightarrow> int \<Rightarrow> (nat \<Rightarrow> int) \<Rightarrow> nat \<Rightarrow> int" where
  "count_status s d c = (if s = JOB_STAT_NULL then c else add_at 0 d (add_at (getIndexOfJStatus s) d c))"

partial_function (option) count_up :: "'a jgTree_scheme \<Rightarrow> jstatus \<Rightarrow> jstatus \<Rightarrow> addr \<Rightarrow> 'a jgTree_scheme option" where
  "count_up st oldStatus newStatus g =
     (if g = NULL then Some st
      else
        let st1 = (if nodeType st g = JGRP_NODE_JOB then st
                   else st\<lparr>counts := (counts st)
                     (g := count_status newStatus 1 (count_status oldStatus (-1) (counts st g)))\<rparr>)
        in count_up st1 oldStatus newStatus (t_parent st g))"

definition updJgrpCountByJStatus :: "'a jgTree_scheme \<Rightarrow> addr \<Rightarrow> jstatus \<Rightarrow> jstatus \<Rightarrow> 'a jgTree_scheme option" where
  "updJgrpCountByJStatus st job oldStatus newStatus = count_up st oldStatus newStatus (jgrpNode st job)"

definition add_counts :: "int \<Rightarrow> (nat \<Rightarrow> int) \<Rightarrow> (nat \<Rightarrow> int) \<Rightarrow> nat \<Rightarrow> int" where
  "add_counts factor c d = (\<lambda>i. if i < NUM_JGRP_COUNTERS then d i + factor * c i else d i)"

partial_function (option) op_up :: "'a jgTree_scheme \<Rightarrow> addr \<Rightarrow> int \<Rightarrow> addr \<Rightarrow> 'a jgTree_scheme option" where
  "op_up st jgrp factor p =
     (if p = NULL then Some st
      else if nodeType st jgrp = JGRP_NODE_JOB then op_up st jgrp factor (t_parent st p)
      else if nodeType st p = JGRP_NODE_JOB then None
      else op_up (st\<lparr>counts := (counts st)(p := add_counts factor (counts st jgrp) (counts st p))\<rparr>)
             jgrp factor (t_parent st p))"

definition updJgrpCountByOp :: "'a jgTree_scheme \<Rightarrow> addr \<Rightarrow> int \<Rightarrow> 'a jgTree_scheme option" where
  "updJgrpCountByOp st jgrp factor = op_up st jgrp factor (t_parent st jgrp)"

subsection \<open>Observation\<close>

definition treeObserverEvalDep :: "'a jgTree_scheme \<Rightarrow> addr \<Rightarrow> treeEventType \<Rightarrow> 'a jgTree_scheme option" where
  "treeObserverEvalDep st operand eventType =
     (if eventType = TREE_EVENT_CLIP \<or> eventType = TREE_EVENT_CTRL then do {
        inside \<leftarrow> (if depEntry st = operand then Some True else isAncestor st operand (depEntry st));
        if \<not> inside then Some st
        else if eventType = TREE_EVENT_CLIP then map_option (\<lambda>n. st\<lparr>depEntry := n\<rparr>) (treeNextSib st operand)
        else Some (st\<lparr>depEntry := operand\<rparr>)
      }
      else Some st)"

definition treeObserverInvoke :: "'a jgTree_scheme \<Rightarrow> addr \<Rightarrow> treeEventType \<Rightarrow> 'a jgTree_scheme option" where
  "treeObserverInvoke st operand eventType = treeObserverEvalDep st operand eventType"

subsection \<open>Changing the tree\<close>

partial_function (option) last_sibling :: "'a jgTree_scheme \<Rightarrow> addr \<Rightarrow> addr option" where
  "last_sibling st n = (if t_right st n = NULL then Some n else last_sibling st (t_right st n))"

definition treeLinkSibling :: "'a jgTree_scheme \<Rightarrow> addr \<Rightarrow> addr \<Rightarrow> ('a jgTree_scheme \<times> addr) option" where
  "treeLinkSibling st sib1 sib2 =
     (if sib1 = NULL then Some (st, sib2)
      else if sib2 = NULL then Some (st, sib1)
      else map_option (\<lambda>n. (st\<lparr>t_right := (t_right st)(n := sib2), t_left := (t_left st)(sib2 := n)\<rparr>, sib1))
             (last_sibling st sib1))"

partial_function (option) set_parents :: "'a jgTree_scheme \<Rightarrow> addr \<Rightarrow> addr \<Rightarrow> 'a jgTree_scheme option" where
  "set_parents st par n =
     (let st1 = st\<lparr>t_parent := (t_parent st)(n := par)\<rparr>
      in if t_right st1 n = NULL then Some st1 else set_parents st1 par (t_right st1 n))"

text \<open>The end of every insertion: the counters of the ancestors and the observers.\<close>

definition node_added :: "'a jgTree_scheme \<Rightarrow> addr \<Rightarrow> 'a jgTree_scheme option" where
  "node_added st n = do {
     st1 \<leftarrow> (if nodeType st n = JGRP_NODE_JOB
             then updJgrpCountByJStatus st (ndInfo st n) JOB_STAT_NULL (jobStat st (ndInfo st n))
             else updJgrpCountByOp st n 1);
     treeObserverInvoke st1 n TREE_EVENT_ADD
   }"

definition treeInsertChild :: "'a jgTree_scheme \<Rightarrow> addr \<Rightarrow> addr \<Rightarrow> 'a jgTree_scheme option" where
  "treeInsertChild st par c =
     (if par = NULL \<or> c = NULL then Some st
      else do {
        st1 \<leftarrow> (if t_child st par \<noteq> NULL
               then map_option (\<lambda>(s, hd). s\<lparr>t_child := (t_child s)(par := hd)\<rparr>) (treeLinkSibling st (t_child st par) c)
               else Some (st\<lparr>t_child := (t_child st)(par := c)\<rparr>));
        st2 \<leftarrow> set_parents st1 par c;
        node_added st2 c
      })"

definition treeInsertLeft :: "'a jgTree_scheme \<Rightarrow> addr \<Rightarrow> addr \<Rightarrow> 'a jgTree_scheme option" where
  "treeInsertLeft st n s =
     (if n = NULL \<or> s = NULL then Some st
      else
        let st1 = st\<lparr>t_right := (t_right st)(s := n), t_left := (t_left st)(s := t_left st n),
                     t_parent := (t_parent st)(s := t_parent st n)\<rparr>;
            st2 = (if t_left st1 n = NULL then st1 else st1\<lparr>t_right := (t_right st1)(t_left st1 n := s)\<rparr>);
            st3 = st2\<lparr>t_left := (t_left st2)(n := s)\<rparr>
        in node_added st3 s)"

definition treeInsertRight :: "'a jgTree_scheme \<Rightarrow> addr \<Rightarrow> addr \<Rightarrow> 'a jgTree_scheme option" where
  "treeInsertRight st n s =
     (if n = NULL \<or> s = NULL then Some st
      else
        let st1 = st\<lparr>t_right := (t_right st)(s := t_right st n), t_left := (t_left st)(s := n),
                     t_parent := (t_parent st)(s := t_parent st n)\<rparr>;
            st2 = (if t_right st1 n = NULL then st1 else st1\<lparr>t_left := (t_left st1)(t_right st1 n := s)\<rparr>);
            st3 = st2\<lparr>t_right := (t_right st2)(n := s)\<rparr>
        in node_added st3 s)"

text \<open>Taking a node out: its neighbours are linked first, its own links are reset last.\<close>

definition unlink :: "'a jgTree_scheme \<Rightarrow> addr \<Rightarrow> 'a jgTree_scheme" where
  "unlink st n =
     (let st1 = (if t_left st n \<noteq> NULL then st\<lparr>t_right := (t_right st)(t_left st n := t_right st n)\<rparr>
                 else if t_parent st n \<noteq> NULL then st\<lparr>t_child := (t_child st)(t_parent st n := t_right st n)\<rparr>
                 else st)
      in if t_right st1 n \<noteq> NULL then st1\<lparr>t_left := (t_left st1)(t_right st1 n := t_left st1 n)\<rparr> else st1)"

definition reset_links :: "'a jgTree_scheme \<Rightarrow> addr \<Rightarrow> 'a jgTree_scheme" where
  "reset_links st n = st\<lparr>t_parent := (t_parent st)(n := NULL), t_left := (t_left st)(n := NULL), t_right := (t_right st)(n := NULL)\<rparr>"

definition treeClip :: "'a jgTree_scheme \<Rightarrow> addr \<Rightarrow> 'a jgTree_scheme option" where
  "treeClip st n =
     (if n = NULL then Some st
      else do {
        let st1 = unlink st n;
        st2 \<leftarrow> (if nodeType st1 n = JGRP_NODE_JOB
                then updJgrpCountByJStatus st1 (ndInfo st1 n) (jobStat st1 (ndInfo st1 n)) JOB_STAT_NULL
                else updJgrpCountByOp st1 n (-1));
        st3 \<leftarrow> treeObserverInvoke st2 n TREE_EVENT_CLIP;
        Some (reset_links st3 n)
      })"

definition treeNewNode :: "'a jgTree_scheme \<Rightarrow> nodeType \<Rightarrow> addr \<times> 'a jgTree_scheme" where
  "treeNewNode st type =
     (let n = nodeBrk st
      in (n, st\<lparr>nodeBrk := n + 1, t_parent := (t_parent st)(n := NULL), t_child := (t_child st)(n := NULL),
           t_left := (t_left st)(n := NULL), t_right := (t_right st)(n := NULL), nodeType := (nodeType st)(n := type),
           ndInfo := (ndInfo st)(n := NULL), counts := (counts st)(n := \<lambda>_. 0), grpRef := (grpRef st)(n := 0),
           grpVoid := (grpVoid st)(n := (type = JGRP_NODE_GROUP))\<rparr>))"

text \<open>Giving nodes back. A job is freed with its last reference when it is void.\<close>

definition createjDataRef :: "'a jgTree_scheme \<Rightarrow> addr \<Rightarrow> 'a jgTree_scheme" where
  "createjDataRef st j = (if j = NULL then st else st\<lparr>numRef := (numRef st)(j := numRef st j + 1)\<rparr>)"






subsection \<open>Jobs on the tree\<close>

definition treeInit :: "'a jgTree_scheme \<Rightarrow> 'a jgTree_scheme" where
  "treeInit st =
     (case treeNewNode st JGRP_NODE_GROUP of (n, st1) \<Rightarrow>
        st1\<lparr>rootNode := n, grpVoid := (grpVoid st1)(n := False), depEntry := n\<rparr>)"

partial_function (option) attach_elements :: "'a jgTree_scheme \<Rightarrow> addr \<Rightarrow> addr \<Rightarrow> 'a jgTree_scheme option" where
  "attach_elements st newj j =
     (if j = NULL then Some st
      else do {
        st1 \<leftarrow> updJgrpCountByJStatus (st\<lparr>jgrpNode := (jgrpNode st)(j := newj)\<rparr>) j JOB_STAT_NULL (jobStat st j);
        attach_elements st1 newj (nextJob st j)
      })"

abbreviation (input) PEND_JOB_NEW :: int where "PEND_JOB_NEW \<equiv> 1"
abbreviation (input) JFLAG_READY1 :: c_word where "JFLAG_READY1 \<equiv> 0x100000"
abbreviation (input) JFLAG_READY2 :: c_word where "JFLAG_READY2 \<equiv> 0x200000"

definition putOntoTree :: "'a jgTree_scheme \<Rightarrow> addr \<Rightarrow> 'a jgTree_scheme option" where
  "putOntoTree st jp = do {
     let (newj, st1) = treeNewNode st (jobKind st jp);
     let st2 = createjDataRef st1 jp;
     let st3 = st2\<lparr>ndInfo := (ndInfo st2)(newj := jp), jgrpNode := (jgrpNode st2)(jp := newj)\<rparr>;
     st4 \<leftarrow> attach_elements st3 newj (nextJob st3 jp);
     st5 \<leftarrow> treeInsertChild st4 (rootNode st4) newj;
     Some (st5\<lparr>runCount := (runCount st5)(jp := 1),
               newReason := (newReason st5)(jp := if newReason st5 jp = 0 then PEND_JOB_NEW else newReason st5 jp),
               jFlags := (jFlags st5)(jp := if hasDep st5 jp then jFlags st5 jp else jFlags st5 jp OR JFLAG_READY2)\<rparr>)
   }"

text \<open>The predecessor of an element in the list of an array, or the last element.\<close>

partial_function (option) before_element :: "'a jgTree_scheme \<Rightarrow> addr \<Rightarrow> addr \<Rightarrow> addr option" where
  "before_element st jp p =
     (if nextJob st p = NULL \<or> nextJob st p = jp then Some p else before_element st jp (nextJob st p))"

definition offArray :: "'a jgTree_scheme \<Rightarrow> addr \<Rightarrow> 'a jgTree_scheme option" where
  "offArray st jp =
     (let node = jgrpNode st jp
      in if node = NULL \<or> nodeType st node \<noteq> JGRP_NODE_ARRAY then Some st
         else do {
           p \<leftarrow> before_element st jp (ndInfo st node);
           let st1 = (if nextJob st p \<noteq> NULL then st\<lparr>nextJob := (nextJob st)(p := nextJob st (nextJob st p))\<rparr> else st);
           updJgrpCountByJStatus st1 jp (jobStat st1 jp) JOB_STAT_NULL
         })"

partial_function (option) count_elements :: "'a jgTree_scheme \<Rightarrow> addr \<Rightarrow> 'a jgTree_scheme option" where
  "count_elements st j =
     (if j = NULL then Some st
      else do {
        st1 \<leftarrow> updJgrpCountByJStatus st j JOB_STAT_NULL (jobStat st j);
        count_elements st1 (nextJob st j)
      })"

definition recount_node :: "'a jgTree_scheme \<Rightarrow> addr \<Rightarrow> 'a jgTree_scheme option" where
  "recount_node st n =
     (case nodeType st n of
        JGRP_NODE_GROUP \<Rightarrow> Some (st\<lparr>counts := (counts st)(n := \<lambda>i. if i < NUM_JGRP_COUNTERS then 0 else counts st n i)\<rparr>)
      | JGRP_NODE_ARRAY \<Rightarrow> count_elements st (nextJob st (ndInfo st n))
      | JGRP_NODE_JOB \<Rightarrow> updJgrpCountByJStatus st (ndInfo st n) JOB_STAT_NULL (jobStat st (ndInfo st n)))"

partial_function (option) reset_loop :: "'a jgTree_scheme \<Rightarrow> addr \<Rightarrow> 'a jgTree_scheme option" where
  "reset_loop st n =
     (if n = NULL then Some st
      else do {
        st1 \<leftarrow> recount_node st n;
        m \<leftarrow> treeLexNext st1 n;
        reset_loop st1 m
      })"

definition resetJgrpCount :: "'a jgTree_scheme \<Rightarrow> 'a jgTree_scheme option" where
  "resetJgrpCount st = reset_loop st (rootNode st)"

subsection \<open>Forests in memory\<close>

text \<open>
  \<open>forest st par l t p\<close>: from \<open>p\<close> on, the siblings and everything below them are the forest \<open>t\<close>; the parent of the
  siblings is \<open>par\<close>, to the left of the first is \<open>l\<close>.
\<close>

fun forest :: "'a jgTree_scheme \<Rightarrow> addr \<Rightarrow> addr \<Rightarrow> addr tree \<Rightarrow> addr \<Rightarrow> bool" where
  "forest st par l Leaf p \<longleftrightarrow> p = NULL"
| "forest st par l (Node cs a ts) p \<longleftrightarrow>
     p = a \<and> a \<noteq> NULL \<and> t_parent st a = par \<and> t_left st a = l \<and>
     forest st a NULL cs (t_child st a) \<and> forest st par a ts (t_right st a)"

lemma forest_null: "forest st par l t p \<Longrightarrow> p = NULL \<longleftrightarrow> t = Leaf"
  by (cases t) auto

lemma forest_nonnull: "forest st par l t p \<Longrightarrow> NULL \<notin> set_tree t"
  by (induction t arbitrary: par l p) auto

lemma forest_cong:
  assumes "\<And>a. a \<in> set_tree t \<Longrightarrow> t_parent st' a = t_parent st a \<and> t_child st' a = t_child st a \<and>
      t_left st' a = t_left st a \<and> t_right st' a = t_right st a"
  shows "forest st' par l t p = forest st par l t p"
  using assms by (induction t arbitrary: par l p) auto

subsection \<open>Traversal\<close>

text \<open>The walk with \<open>treeLexNext\<close> from \<open>p\<close> over \<open>xs\<close> arrives at \<open>q\<close>.\<close>

fun lex_path :: "'a jgTree_scheme \<Rightarrow> addr \<Rightarrow> addr list \<Rightarrow> addr \<Rightarrow> bool" where
  "lex_path st p [] q \<longleftrightarrow> p = q"
| "lex_path st p (x # xs) q \<longleftrightarrow> p = x \<and> x \<noteq> NULL \<and> (\<exists>r. treeLexNext st x = Some r \<and> lex_path st r xs q)"

lemma lex_path_append: "lex_path st p (xs @ ys) q \<longleftrightarrow> (\<exists>r. lex_path st p xs r \<and> lex_path st r ys q)"
  by (induction xs arbitrary: p) auto

lemma lex_path_walk: "lex_path st p xs NULL \<Longrightarrow> lex_walk st p = Some xs"
proof (induction xs arbitrary: p)
  case Nil
  then show ?case by (subst lex_walk.simps) simp
next
  case (Cons x xs)
  then show ?case by (subst lex_walk.simps) auto
qed

lemma climb_step:
  assumes "a \<noteq> NULL" "t_parent st a = par" "climb st par = Some k"
  shows "climb st a = Some (if t_right st a = NULL then k else t_right st a)"
  using assms by (subst climb.simps) simp

lemma forest_preorder:
  "forest st par l t p \<Longrightarrow> climb st par = Some k \<Longrightarrow> lex_path st (if t = Leaf then k else p) (preorder t) k"
proof (induction t arbitrary: par l p k)
  case (Node cs a ts)
  let ?k = "if ts = Leaf then k else t_right st a"
  have sub: "forest st a NULL cs (t_child st a)" "forest st par a ts (t_right st a)" and a: "p = a" "a \<noteq> NULL" "t_parent st a = par"
    using Node.prems(1) by auto
  have right: "t_right st a = NULL \<longleftrightarrow> ts = Leaf" and child: "t_child st a = NULL \<longleftrightarrow> cs = Leaf"
    using sub forest_null by metis+
  then have up: "climb st a = Some ?k" using climb_step [OF a(2,3) Node.prems(2)] by simp
  have "treeLexNext st a = Some (if cs = Leaf then ?k else t_child st a)"
    using a up child right Node.prems(2) by (simp add: treeLexNext_def)
  then show ?case
    using a(1,2) Node.IH(1) [OF sub(1) up] Node.IH(2) [OF sub(2) Node.prems(2)] by (auto simp: lex_path_append)
qed simp

lemma lex_walk_forest:
  assumes "forest st NULL l t p"
  shows "lex_walk st p = Some (preorder t)"
proof -
  have "climb st NULL = Some NULL" by (subst climb.simps) simp
  from lex_path_walk [OF forest_preorder [OF assms this]] show ?thesis
    using assms by (cases t) auto
qed

subsection \<open>Taking a subtree out\<close>

fun below :: "addr \<Rightarrow> addr tree \<Rightarrow> addr tree" where
  "below n Leaf = Leaf"
| "below n (Node cs a ts) = (if a = n then cs else if n \<in> set_tree cs then below n cs else below n ts)"

fun clip :: "addr \<Rightarrow> addr tree \<Rightarrow> addr tree" where
  "clip n Leaf = Leaf"
| "clip n (Node cs a ts) = (if a = n then ts else Node (clip n cs) a (clip n ts))"

lemma clip_notin [simp]: "n \<notin> set_tree t \<Longrightarrow> clip n t = t"
  by (induction t) auto

lemma below_subset: "set_tree (below n t) \<subseteq> set_tree t"
  by (induction t) auto

lemma set_clip: "distinct (preorder t) \<Longrightarrow> n \<in> set_tree t \<Longrightarrow> set_tree (clip n t) = set_tree t - insert n (set_tree (below n t))"
proof (induction t)
  case (Node cs a ts)
  have d: "distinct (preorder cs)" "distinct (preorder ts)" "a \<notin> set_tree cs" "a \<notin> set_tree ts" "set_tree cs \<inter> set_tree ts = {}"
    using Node.prems(1) by (auto simp: set_preorder)
  consider "n = a" | "n \<in> set_tree cs" "n \<notin> set_tree ts" "n \<noteq> a" | "n \<in> set_tree ts" "n \<notin> set_tree cs" "n \<noteq> a"
    using Node.prems(2) d by auto
  then show ?case
    using d Node.IH below_subset [of n cs] below_subset [of n ts] by cases auto
qed simp

lemma distinct_clip: "distinct (preorder t) \<Longrightarrow> distinct (preorder (clip n t))"
proof (induction t)
  case (Node cs a ts)
  have sub: "set_tree (clip n t) \<subseteq> set_tree t" for t by (induction t) auto
  show ?case using Node sub [of cs] sub [of ts] by (auto simp: set_preorder)
qed simp

lemma forest_neighbours:
  "forest st q l t p \<Longrightarrow> n \<in> set_tree t \<Longrightarrow> t_parent st n \<in> insert q (set_tree t) \<and>
     t_left st n \<in> insert l (insert NULL (set_tree t)) \<and> t_right st n \<in> insert NULL (set_tree t)"
proof (induction t arbitrary: q l p)
  case (Node cs a ts)
  have "t_right st a \<in> insert NULL (set_tree ts)" using Node.prems(1) by (cases ts) auto
  then show ?case using Node by fastforce
qed simp

lemma forest_first:
  assumes "forest st q l t p" "n \<in> set_tree t" "q \<notin> set_tree t" "t_parent st n = q" "t_left st n = NULL"
  shows "n = p \<and> l = NULL"
  using assms
proof (induction t arbitrary: q l p)
  case (Node cs a ts)
  have sub: "forest st a NULL cs (t_child st a)" "forest st q a ts (t_right st a)" "p = a" "a \<noteq> NULL" "t_left st a = l"
    using Node.prems(1) by auto
  consider "n = a" | "n \<in> set_tree cs" | "n \<in> set_tree ts" using Node.prems(2) by auto
  then show ?case
  proof cases
    case 2
    then show ?thesis using forest_neighbours [OF sub(1)] Node.prems(3,4) by auto
  next
    case 3
    then show ?thesis using Node.IH(2) [OF sub(2)] Node.prems(3-5) sub(4) by auto
  qed (use sub Node.prems(5) in simp)
qed simp

lemma disjoint_notin: "A \<inter> B = {} \<Longrightarrow> x \<in> A \<Longrightarrow> x \<notin> B"
  by blast

lemma forest_left:
  assumes "forest st q l t p" "n \<in> set_tree t" "l \<notin> set_tree t" "l \<noteq> NULL" "t_left st n = l"
  shows "n = p"
  using assms
proof (induction t arbitrary: q l p)
  case (Node cs a ts)
  have sub: "forest st a NULL cs (t_child st a)" "forest st q a ts (t_right st a)" "p = a"
    using Node.prems(1) by auto
  consider "n = a" | "n \<in> set_tree cs" | "n \<in> set_tree ts" using Node.prems(2) by auto
  then show ?case
  proof cases
    case 2
    then show ?thesis using forest_neighbours [OF sub(1) 2] Node.prems(3-5) by auto
  next
    case 3
    then show ?thesis using forest_neighbours [OF sub(2) 3] Node.prems(3-5) by auto
  qed (use sub in simp)
qed simp

lemma forest_root: "forest st q l t p \<Longrightarrow> p \<in> set_tree t \<Longrightarrow> t_parent st p = q \<and> t_left st p = l"
  using forest_nonnull by (cases t) auto

lemma forest_left_neq:
  assumes "forest st q l t p" "distinct (preorder t)" "n \<in> set_tree t" "l \<notin> set_tree t"
  shows "t_left st n \<noteq> n"
  using assms
proof (induction t arbitrary: q l p)
  case (Node cs a ts)
  have sub: "forest st a NULL cs (t_child st a)" "forest st q a ts (t_right st a)" "t_left st a = l"
    using Node.prems(1) by auto
  then show ?case
    using Node.IH(1) [OF sub(1)] Node.IH(2) [OF sub(2)] Node.prems(2-4) forest_nonnull [OF sub(1)] by (auto simp: set_preorder)
qed simp

lemma unlink_links:
  "t_parent (unlink st n) = t_parent st"
  "t_child (unlink st n) a = (if t_left st n = NULL \<and> t_parent st n \<noteq> NULL \<and> a = t_parent st n then t_right st n else t_child st a)"
  "t_right (unlink st n) a = (if t_left st n \<noteq> NULL \<and> a = t_left st n then t_right st n else t_right st a)"
  "t_left st n \<noteq> n \<Longrightarrow>
     t_left (unlink st n) a = (if t_right st n \<noteq> NULL \<and> a = t_right st n then t_left st n else t_left st a)"
  by (auto simp: unlink_def Let_def)

lemma unlink_forest_cong:
  assumes "t_left st n \<noteq> n" "t_parent st n \<notin> set_tree t" "t_left st n \<notin> set_tree t" "t_right st n \<notin> set_tree t"
  shows "forest (unlink st n) q l t p = forest st q l t p"
  by (rule forest_cong) (use assms in \<open>auto simp: unlink_links\<close>)

lemma forest_unlink:
  assumes "forest st q l t p" "distinct (preorder t)" "n \<in> set_tree t" "q \<notin> set_tree t" "l \<notin> set_tree t"
  shows "forest (unlink st n) q l (clip n t) (if p = n then t_right st n else p)"
  using assms
proof (induction t arbitrary: q l p)
  case (Node cs x ts)
  have sub: "forest st x NULL cs (t_child st x)" "forest st q x ts (t_right st x)" "p = x" "x \<noteq> NULL" "t_left st x = l" "t_parent st x = q"
    using Node.prems(1) by auto
  have d: "distinct (preorder cs)" "distinct (preorder ts)" "x \<notin> set_tree cs" "x \<notin> set_tree ts" "set_tree cs \<inter> set_tree ts = {}"
    using Node.prems(2) by (auto simp: set_preorder)
  have nn: "NULL \<notin> set_tree cs" "NULL \<notin> set_tree ts" using forest_nonnull sub by blast+
  consider (here) "n = x" | (cs) "n \<noteq> x" "n \<in> set_tree cs" | (ts) "n \<noteq> x" "n \<in> set_tree ts" using Node.prems(3) by auto
  then show ?case
  proof cases
    case here
    have ne: "t_left st x \<noteq> x" using sub(5) Node.prems(5) by auto
    note u = unlink_links(1) unlink_links(2,3) [of st x] unlink_links(4) [OF ne]
    show ?thesis
    proof (cases ts)
      case Leaf
      then show ?thesis using here sub by simp
    next
      case ts: (Node c1 y t1)
      have y: "t_right st x = y" "y \<noteq> NULL" and out: "q \<notin> set_tree ts" "l \<notin> set_tree ts" using sub(2) ts Node.prems(4,5) by auto
      have "y \<notin> set_tree c1" "y \<notin> set_tree t1" using d(2) ts by (auto simp: set_preorder)
      then have "forest (unlink st x) y NULL c1 (t_child st y)" "forest (unlink st x) q y t1 (t_right st y)"
        using sub(2,5,6) out y ts by (simp_all add: unlink_forest_cong [OF ne])
      moreover have "y \<noteq> q" "y \<noteq> l" using out ts by auto
      moreover have "t_parent st y = q" using sub(2) ts y(1) by simp
      ultimately show ?thesis using here sub(3,5,6) ts y by (simp add: u)
    qed
  next
    case cs
    have nb: "t_parent st n \<in> insert x (set_tree cs)" "t_left st n \<in> insert NULL (set_tree cs)" "t_right st n \<in> insert NULL (set_tree cs)"
      using forest_neighbours [OF sub(1) cs(2)] by auto
    have ne: "t_left st n \<noteq> n" using forest_left_neq [OF sub(1) d(1) cs(2) nn(1)] .
    note u = unlink_links(1-3) unlink_links(4) [OF ne]
    have "forest (unlink st n) x NULL (clip n cs) (if t_child st x = n then t_right st n else t_child st x)"
      using Node.IH(1) [OF sub(1) d(1) cs(2) d(3) nn(1)] .
    moreover have "t_child (unlink st n) x = (if t_child st x = n then t_right st n else t_child st x)"
    proof -
      have "t_left st n = NULL \<and> t_parent st n = x \<longleftrightarrow> t_child st x = n"
        using forest_first [OF sub(1) cs(2) d(3)] forest_root [OF sub(1)] cs(2) by metis
      then show ?thesis using sub(4) unfolding u(2) by metis
    qed
    moreover have "forest (unlink st n) q x ts (t_right st x)"
    proof -
      have dj: "insert x (insert NULL (set_tree cs)) \<inter> set_tree ts = {}" using d(4,5) nn(2) by simp
      have "t_parent st n \<notin> set_tree ts" "t_left st n \<notin> set_tree ts" "t_right st n \<notin> set_tree ts"
        by (rule disjoint_notin [OF dj], use nb in blast)+
      then show ?thesis using unlink_forest_cong [OF ne] sub(2) by metis
    qed
    moreover have "t_right (unlink st n) x = t_right st x" "t_left (unlink st n) x = l"
      using nb(2,3) d(3) sub(5) unfolding u(3,4) by auto
    moreover have "n \<notin> set_tree ts" using cs(2) d(5) by blast
    ultimately show ?thesis using cs sub(3,4,6) unlink_links(1) [of st n] by simp
  next
    case ts
    have out: "q \<notin> set_tree ts" "x \<noteq> q" using Node.prems(4) by auto
    have nb: "t_parent st n \<in> insert q (set_tree ts)" "t_left st n \<in> insert x (insert NULL (set_tree ts))" "t_right st n \<in> insert NULL (set_tree ts)"
      using forest_neighbours [OF sub(2) ts(2)] by auto
    have ne: "t_left st n \<noteq> n" using forest_left_neq [OF sub(2) d(2) ts(2) d(4)] .
    note u = unlink_links(1-3) unlink_links(4) [OF ne]
    have "forest (unlink st n) q x (clip n ts) (if t_right st x = n then t_right st n else t_right st x)"
      using Node.IH(2) [OF sub(2) d(2) ts(2) out(1) d(4)] .
    moreover have "t_right (unlink st n) x = (if t_right st x = n then t_right st n else t_right st x)"
    proof -
      have "t_left st n = x \<longleftrightarrow> t_right st x = n"
        using forest_left [OF sub(2) ts(2) d(4) sub(4)] forest_root [OF sub(2)] ts(2) by metis
      then show ?thesis using sub(4) unfolding u(3) by metis
    qed
    moreover have "forest (unlink st n) x NULL cs (t_child st x)"
    proof -
      have dj: "insert q (insert x (insert NULL (set_tree ts))) \<inter> set_tree cs = {}" using d(3,5) nn(1) Node.prems(4) by auto
      have "t_parent st n \<notin> set_tree cs" "t_left st n \<notin> set_tree cs" "t_right st n \<notin> set_tree cs"
        by (rule disjoint_notin [OF dj], use nb in blast)+
      then show ?thesis using unlink_forest_cong [OF ne] sub(1) by metis
    qed
    moreover have "t_child (unlink st n) x = t_child st x" "t_left (unlink st n) x = l"
      using nb(1,3) d(4) out(2) sub(5) unfolding u(2,4) by auto
    moreover have "n \<notin> set_tree cs" using ts(2) d(5) by blast
    ultimately show ?thesis using ts sub(3,4,6) unlink_links(1) [of st n] by simp
  qed
qed simp

subsection \<open>The way up\<close>

text \<open>The nodes from \<open>p\<close> up to the root.\<close>

fun upchain :: "'a jgTree_scheme \<Rightarrow> addr \<Rightarrow> addr list \<Rightarrow> bool" where
  "upchain st p [] \<longleftrightarrow> p = NULL"
| "upchain st p (x # xs) \<longleftrightarrow> p = x \<and> x \<noteq> NULL \<and> upchain st (t_parent st x) xs"

lemma upchain_cong: "t_parent st' = t_parent st \<Longrightarrow> upchain st' p xs = upchain st p xs"
  by (induction xs arbitrary: p) auto

lemma upchain_frame:
  "c \<notin> set xs \<Longrightarrow> t_parent st' = (t_parent st)(c := q) \<Longrightarrow> upchain st' p xs = upchain st p xs"
  by (induction xs arbitrary: p) auto

lemma upchain_unique: "upchain st p xs \<Longrightarrow> upchain st p ys \<Longrightarrow> xs = ys"
proof (induction xs arbitrary: p ys)
  case Nil
  then show ?case by (cases ys) auto
next
  case (Cons x xs)
  then show ?case by (cases ys) auto
qed

fun path_to :: "addr \<Rightarrow> addr tree \<Rightarrow> addr list" where
  "path_to a Leaf = []"
| "path_to a (Node cs x ts) = (if a = x then [x] else if a \<in> set_tree cs then path_to a cs @ [x] else path_to a ts)"

lemma path_to_subset: "set (path_to a t) \<subseteq> set_tree t"
  by (induction t) auto

lemma path_to_notin [simp]: "a \<notin> set_tree t \<Longrightarrow> path_to a t = []"
  by (induction t) auto

lemma path_to_hd: "a \<in> set_tree t \<Longrightarrow> path_to a t = a # tl (path_to a t)"
proof (induction t)
  case (Node cs x ts)
  then show ?case by (cases "path_to a cs") auto
qed simp

lemma path_to_distinct: "distinct (preorder t) \<Longrightarrow> distinct (path_to a t)"
  using path_to_subset by (induction t) (auto simp: set_preorder dest: subsetD)

lemma path_below:
  assumes "distinct (preorder t)" "a \<in> set_tree t"
  shows "n \<in> set (path_to a t) \<longleftrightarrow> n = a \<or> a \<in> set_tree (below n t)"
  using assms
proof (induction t)
  case (Node cs x ts)
  have d: "distinct (preorder cs)" "distinct (preorder ts)" "x \<notin> set_tree cs" "x \<notin> set_tree ts" "set_tree cs \<inter> set_tree ts = {}"
    using Node.prems(1) by (auto simp: set_preorder)
  consider "a = x" | "a \<in> set_tree cs" "a \<noteq> x" "a \<notin> set_tree ts" | "a \<in> set_tree ts" "a \<noteq> x" "a \<notin> set_tree cs"
    using Node.prems(2) d by auto
  then show ?case
  proof cases
    case 1
    then show ?thesis using below_subset [of n cs] below_subset [of n ts] d by auto
  next
    case 2
    then show ?thesis
      using Node.IH(1) [OF d(1) 2(1)] below_subset [of n cs] below_subset [of n ts] path_to_subset [of a cs] d by auto
  next
    case 3
    then show ?thesis
      using Node.IH(2) [OF d(2) 3(1)] below_subset [of n cs] below_subset [of n ts] path_to_subset [of a ts] d by auto
  qed
qed simp

lemma path_below_self: "distinct (preorder t) \<Longrightarrow> n \<notin> set_tree (below n t)"
  using below_subset by (induction t) (auto simp: set_preorder)

lemma forest_upchain:
  "forest st q l t p \<Longrightarrow> a \<in> set_tree t \<Longrightarrow> upchain st q qs \<Longrightarrow> upchain st a (path_to a t @ qs)"
proof (induction t arbitrary: q l p qs)
  case (Node cs x ts)
  have sub: "forest st x NULL cs (t_child st x)" "forest st q x ts (t_right st x)" "x \<noteq> NULL" "t_parent st x = q"
    using Node.prems(1) by auto
  then have "upchain st x (x # qs)" using Node.prems(3) by simp
  then show ?case using Node.IH(1) [OF sub(1)] Node.IH(2) [OF sub(2)] Node.prems(2,3) sub(3,4) by auto
qed simp

lemma forest_climb:
  "forest st q l t p \<Longrightarrow> climb st q = Some k \<Longrightarrow> a \<in> set_tree t \<Longrightarrow> \<exists>r. climb st a = Some r \<and> r \<in> insert k (set_tree t)"
proof (induction t arbitrary: q l p k)
  case (Node cs x ts)
  have sub: "forest st x NULL cs (t_child st x)" "forest st q x ts (t_right st x)" "x \<noteq> NULL" "t_parent st x = q"
    using Node.prems(1) by auto
  have r: "t_right st x = NULL \<or> t_right st x \<in> set_tree ts" using sub(2) by (cases ts) auto
  have x: "climb st x = Some (if t_right st x = NULL then k else t_right st x)" by (rule climb_step [OF sub(3,4) Node.prems(2)])
  show ?case using Node.IH(1) [OF sub(1) x] Node.IH(2) [OF sub(2) Node.prems(2)] Node.prems(3) x r by (auto split: if_splits)
qed simp

lemma ancestor_loop_chain: "upchain st p xs \<Longrightarrow> ancestor_loop st x p = Some (x \<in> set xs)"
proof (induction xs arbitrary: p)
  case Nil
  then show ?case by (subst ancestor_loop.simps) simp
next
  case (Cons y ys)
  then show ?case by (subst ancestor_loop.simps) auto
qed

lemma count_up_chain:
  "upchain st g xs \<Longrightarrow> distinct xs \<Longrightarrow>
   count_up st old new g = Some (st\<lparr>counts := \<lambda>a. if a \<in> set xs \<and> nodeType st a \<noteq> JGRP_NODE_JOB
     then count_status new 1 (count_status old (-1) (counts st a)) else counts st a\<rparr>)"
proof (induction xs arbitrary: st g)
  case Nil
  then show ?case by (subst count_up.simps) simp
next
  case (Cons x xs)
  define st1 where "st1 = (if nodeType st g = JGRP_NODE_JOB then st
    else st\<lparr>counts := (counts st)(g := count_status new 1 (count_status old (-1) (counts st g)))\<rparr>)"
  have g: "g = x" "x \<noteq> NULL" "x \<notin> set xs" "distinct xs" "upchain st1 (t_parent st x) xs"
    using Cons.prems upchain_cong [of st1 st] by (auto simp: st1_def)
  have "count_up st old new g = count_up st1 old new (t_parent st g)"
    using g(1,2) by (subst count_up.simps) (simp add: st1_def Let_def)
  also have "\<dots> = Some (st1\<lparr>counts := \<lambda>a. if a \<in> set xs \<and> nodeType st1 a \<noteq> JGRP_NODE_JOB
     then count_status new 1 (count_status old (-1) (counts st1 a)) else counts st1 a\<rparr>)"
    using Cons.IH [OF g(5,4)] g(1) by simp
  also have "\<dots> = Some (st\<lparr>counts := \<lambda>a. if a \<in> set (x # xs) \<and> nodeType st a \<noteq> JGRP_NODE_JOB
     then count_status new 1 (count_status old (-1) (counts st a)) else counts st a\<rparr>)"
    using g(1,3) by (auto simp: st1_def fun_eq_iff intro!: jgTree.unfold_congs)
  finally show ?case .
qed

lemma op_up_chain:
  "upchain st p xs \<Longrightarrow> distinct xs \<Longrightarrow> g \<notin> set xs \<Longrightarrow> nodeType st g \<noteq> JGRP_NODE_JOB \<Longrightarrow>
   (\<forall>x \<in> set xs. nodeType st x \<noteq> JGRP_NODE_JOB) \<Longrightarrow>
   op_up st g f p = Some (st\<lparr>counts := \<lambda>a. if a \<in> set xs then add_counts f (counts st g) (counts st a) else counts st a\<rparr>)"
proof (induction xs arbitrary: st p)
  case Nil
  then show ?case by (subst op_up.simps) simp
next
  case (Cons x xs)
  define st1 where "st1 = st\<lparr>counts := (counts st)(p := add_counts f (counts st g) (counts st p))\<rparr>"
  have p: "p = x" "x \<noteq> NULL" "x \<notin> set xs" "distinct xs" "upchain st1 (t_parent st x) xs" "g \<notin> set xs" "g \<noteq> x"
    using Cons.prems upchain_cong [of st1 st] by (auto simp: st1_def)
  have "op_up st g f p = op_up st1 g f (t_parent st p)"
    using p(1,2) Cons.prems(4,5) by (subst op_up.simps) (simp add: st1_def)
  also have "\<dots> = Some (st1\<lparr>counts := \<lambda>a. if a \<in> set xs then add_counts f (counts st1 g) (counts st1 a) else counts st1 a\<rparr>)"
    using Cons.IH [OF p(5,4,6)] Cons.prems(4,5) p(1) by (simp add: st1_def)
  also have "\<dots> = Some (st\<lparr>counts := \<lambda>a. if a \<in> set (x # xs) then add_counts f (counts st g) (counts st a) else counts st a\<rparr>)"
    using p(1,3,7) by (auto simp: st1_def fun_eq_iff intro!: jgTree.unfold_congs)
  finally show ?case .
qed

subsection \<open>Well-formed trees\<close>

definition tree_at :: "'a jgTree_scheme \<Rightarrow> addr tree \<Rightarrow> bool" where
  "tree_at st t \<longleftrightarrow> forest st NULL NULL t (rootNode st) \<and> distinct (preorder t) \<and> (\<exists>cs. t = Node cs (rootNode st) Leaf)"

text \<open>Nothing hangs below a job node, and its job knows the node it is on.\<close>

definition types_ok :: "'a jgTree_scheme \<Rightarrow> addr tree \<Rightarrow> bool" where
  "types_ok st t \<longleftrightarrow> (\<forall>a \<in> set_tree t. nodeType st a = JGRP_NODE_JOB \<longrightarrow>
     below a t = Leaf \<and> jgrpNode st (ndInfo st a) = a \<and> jobStat st (ndInfo st a) \<noteq> JOB_STAT_NULL)"

text \<open>Only links, counters and the entry of the observer differ.\<close>

definition keeps :: "'a jgTree_scheme \<Rightarrow> 'a jgTree_scheme \<Rightarrow> bool" where
  "keeps st st' \<longleftrightarrow>
     nodeType st' = nodeType st \<and> ndInfo st' = ndInfo st \<and> jobStat st' = jobStat st \<and> jgrpNode st' = jgrpNode st \<and>
     nextJob st' = nextJob st \<and> rootNode st' = rootNode st \<and> nodeBrk st' = nodeBrk st \<and> jobKind st' = jobKind st \<and>
     hasDep st' = hasDep st \<and> jFlags st' = jFlags st \<and> numRef st' = numRef st \<and> newReason st' = newReason st \<and>
     grpRef st' = grpRef st \<and> grpVoid st' = grpVoid st \<and> freedNodes st' = freedNodes st \<and> freedJobs st' = freedJobs st \<and>
     voidJobs st' = voidJobs st \<and> runCount st' = runCount st"

lemma keeps_unlink: "keeps st (unlink st n)"
  by (simp add: keeps_def unlink_def Let_def)

text \<open>How many of the jobs a counter counts.\<close>

definition tally :: "jstatus list \<Rightarrow> nat \<Rightarrow> int" where
  "tally ss i = int (length (filter (\<lambda>s. i = 0 \<or> getIndexOfJStatus s = i) ss))"

lemma tally_append [simp]: "tally (xs @ ys) i = tally xs i + tally ys i"
  by (simp add: tally_def)

lemma tally_Nil [simp]: "tally [] i = 0"
  by (simp add: tally_def)

lemma getIndexOfJStatus_range: "getIndexOfJStatus s \<noteq> 0"
  by (simp add: getIndexOfJStatus_def Let_def)

lemma count_status_tally: "s \<noteq> JOB_STAT_NULL \<Longrightarrow> count_status s d c i = c i + d * tally [s] i"
  using getIndexOfJStatus_range [of s] by (auto simp: count_status_def add_at_def tally_def)

text \<open>What a node contributes to the counters above it.\<close>

definition node_counts :: "'a jgTree_scheme \<Rightarrow> addr \<Rightarrow> nat \<Rightarrow> int" where
  "node_counts st n i = (if nodeType st n = JGRP_NODE_JOB then tally [jobStat st (ndInfo st n)] i else counts st n i)"

lemma tree_root: "tree_at st t \<Longrightarrow> rootNode st \<in> set_tree t \<and> rootNode st \<noteq> NULL"
  by (auto simp: tree_at_def)

lemma treeD:
  assumes "tree_at st t"
  shows "forest st NULL NULL t (rootNode st)" "distinct (preorder t)" "NULL \<notin> set_tree t" "a \<in> set_tree t \<Longrightarrow> a \<noteq> NULL"
proof -
  show f: "forest st NULL NULL t (rootNode st)" "distinct (preorder t)" using assms by (auto simp: tree_at_def)
  show n: "NULL \<notin> set_tree t" by (rule forest_nonnull [OF f(1)])
  show "a \<in> set_tree t \<Longrightarrow> a \<noteq> NULL" using n by metis
qed

lemma tree_upchain: "tree_at st t \<Longrightarrow> a \<in> set_tree t \<Longrightarrow> upchain st a (path_to a t)"
  using forest_upchain [of st NULL NULL t "rootNode st" a "[]"] by (simp add: tree_at_def)

lemma inner_types:
  assumes "tree_at st t" "types_ok st t" "a \<in> set_tree t" "x \<in> set (tl (path_to a t))"
  shows "nodeType st x \<noteq> JGRP_NODE_JOB" "x \<noteq> a" "x \<in> set_tree t"
proof -
  have d: "distinct (preorder t)" using assms(1) by (simp add: tree_at_def)
  have "distinct (a # tl (path_to a t))" using path_to_distinct [OF d, of a] path_to_hd [OF assms(3)] by simp
  then show ne: "x \<noteq> a" using assms(4) by auto
  have "x \<in> set (path_to a t)" using assms(4) path_to_hd [OF assms(3)] by (metis list.set_intros(2))
  then have "a \<in> set_tree (below x t)" "x \<in> set_tree t" using path_below [OF d assms(3)] path_to_subset ne by blast+
  then show "nodeType st x \<noteq> JGRP_NODE_JOB" "x \<in> set_tree t" using assms(2) by (auto simp: types_ok_def)
qed

text \<open>The counters of the nodes \<open>xs\<close> change by \<open>d\<close>.\<close>

definition shifted :: "'a jgTree_scheme \<Rightarrow> 'a jgTree_scheme \<Rightarrow> addr list \<Rightarrow> (nat \<Rightarrow> int) \<Rightarrow> bool" where
  "shifted st st' xs d \<longleftrightarrow> (\<forall>a. \<forall>i < NUM_JGRP_COUNTERS. counts st' a i = counts st a i + (if a \<in> set xs then d i else 0))"

text \<open>Both ways of counting a node, in (\<open>f = 1\<close>) or out (\<open>f = -1\<close>).\<close>

lemma count_node:
  assumes up: "upchain st n (n # xs)" "distinct (n # xs)" "\<forall>x \<in> set xs. nodeType st x \<noteq> JGRP_NODE_JOB"
    and job: "nodeType st n = JGRP_NODE_JOB \<Longrightarrow> jgrpNode st (ndInfo st n) = n \<and> s = jobStat st (ndInfo st n) \<and> s \<noteq> JOB_STAT_NULL"
    and f: "f = 1 \<and> old = JOB_STAT_NULL \<and> new = s \<or> f = -1 \<and> old = s \<and> new = JOB_STAT_NULL"
  shows "\<exists>c. (if nodeType st n = JGRP_NODE_JOB then updJgrpCountByJStatus st (ndInfo st n) old new else updJgrpCountByOp st n f) =
      Some (st\<lparr>counts := c\<rparr>) \<and> shifted st (st\<lparr>counts := c\<rparr>) xs (\<lambda>i. f * node_counts st n i)"
proof (cases "nodeType st n = JGRP_NODE_JOB")
  case True
  have s: "s \<noteq> JOB_STAT_NULL" and u: "upchain st (jgrpNode st (ndInfo st n)) (n # xs)" using job [OF True] up(1) by auto
  have "count_status new 1 (count_status old (-1) c) i = c i + f * tally [s] i" for c i
    using f s count_status_tally [OF s] by (auto simp: count_status_def)
  then show ?thesis
    using True job [OF True] count_up_chain [OF u up(2)] up(3)
    by (auto simp: updJgrpCountByJStatus_def shifted_def node_counts_def)
next
  case False
  have "upchain st (t_parent st n) xs" "distinct xs" "n \<notin> set xs" using up(1,2) by auto
  from op_up_chain [OF this False up(3), of f] show ?thesis
    using False by (auto simp: updJgrpCountByOp_def shifted_def add_counts_def node_counts_def)
qed

lemma right_in_clip: "forest st q l t p \<Longrightarrow> distinct (preorder t) \<Longrightarrow> n \<in> set_tree t \<Longrightarrow> t_right st n \<in> insert NULL (set_tree (clip n t))"
proof (induction t arbitrary: q l p)
  case (Node cs x ts)
  have "t_right st x = NULL \<or> t_right st x \<in> set_tree ts" using Node.prems(1) by (cases ts) auto
  moreover have "forest st x NULL cs (t_child st x)" "forest st q x ts (t_right st x)" using Node.prems(1) by auto
  note Node.IH(1) [OF this(1)] Node.IH(2) [OF this(2)]
  ultimately show ?case using Node.prems(2,3) by (auto simp: set_preorder)
qed simp

lemma left_in_clip:
  "forest st q l t p \<Longrightarrow> distinct (preorder t) \<Longrightarrow> n \<in> set_tree t \<Longrightarrow> t_left st n \<in> insert l (insert NULL (set_tree (clip n t)))"
proof (induction t arbitrary: q l p)
  case (Node cs x ts)
  have "forest st x NULL cs (t_child st x)" "forest st q x ts (t_right st x)" "t_left st x = l" using Node.prems(1) by auto
  with Node.IH(1) [OF this(1)] Node.IH(2) [OF this(2)] show ?case using Node.prems(2,3) by (auto simp: set_preorder)
qed simp

lemma parent_in_clip:
  assumes "tree_at st t" "n \<in> set_tree t" "n \<noteq> rootNode st"
  shows "t_parent st n \<in> set_tree (clip n t)"
proof -
  have d: "distinct (preorder t)" using assms(1) by (simp add: tree_at_def)
  have up: "upchain st n (n # tl (path_to n t))" using tree_upchain [OF assms(1,2)] path_to_hd [OF assms(2)] by simp
  have ne: "t_parent st n \<noteq> NULL"
  proof
    assume n: "t_parent st n = NULL"
    have "path_to n t = [n]" using up n path_to_hd [OF assms(2)] by (cases "tl (path_to n t)") auto
    moreover obtain cs where "t = Node cs (rootNode st) Leaf" using assms(1) by (auto simp: tree_at_def)
    moreover have "path_to n cs \<noteq> []" if "n \<in> set_tree cs" using path_to_hd [OF that] by (metis list.distinct(1))
    ultimately show False using assms(2,3) by (auto split: if_splits)
  qed
  then have "t_parent st n \<in> set (tl (path_to n t))" using up by (cases "tl (path_to n t)") auto
  then have x: "t_parent st n \<in> set (path_to n t)" "t_parent st n \<noteq> n"
    using path_to_hd [OF assms(2)] path_to_distinct [OF d, of n] by (metis list.set_intros(2), metis distinct.simps(2))
  have "t_parent st n \<in> set_tree t" using x(1) path_to_subset by blast
  moreover have "t_parent st n \<notin> set_tree (below n t)"
  proof
    assume b: "t_parent st n \<in> set_tree (below n t)"
    then have "n \<in> set (path_to (t_parent st n) t)" using path_below [OF d \<open>t_parent st n \<in> set_tree t\<close>] by blast
    moreover have "path_to (t_parent st n) t = tl (path_to n t)"
      using upchain_unique tree_upchain [OF assms(1) \<open>t_parent st n \<in> set_tree t\<close>] up by auto
    ultimately show False using path_to_distinct [OF d, of n] path_to_hd [OF assms(2)] by (metis distinct.simps(2))
  qed
  ultimately show ?thesis using set_clip [OF d assms(2)] x(2) by blast
qed

lemma forest_below: "forest st q l t p \<Longrightarrow> n \<in> set_tree t \<Longrightarrow> forest st n NULL (below n t) (t_child st n)"
  by (induction t arbitrary: q l p) auto

lemma isAncestor_tree:
  assumes "tree_at st t" "t_parent st' = t_parent st" "n \<in> set_tree t" "e \<in> insert NULL (set_tree t)"
  shows "(if e = n then Some True else isAncestor st' n e) = Some (e = n \<or> e \<in> set_tree (below n t))"
proof (cases "e = NULL")
  case True
  have "NULL \<notin> set_tree t" by (rule treeD [OF assms(1)])
  then show ?thesis using True assms(3) below_subset [of n t] by (auto simp: isAncestor_def)
next
  case False
  then have e: "e \<in> set_tree t" using assms(4) by simp
  have d: "distinct (preorder t)" and n: "n \<noteq> NULL" using treeD [OF assms(1)] assms(3) by blast+
  have "upchain st e (e # tl (path_to e t))" using tree_upchain [OF assms(1) e] path_to_hd [OF e] by simp
  then have "upchain st' (t_parent st' e) (tl (path_to e t))" using assms(2) upchain_cong [OF assms(2)] by simp
  from ancestor_loop_chain [OF this, of n] have "isAncestor st' n e = Some (n \<in> set (tl (path_to e t)))"
    using n False by (simp add: isAncestor_def)
  moreover have "n \<in> set (path_to e t) \<longleftrightarrow> n = e \<or> n \<in> set (tl (path_to e t))" using path_to_hd [OF e] by (metis set_ConsD list.set_intros)
  ultimately show ?thesis using path_below [OF d e, of n] by auto
qed

lemma depEntry_id: "st\<lparr>depEntry := depEntry st\<rparr> = st"
  by simp

lemma observer_clip:
  assumes tr: "tree_at st t" and n: "n \<in> set_tree t" "n \<noteq> rootNode st" and e: "depEntry st \<in> insert NULL (set_tree t)"
  shows "\<exists>e. treeObserverInvoke ((unlink st n)\<lparr>counts := c\<rparr>) n TREE_EVENT_CLIP = Some ((unlink st n)\<lparr>counts := c, depEntry := e\<rparr>) \<and>
    e \<in> insert NULL (set_tree (clip n t))"
proof -
  let ?s = "(unlink st n)\<lparr>counts := c\<rparr>" and ?e = "depEntry st"
  have f: "forest st NULL NULL t (rootNode st)" "distinct (preorder t)" and nn: "NULL \<notin> set_tree t" "n \<noteq> NULL"
    using treeD [OF tr] n(1) by blast+
  have ne: "t_left st n \<noteq> n" using forest_left_neq [OF f n(1) nn(1)] .
  have dep: "depEntry ?s = ?e" by (simp add: unlink_def Let_def)
  have inside: "(if ?e = n then Some True else isAncestor ?s n ?e) = Some (?e = n \<or> ?e \<in> set_tree (below n t))"
    by (rule isAncestor_tree [OF tr _ n(1) e]) (simp add: unlink_links)
  have keep: "?e \<in> insert NULL (set_tree (clip n t))" if "\<not> (?e = n \<or> ?e \<in> set_tree (below n t))"
    using that e set_clip [OF f(2) n(1)] by auto
  have "forest (unlink st n) NULL NULL (clip n t) (if rootNode st = n then t_right st n else rootNode st)"
    by (rule forest_unlink [OF f n(1) nn(1) nn(1)])
  moreover have "forest ?s NULL NULL (clip n t) (rootNode st) = forest (unlink st n) NULL NULL (clip n t) (rootNode st)"
    by (intro forest_cong) simp
  ultimately have fc: "forest ?s NULL NULL (clip n t) (rootNode st)" using n(2) by simp
  have "climb ?s NULL = Some NULL" by (subst climb.simps) simp
  from forest_climb [OF fc this parent_in_clip [OF tr n]]
  have climb: "\<exists>r. climb ?s (t_parent ?s n) = Some r \<and> r \<in> insert NULL (set_tree (clip n t))" by (simp add: unlink_links)
  have nxt: "\<exists>r. treeNextSib ?s n = Some r \<and> r \<in> insert NULL (set_tree (clip n t))"
    using climb right_in_clip [OF f n(1)] nn(2) ne by (auto simp: treeNextSib_def unlink_links)
  show ?thesis
  proof (cases "?e = n \<or> ?e \<in> set_tree (below n t)")
    case True
    then show ?thesis using inside nxt unfolding treeObserverInvoke_def treeObserverEvalDep_def dep by auto
  next
    case False
    have "?s\<lparr>depEntry := ?e\<rparr> = ?s" using depEntry_id [of ?s] unfolding dep .
    then show ?thesis using False inside keep [OF False] unfolding treeObserverInvoke_def treeObserverEvalDep_def dep
      by (intro exI [of _ ?e]) simp
  qed
qed

text \<open>Taking a node with everything below it out of the tree.\<close>

lemma treeClip_ok:
  assumes tr: "tree_at st t" and ty: "types_ok st t" and n: "n \<in> set_tree t" "n \<noteq> rootNode st"
    and e: "depEntry st \<in> insert NULL (set_tree t)"
  shows "\<exists>st'. treeClip st n = Some st' \<and> keeps st st' \<and> tree_at st' (clip n t) \<and>
    forest st' NULL NULL (Node (below n t) n Leaf) n \<and> depEntry st' \<in> insert NULL (set_tree (clip n t)) \<and>
    shifted st st' (tl (path_to n t)) (\<lambda>i. - node_counts st n i)"
proof -
  let ?u = "unlink st n"
  have f: "forest st NULL NULL t (rootNode st)" and d: "distinct (preorder t)" and nn: "NULL \<notin> set_tree t" "n \<noteq> NULL"
    using treeD [OF tr] n(1) by blast+
  have ne: "t_left st n \<noteq> n" using forest_left_neq [OF f d n(1) nn(1)] .
  have u: "nodeType ?u = nodeType st" "ndInfo ?u = ndInfo st" "jobStat ?u = jobStat st" "jgrpNode ?u = jgrpNode st" "counts ?u = counts st"
    by (simp_all add: unlink_def Let_def)
  have up: "upchain ?u n (n # tl (path_to n t))" "distinct (n # tl (path_to n t))"
    using tree_upchain [OF tr n(1)] path_to_hd [OF n(1)] path_to_distinct [OF d, of n] upchain_cong [OF unlink_links(1)] by (metis, metis)
  have "\<forall>x \<in> set (tl (path_to n t)). nodeType ?u x \<noteq> JGRP_NODE_JOB" using inner_types(1) [OF tr ty n(1)] u by simp
  from count_node [OF up this, of "jobStat ?u (ndInfo ?u n)" "-1" "jobStat ?u (ndInfo ?u n)" JOB_STAT_NULL] ty n(1)
  obtain c where c: "(if nodeType ?u n = JGRP_NODE_JOB then updJgrpCountByJStatus ?u (ndInfo ?u n) (jobStat ?u (ndInfo ?u n)) JOB_STAT_NULL
      else updJgrpCountByOp ?u n (-1)) = Some (?u\<lparr>counts := c\<rparr>)"
      "shifted ?u (?u\<lparr>counts := c\<rparr>) (tl (path_to n t)) (\<lambda>i. -1 * node_counts ?u n i)"
    unfolding types_ok_def u(1-4) by blast
  obtain e' where e': "treeObserverInvoke (?u\<lparr>counts := c\<rparr>) n TREE_EVENT_CLIP = Some (?u\<lparr>counts := c, depEntry := e'\<rparr>)"
      "e' \<in> insert NULL (set_tree (clip n t))"
    using observer_clip [OF tr n e, of c] by blast
  define st' where "st' = reset_links (?u\<lparr>counts := c, depEntry := e'\<rparr>) n"
  have "treeClip st n = Some st'" using c(1) e'(1) nn(2) by (simp add: treeClip_def st'_def Let_def)
  moreover have "keeps st st'" using keeps_unlink [of st n] by (simp add: st'_def keeps_def reset_links_def)
  moreover have "tree_at st' (clip n t)"
  proof -
    have "forest ?u NULL NULL (clip n t) (rootNode st)" using forest_unlink [OF f d n(1) nn(1) nn(1)] n(2) by simp
    moreover have "n \<notin> set_tree (clip n t)" using set_clip [OF d n(1)] by simp
    moreover from this have "forest st' NULL NULL (clip n t) (rootNode st) = forest ?u NULL NULL (clip n t) (rootNode st)"
      by (intro forest_cong) (auto simp: st'_def reset_links_def)
    ultimately have "forest st' NULL NULL (clip n t) (rootNode st)" by simp
    moreover have "\<exists>cs. clip n t = Node cs (rootNode st) Leaf" using tr n(2) by (auto simp: tree_at_def)
    ultimately show ?thesis using distinct_clip [OF d] \<open>keeps st st'\<close> by (simp add: tree_at_def keeps_def)
  qed
  moreover have "forest st' NULL NULL (Node (below n t) n Leaf) n"
  proof -
    have out: "x \<notin> insert n (set_tree (below n t))" if "x \<in> insert NULL (set_tree (clip n t))" for x
      using that set_clip [OF d n(1)] nn below_subset [of n t] by auto
    note nb = out [OF insertI2 [OF parent_in_clip [OF tr n]]] out [OF right_in_clip [OF f d n(1)]]
      out [OF left_in_clip [OF f d n(1), unfolded insert_absorb2]]
    have "n \<notin> set_tree (below n t)" by (rule path_below_self [OF d])
    then have "forest st' n NULL (below n t) (t_child st n) = forest st n NULL (below n t) (t_child st n)"
      using nb by (intro forest_cong) (auto simp: st'_def reset_links_def unlink_links(1-3) unlink_links(4) [OF ne])
    then show ?thesis using forest_below [OF f n(1)] nn(2) nb by (auto simp: st'_def reset_links_def unlink_links(1-3))
  qed
  moreover have "shifted st st' (tl (path_to n t)) (\<lambda>i. - node_counts st n i)"
    using c(2) u by (simp add: shifted_def st'_def reset_links_def node_counts_def)
  moreover have "depEntry st' \<in> insert NULL (set_tree (clip n t))" using e'(2) by (simp add: st'_def reset_links_def)
  ultimately show ?thesis by (intro exI [of _ st'] conjI)
qed

subsection \<open>Adding a node\<close>

fun append_node :: "addr \<Rightarrow> addr tree \<Rightarrow> addr tree" where
  "append_node c Leaf = Node Leaf c Leaf"
| "append_node c (Node cs a ts) = Node cs a (append_node c ts)"

fun add_child :: "addr \<Rightarrow> addr \<Rightarrow> addr tree \<Rightarrow> addr tree" where
  "add_child par c Leaf = Leaf"
| "add_child par c (Node cs a ts) = (if a = par then Node (append_node c cs) a ts else Node (add_child par c cs) a (add_child par c ts))"

fun last_root :: "addr tree \<Rightarrow> addr" where
  "last_root Leaf = NULL"
| "last_root (Node cs a ts) = (if ts = Leaf then a else last_root ts)"

lemma set_append_node: "set_tree (append_node c t) = insert c (set_tree t)"
  by (induction t) auto

lemma distinct_append_node: "distinct (preorder t) \<Longrightarrow> c \<notin> set_tree t \<Longrightarrow> distinct (preorder (append_node c t))"
  by (induction t) (auto simp: set_preorder set_append_node)

lemma add_child_notin [simp]: "par \<notin> set_tree t \<Longrightarrow> add_child par c t = t"
  by (induction t) auto

lemma set_add_child: "par \<in> set_tree t \<Longrightarrow> set_tree (add_child par c t) = insert c (set_tree t)"
proof (induction t)
  case (Node cs a ts)
  then show ?case by (cases "par \<in> set_tree cs"; cases "par \<in> set_tree ts") (auto simp: set_append_node)
qed simp

lemma add_child_subset: "set_tree (add_child par c t) \<subseteq> insert c (set_tree t)"
  using set_add_child [of par t c] by (cases "par \<in> set_tree t") auto

lemma distinct_add_child:
  assumes "distinct (preorder t)" "c \<notin> set_tree t"
  shows "distinct (preorder (add_child par c t))"
  using assms
proof (induction t)
  case (Node cs a ts)
  have d: "distinct (preorder cs)" "distinct (preorder ts)" "a \<notin> set_tree cs" "a \<notin> set_tree ts" "set_tree cs \<inter> set_tree ts = {}" "c \<noteq> a"
    "c \<notin> set_tree cs" "c \<notin> set_tree ts"
    using Node.prems by (auto simp: set_preorder)
  consider "a = par" | "a \<noteq> par" "par \<notin> set_tree cs" | "a \<noteq> par" "par \<notin> set_tree ts" using d(5) by auto
  then show ?case
  proof cases
    case 1
    then show ?thesis using d distinct_append_node [OF d(1,7)] by (auto simp: set_preorder set_append_node)
  next
    case 2
    then show ?thesis using d Node.IH(2) [OF d(2,8)] add_child_subset [of par c ts] by (auto simp: set_preorder)
  next
    case 3
    then show ?thesis using d Node.IH(1) [OF d(1,7)] add_child_subset [of par c cs] by (auto simp: set_preorder)
  qed
qed simp

lemma last_root_in: "t \<noteq> Leaf \<Longrightarrow> last_root t \<in> set_tree t"
  by (induction t) auto

lemma last_sibling_forest: "forest st q l t p \<Longrightarrow> t \<noteq> Leaf \<Longrightarrow> last_sibling st p = Some (last_root t)"
proof (induction t arbitrary: q l p)
  case (Node cs a ts)
  have sub: "forest st q a ts (t_right st a)" "p = a" using Node.prems(1) by auto
  then show ?case using Node.IH(2) [OF sub(1)] forest_null [OF sub(1)] by (subst last_sibling.simps) auto
qed simp

text \<open>The links after \<open>c\<close> is added below \<open>par\<close>, to the right of \<open>n\<close> if there is one.\<close>

definition link_node :: "'a jgTree_scheme \<Rightarrow> addr \<Rightarrow> addr \<Rightarrow> addr \<Rightarrow> 'a jgTree_scheme" where
  "link_node st par n c =
     (if n = NULL then st\<lparr>t_child := (t_child st)(par := c), t_parent := (t_parent st)(c := par)\<rparr>
      else st\<lparr>t_right := (t_right st)(n := c), t_left := (t_left st)(c := n), t_parent := (t_parent st)(c := par)\<rparr>)"

lemma link_node_cong:
  assumes "par \<notin> set_tree t" "n \<notin> set_tree t" "c \<notin> set_tree t"
  shows "forest (link_node st par n c) q l t p = forest st q l t p"
  by (rule forest_cong) (use assms in \<open>auto simp: link_node_def\<close>)

lemma forest_append:
  assumes "forest st par l t p" "t \<noteq> Leaf" "distinct (preorder t)" "c \<notin> set_tree t" "par \<notin> set_tree t"
    and c: "c \<noteq> NULL" "t_child st c = NULL" "t_right st c = NULL"
  shows "forest (link_node st par (last_root t) c) par l (append_node c t) p"
  using assms(1-5)
proof (induction t arbitrary: l p)
  case (Node cs x ts)
  have sub: "forest st x NULL cs (t_child st x)" "forest st par x ts (t_right st x)" "p = x" "x \<noteq> NULL" "t_left st x = l" "t_parent st x = par"
    using Node.prems(1) by auto
  have d: "distinct (preorder ts)" "x \<notin> set_tree cs" "x \<notin> set_tree ts" "set_tree cs \<inter> set_tree ts = {}" "c \<noteq> x" "c \<notin> set_tree cs"
    "c \<notin> set_tree ts" "par \<noteq> x" "par \<notin> set_tree cs" "par \<notin> set_tree ts"
    using Node.prems(3-5) by (auto simp: set_preorder)
  show ?case
  proof (cases "ts = Leaf")
    case True
    then show ?thesis using link_node_cong [of par cs x c st x NULL "t_child st x"] sub d c by (auto simp: link_node_def)
  next
    case False
    let ?n = "last_root ts" and ?s = "link_node st par (last_root ts) c"
    have n: "?n \<in> set_tree ts" "?n \<noteq> NULL" using last_root_in [OF False] forest_nonnull [OF sub(2)] by (auto intro: Nat.gr0I)
    have "forest ?s par x (append_node c ts) (t_right st x)" using Node.IH(2) [OF sub(2) False d(1,7,10)] .
    moreover have "forest ?s x NULL cs (t_child st x)"
    proof -
      have "?n \<notin> set_tree cs" using n(1) d(4) by blast
      then show ?thesis using link_node_cong [of par cs ?n c] sub(1) d by metis
    qed
    moreover have "t_child ?s x = t_child st x" "t_right ?s x = t_right st x" "t_left ?s x = l" "t_parent ?s x = par"
      using n d sub(5,6) by (auto simp: link_node_def)
    ultimately show ?thesis using False sub(3,4) by simp
  qed
qed simp

lemma below_last_in: "last_root (below n t) \<in> insert NULL (set_tree t)"
  using last_root_in [of "below n t"] below_subset [of n t] by (cases "below n t = Leaf") auto

lemma forest_add_child:
  assumes "forest st q l t p" "distinct (preorder t)" "par \<in> set_tree t" "c \<notin> set_tree t" "q \<notin> set_tree t" "NULL \<notin> set_tree t"
    and c: "c \<noteq> NULL" "t_child st c = NULL" "t_right st c = NULL" "t_left st c = NULL"
  shows "forest (link_node st par (last_root (below par t)) c) q l (add_child par c t) p"
  using assms(1-6)
proof (induction t arbitrary: q l p)
  case (Node cs x ts)
  let ?s = "link_node st par (last_root (below par (Node cs x ts))) c"
  have sub: "forest st x NULL cs (t_child st x)" "forest st q x ts (t_right st x)" "p = x" "x \<noteq> NULL" "t_left st x = l" "t_parent st x = q"
    using Node.prems(1) by auto
  have d: "distinct (preorder cs)" "distinct (preorder ts)" "x \<notin> set_tree cs" "x \<notin> set_tree ts" "set_tree cs \<inter> set_tree ts = {}"
    "c \<noteq> x" "c \<notin> set_tree cs" "c \<notin> set_tree ts" "q \<noteq> x" "q \<notin> set_tree ts" "NULL \<notin> set_tree cs" "NULL \<notin> set_tree ts"
    using Node.prems(2,4,5,6) by (auto simp: set_preorder)
  consider (here) "x = par" | (cs) "x \<noteq> par" "par \<in> set_tree cs" "par \<notin> set_tree ts" | (ts) "x \<noteq> par" "par \<in> set_tree ts" "par \<notin> set_tree cs"
    using Node.prems(3) d(5) by auto
  then show ?case
  proof cases
    case here
    have n: "last_root cs \<notin> set_tree ts" "last_root cs \<noteq> x"
      using last_root_in [of cs] d(3,5,12) sub(4) by (cases "cs = Leaf"; auto)+
    have ts: "forest (link_node st x (last_root cs) c) q x ts (t_right st x)"
      using link_node_cong [OF d(4) n(1) d(8)] sub(2) by blast
    have "forest (link_node st x (last_root cs) c) x NULL (append_node c cs) (if cs = Leaf then c else t_child st x)"
    proof (cases "cs = Leaf")
      case True
      then show ?thesis using c d(6) by (simp add: link_node_def)
    next
      case False
      then show ?thesis using forest_append [OF sub(1) False d(1,7,3) c(1-3)] by simp
    qed
    moreover have "cs \<noteq> Leaf \<Longrightarrow> last_root cs \<noteq> NULL" using last_root_in [of cs] d(11) by metis
    ultimately show ?thesis using here ts sub(3-6) d(6) n(2) by (auto simp: link_node_def split: if_splits)
  next
    case cs
    let ?n = "last_root (below par cs)"
    have n: "?n \<in> insert NULL (set_tree cs)" by (rule below_last_in)
    then have out: "?n \<notin> set_tree ts" "?n \<noteq> x" using d(3,5,12) sub(4) by auto
    have s: "?s = link_node st par ?n c" using cs by simp
    have "forest ?s x NULL (add_child par c cs) (t_child st x)" using Node.IH(1) [OF sub(1) d(1) cs(2) d(7,3,11)] s by simp
    moreover have "forest ?s q x ts (t_right st x)" using link_node_cong [OF cs(3) out(1) d(8)] sub(2) s by metis
    moreover have "t_child ?s x = t_child st x" "t_right ?s x = t_right st x" "t_left ?s x = l" "t_parent ?s x = q"
      using s cs(1) out d(6) sub(5,6) by (auto simp: link_node_def)
    ultimately show ?thesis using cs sub(3,4) by simp
  next
    case ts
    let ?n = "last_root (below par ts)"
    have n: "?n \<in> insert NULL (set_tree ts)" by (rule below_last_in)
    then have out: "?n \<notin> set_tree cs" "?n \<noteq> x" using d(4,5,11) sub(4) by auto
    have s: "?s = link_node st par ?n c" using ts by simp
    have "forest ?s q x (add_child par c ts) (t_right st x)" using Node.IH(2) [OF sub(2) d(2) ts(2) d(8,10,12)] s by simp
    moreover have "forest ?s x NULL cs (t_child st x)" using link_node_cong [OF ts(3) out(1) d(7)] sub(1) s by metis
    moreover have "t_child ?s x = t_child st x" "t_right ?s x = t_right st x" "t_left ?s x = l" "t_parent ?s x = q"
      using s ts(1) out d(6) sub(5,6) by (auto simp: link_node_def)
    ultimately show ?thesis using ts sub(3,4) by simp
  qed
qed simp

lemma link_child:
  assumes tr: "tree_at st t" and par: "par \<in> set_tree t" and c: "c \<notin> set_tree t" "c \<noteq> NULL" "t_right st c = NULL"
  shows "Option.bind (if t_child st par \<noteq> NULL
       then map_option (\<lambda>(s, hd). s\<lparr>t_child := (t_child s)(par := hd)\<rparr>) (treeLinkSibling st (t_child st par) c)
       else Some (st\<lparr>t_child := (t_child st)(par := c)\<rparr>)) (\<lambda>st1. set_parents st1 par c) =
     Some (link_node st par (last_root (below par t)) c)"
proof -
  have f: "forest st par NULL (below par t) (t_child st par)" by (rule forest_below [OF treeD(1) [OF tr] par])
  show ?thesis
  proof (cases "below par t = Leaf")
    case True
    then have "t_child st par = NULL" using f by simp
    then show ?thesis using True c by (subst set_parents.simps) (simp add: link_node_def Let_def)
  next
    case False
    let ?n = "last_root (below par t)"
    have n: "?n \<in> set_tree t" using last_root_in [OF False] below_subset by blast
    then have ne: "?n \<noteq> c" "?n \<noteq> NULL" "t_child st par \<noteq> NULL" using c(1) treeD(4) [OF tr n] forest_null [OF f] False by metis+
    then have "treeLinkSibling st (t_child st par) c =
        Some (st\<lparr>t_right := (t_right st)(?n := c), t_left := (t_left st)(c := ?n)\<rparr>, t_child st par)"
      using last_sibling_forest [OF f False] c(2) by (simp add: treeLinkSibling_def)
    then show ?thesis using ne c by (subst set_parents.simps) (simp add: link_node_def Let_def)
  qed
qed

lemma treeInsertChild_ok:
  assumes tr: "tree_at st t" and ty: "types_ok st t" and par: "par \<in> set_tree t" "nodeType st par \<noteq> JGRP_NODE_JOB"
    and c: "c \<notin> set_tree t" "c \<noteq> NULL" "t_child st c = NULL" "t_right st c = NULL" "t_left st c = NULL"
    and job: "nodeType st c = JGRP_NODE_JOB \<Longrightarrow> jgrpNode st (ndInfo st c) = c \<and> jobStat st (ndInfo st c) \<noteq> JOB_STAT_NULL"
  shows "\<exists>st'. treeInsertChild st par c = Some st' \<and> keeps st st' \<and> tree_at st' (add_child par c t) \<and> depEntry st' = depEntry st \<and>
    shifted st st' (path_to par t) (node_counts st c)"
proof -
  let ?l = "link_node st par (last_root (below par t)) c"
  note t = treeD(1-3) [OF tr]
  have l: "keeps st ?l" "counts ?l = counts st" "depEntry ?l = depEntry st" "t_parent ?l = (t_parent st)(c := par)"
    by (simp_all add: link_node_def keeps_def)
  have f: "forest ?l NULL NULL (add_child par c t) (rootNode st)"
    by (rule forest_add_child [OF t(1,2) par(1) c(1) t(3,3) c(2-5)])
  have up: "upchain ?l c (c # path_to par t)" "distinct (c # path_to par t)"
  proof -
    have "upchain st par (path_to par t)" by (rule tree_upchain [OF tr par(1)])
    moreover have "c \<notin> set (path_to par t)" using c(1) path_to_subset by blast
    ultimately show "upchain ?l c (c # path_to par t)" using c(2) upchain_frame [of c "path_to par t" ?l st] l(4) by simp
    show "distinct (c # path_to par t)" using \<open>c \<notin> set (path_to par t)\<close> path_to_distinct [OF t(2)] by simp
  qed
  have ty': "\<forall>x \<in> set (path_to par t). nodeType ?l x \<noteq> JGRP_NODE_JOB"
    using inner_types(1) [OF tr ty par(1)] par(2) l(1) path_to_hd [OF par(1)] by (metis keeps_def set_ConsD)
  obtain cc where cc: "(if nodeType ?l c = JGRP_NODE_JOB then updJgrpCountByJStatus ?l (ndInfo ?l c) JOB_STAT_NULL (jobStat ?l (ndInfo ?l c))
      else updJgrpCountByOp ?l c 1) = Some (?l\<lparr>counts := cc\<rparr>)"
      "shifted ?l (?l\<lparr>counts := cc\<rparr>) (path_to par t) (\<lambda>i. 1 * node_counts ?l c i)"
    using count_node [OF up ty', of "jobStat ?l (ndInfo ?l c)" 1 JOB_STAT_NULL "jobStat ?l (ndInfo ?l c)"] job l(1)
    unfolding keeps_def by metis
  define st' where "st' = ?l\<lparr>counts := cc\<rparr>"
  have "par \<noteq> NULL" by (rule treeD(4) [OF tr par(1)])
  then have "treeInsertChild st par c = node_added ?l c"
    using link_child [OF tr par(1) c(1,2,4)] c(2) by (simp add: treeInsertChild_def flip: bind_assoc)
  also have "\<dots> = Some st'"
    using cc(1) by (simp add: node_added_def st'_def treeObserverInvoke_def treeObserverEvalDep_def)
  finally have "treeInsertChild st par c = Some st'" .
  moreover have "keeps st st'" using l(1) by (simp add: st'_def keeps_def)
  moreover have "tree_at st' (add_child par c t)"
  proof -
    have "forest st' NULL NULL (add_child par c t) (rootNode st) = forest ?l NULL NULL (add_child par c t) (rootNode st)"
      by (intro forest_cong) (simp add: st'_def)
    moreover have "\<exists>cs. add_child par c t = Node cs (rootNode st) Leaf" using tr by (auto simp: tree_at_def)
    ultimately show ?thesis using f distinct_add_child [OF t(2) c(1)] \<open>keeps st st'\<close> by (simp add: tree_at_def keeps_def)
  qed
  moreover have "shifted st st' (path_to par t) (node_counts st c)"
    using cc(2) l(1,2) by (simp add: shifted_def st'_def node_counts_def keeps_def)
  moreover have "depEntry st' = depEntry st" using l(3) by (simp add: st'_def)
  ultimately show ?thesis by (intro exI [of _ st'] conjI)
qed

subsection \<open>Giving a subtree back\<close>







subsection \<open>Trees after an insertion\<close>



lemma clip_append_node: "c \<notin> set_tree t \<Longrightarrow> clip c (append_node c t) = t"
  by (induction t) auto

lemma clip_add_child: "c \<notin> set_tree t \<Longrightarrow> clip c (add_child par c t) = t"
  by (induction t) (auto simp: clip_append_node)

lemma path_append_node: "c \<notin> set_tree t \<Longrightarrow> path_to c (append_node c t) = [c]"
  by (induction t) auto

lemma path_append_node_old: "c \<notin> set_tree t \<Longrightarrow> a \<in> set_tree t \<Longrightarrow> path_to a (append_node c t) = path_to a t"
  by (induction t) auto

lemma tree_split:
  assumes "a \<in> set_tree (Node cs x ts)" "distinct (preorder (Node cs x ts))"
  obtains (here) "a = x" "a \<notin> set_tree cs" "a \<notin> set_tree ts" | (cs) "a \<noteq> x" "a \<in> set_tree cs" "a \<notin> set_tree ts"
    | (ts) "a \<noteq> x" "a \<in> set_tree ts" "a \<notin> set_tree cs"
  using assms by auto

lemma in_add_child: "a \<noteq> c \<Longrightarrow> a \<in> set_tree (add_child par c t) \<longleftrightarrow> a \<in> set_tree t"
  using set_add_child [of par t c] by (cases "par \<in> set_tree t") auto

lemma path_add_new:
  assumes "c \<notin> set_tree t" "distinct (preorder t)" "par \<in> set_tree t"
  shows "path_to c (add_child par c t) = c # path_to par t"
  using assms
proof (induction t)
  case (Node cs x ts)
  from Node.prems(3,2) show ?case
    by (cases rule: tree_split) (use Node in \<open>auto simp: set_append_node set_add_child path_append_node\<close>)
qed simp

lemma path_add_old:
  assumes "c \<notin> set_tree t" "a \<in> set_tree t"
  shows "path_to a (add_child par c t) = path_to a t"
  using assms
proof (induction t)
  case (Node cs x ts)
  have "a \<noteq> c" using Node.prems by auto
  then show ?case
    using Node by (cases "a \<in> set_tree cs") (auto simp: set_append_node in_add_child path_append_node_old)
qed simp

lemma below_append_node: "a \<noteq> c \<Longrightarrow> below a (append_node c t) = below a t" "c \<notin> set_tree t \<Longrightarrow> below c (append_node c t) = Leaf"
  by (induction t) auto

lemma below_notin [simp]: "a \<notin> set_tree t \<Longrightarrow> below a t = Leaf"
  by (induction t) auto

lemma below_add_new:
  assumes "c \<notin> set_tree t"
  shows "below c (add_child par c t) = Leaf"
  using assms by (induction t) (auto simp: below_append_node)

lemma below_add_old:
  assumes "c \<notin> set_tree t" "a \<noteq> c" "a \<noteq> par" "below a t = Leaf"
  shows "below a (add_child par c t) = Leaf"
  using assms by (induction t) (auto simp: below_append_node in_add_child set_append_node split: if_splits)

lemma types_add_child:
  assumes "types_ok st t" "par \<in> set_tree t" "nodeType st par \<noteq> JGRP_NODE_JOB" "c \<notin> set_tree t"
    and job: "nodeType st c = JGRP_NODE_JOB \<Longrightarrow> jgrpNode st (ndInfo st c) = c \<and> jobStat st (ndInfo st c) \<noteq> JOB_STAT_NULL"
    and "keeps st st'"
  shows "types_ok st' (add_child par c t)"
  unfolding types_ok_def
proof (intro ballI impI)
  fix a assume a: "a \<in> set_tree (add_child par c t)" "nodeType st' a = JGRP_NODE_JOB"
  show "below a (add_child par c t) = Leaf \<and> jgrpNode st' (ndInfo st' a) = a \<and> jobStat st' (ndInfo st' a) \<noteq> JOB_STAT_NULL"
  proof (cases "a = c")
    case True
    then show ?thesis using a job assms(6) below_add_new [OF assms(4)] by (auto simp: keeps_def)
  next
    case False
    then have "a \<in> set_tree t" "a \<noteq> par" "nodeType st a = JGRP_NODE_JOB" using a set_add_child [OF assms(2)] assms(3,6) by (auto simp: keeps_def)
    then show ?thesis using assms(1,6) below_add_old [OF assms(4) False] by (auto simp: types_ok_def keeps_def)
  qed
qed

subsection \<open>Properties of the tree\<close>

text \<open>An example: the root 1 with the jobs 2 and 3, and the node 4 that is not on the tree.\<close>

definition ex_jgTree :: jgTree where
  "ex_jgTree = \<lparr>t_parent = (\<lambda>_. 0)(2 := 1, 3 := 1), t_child = (\<lambda>_. 0)(1 := 2), t_left = (\<lambda>_. 0)(3 := 2), t_right = (\<lambda>_. 0)(2 := 3),
     nodeType = (\<lambda>_. JGRP_NODE_JOB)(1 := JGRP_NODE_GROUP), ndInfo = (\<lambda>n. n + 10),
     counts = (\<lambda>_ _. 0)(1 := (\<lambda>_. 0)(0 := 2, 1 := 2)), grpRef = \<lambda>_. 0, grpVoid = \<lambda>_. False,
     jobKind = \<lambda>_. JGRP_NODE_JOB, jobStat = \<lambda>_. JOB_STAT_PEND, jgrpNode = \<lambda>j. j - 10, nextJob = \<lambda>_. 0, numRef = \<lambda>_. 1,
     voidJobs = [], freedNodes = [], freedJobs = [], depEntry = 2, rootNode = 1, nodeBrk = 5, jFlags = \<lambda>_. 0,
     newReason = \<lambda>_. 0, runCount = \<lambda>_. 0, hasDep = \<lambda>_. False\<rparr>"

abbreviation ex_nodes :: "addr tree" where "ex_nodes \<equiv> Node (Node Leaf 2 (Node Leaf 3 Leaf)) 1 Leaf"

lemma ex_tree_ok: "tree_at ex_jgTree ex_nodes" "types_ok ex_jgTree ex_nodes"
  by (simp_all add: tree_at_def types_ok_def ex_jgTree_def)

text \<open>The loop that starts at the root and moves on with \<open>treeLexNext\<close>, as the dependency check and the recounting of the
  groups do, ends and visits every node of the tree exactly once, each node before the nodes below it and the siblings from left to right.\<close>

theorem traversal_visits_all:
  assumes "tree_at st t"
  shows "lex_walk st (rootNode st) = Some (preorder t) \<and> distinct (preorder t)"
  using lex_walk_forest [OF treeD(1) [OF assms]] treeD(2) [OF assms] by simp

theorem traversal_visits_all_witness:
  "tree_at ex_jgTree ex_nodes \<and> lex_walk ex_jgTree 1 = Some [1, 2, 3]"
  using ex_tree_ok(1) traversal_visits_all [OF ex_tree_ok(1)] by (simp add: ex_jgTree_def)

text \<open>C13. Adding a node below a group and taking it out again restores the tree: \<open>treeInsertChild\<close> makes the node the last child
  of the group, \<open>treeClip\<close> undoes that, and each of the eight counters of every node is what it was before.\<close>

theorem insert_clip_roundtrip:
  assumes "tree_at st t" "types_ok st t" "par \<in> set_tree t" "nodeType st par \<noteq> JGRP_NODE_JOB" "depEntry st \<in> insert NULL (set_tree t)"
    and "c \<notin> set_tree t" "c \<noteq> NULL" "t_child st c = NULL" "t_right st c = NULL" "t_left st c = NULL"
    and "nodeType st c = JGRP_NODE_JOB \<Longrightarrow> jgrpNode st (ndInfo st c) = c \<and> jobStat st (ndInfo st c) \<noteq> JOB_STAT_NULL"
  shows "\<exists>st1 st2. treeInsertChild st par c = Some st1 \<and> tree_at st1 (add_child par c t) \<and> treeClip st1 c = Some st2 \<and>
    tree_at st2 t \<and> (\<forall>a. \<forall>i < NUM_JGRP_COUNTERS. counts st2 a i = counts st a i)"
proof -
  note t = treeD [OF assms(1)]
  obtain st1 where 1: "treeInsertChild st par c = Some st1" "keeps st st1" "tree_at st1 (add_child par c t)" "depEntry st1 = depEntry st"
      "shifted st st1 (path_to par t) (node_counts st c)"
    using treeInsertChild_ok [OF assms(1-4,6-11)] by blast
  have ty: "types_ok st1 (add_child par c t)" by (rule types_add_child [OF assms(2-4,6,11) 1(2)])
  have c: "c \<in> set_tree (add_child par c t)" "c \<noteq> rootNode st1"
    using set_add_child [OF assms(3)] tree_root [OF assms(1)] assms(6) 1(2) by (auto simp: keeps_def)
  have "depEntry st1 \<in> insert NULL (set_tree (add_child par c t))" using 1(4) assms(5) set_add_child [OF assms(3)] by auto
  then obtain st2 where 2: "treeClip st1 c = Some st2" "tree_at st2 (clip c (add_child par c t))"
      "shifted st1 st2 (tl (path_to c (add_child par c t))) (\<lambda>i. - node_counts st1 c i)"
    using treeClip_ok [OF 1(3) ty c] by blast
  have "c \<notin> set (path_to par t)" using assms(6) path_to_subset by blast
  then have "node_counts st1 c i = node_counts st c i" if "i < NUM_JGRP_COUNTERS" for i
    using 1(2,5) that by (auto simp: node_counts_def keeps_def shifted_def)
  then have "\<forall>a. \<forall>i < NUM_JGRP_COUNTERS. counts st2 a i = counts st a i"
    using 1(5) 2(3) path_add_new [OF assms(6) t(2) assms(3)] by (simp add: shifted_def)
  then show ?thesis using 1(1,3) 2(1,2) clip_add_child [OF assms(6)] by auto
qed

theorem insert_clip_roundtrip_witness:
  "\<exists>st1 st2. treeInsertChild ex_jgTree 1 4 = Some st1 \<and> tree_at st1 (add_child 1 4 ex_nodes) \<and> treeClip st1 4 = Some st2 \<and> tree_at st2 ex_nodes"
proof -
  have "1 \<in> set_tree ex_nodes" "nodeType ex_jgTree 1 \<noteq> JGRP_NODE_JOB" "depEntry ex_jgTree \<in> insert NULL (set_tree ex_nodes)"
    "4 \<notin> set_tree ex_nodes" "(4::addr) \<noteq> NULL" "t_child ex_jgTree 4 = NULL" "t_right ex_jgTree 4 = NULL" "t_left ex_jgTree 4 = NULL"
    "nodeType ex_jgTree 4 = JGRP_NODE_JOB \<Longrightarrow> jgrpNode ex_jgTree (ndInfo ex_jgTree 4) = 4 \<and> jobStat ex_jgTree (ndInfo ex_jgTree 4) \<noteq> JOB_STAT_NULL"
    by (simp_all add: ex_jgTree_def)
  from insert_clip_roundtrip [OF ex_tree_ok this] show ?thesis by blast
qed



end
