(* ===== verification/Job_Counts.thy ===== *)
theory Job_Counts
  imports Job_Tree
begin

text \<open>
  The job counters on the tree of \<open>Job_Tree\<close>: as jobs and arrays are put onto the tree, change their status, leave
  their array or are removed, the counters of every group and array remain the numbers of jobs below
  it, by status.
\<close>

subsection \<open>Job records\<close>




subsection \<open>Handlers\<close>







subsection \<open>Jobs of a node\<close>






definition tree_stats :: "(addr \<Rightarrow> jstatus list) \<Rightarrow> addr tree \<Rightarrow> jstatus list" where
  "tree_stats own t = concat (map own (preorder t))"

lemma tree_stats_simps [simp]: "tree_stats own Leaf = []" "tree_stats own (Node cs a ts) = own a @ tree_stats own cs @ tree_stats own ts"
  by (simp_all add: tree_stats_def)


subsection \<open>Totals after a change\<close>








subsection \<open>Counters after a change\<close>





subsection \<open>The invariant\<close>












subsection \<open>Removing a node\<close>



subsection \<open>Putting a job onto the tree\<close>






subsection \<open>Counting a job\<close>







subsection \<open>A change at one node\<close>




subsection \<open>A job changes its status\<close>






subsection \<open>An element leaves its array\<close>



subsection \<open>Removing a job\<close>







subsection \<open>New jobs and arrays\<close>










subsection \<open>Reachable trees\<close>
























end
