(* ===== verification/Spec2Isabelle.thy ===== *)
theory Spec2Isabelle
  imports Accounts Job_Array Lava_List Time_Window List_Set Dep_Parse Hash_Tab Bit_Set Job_Counts
begin

text \<open>
  A verification library for the jhlava workload manager: the data structures and the bookkeeping of the
  master batch daemon \<open>mbatchd\<close> and of the base library under it. File names are relative to \<open>src\<close>.

  \<^bold>\<open>The program.\<close> Users submit jobs and job arrays to queues. The master daemon (\<open>lsbatch/daemons/mbd.*.c\<close>) keeps
  every job as a record whose status word moves between pending, running, suspended and finished. With each
  change \<open>updCounters\<close> moves the slots of the job between the counters of its queue, its user, the groups of the
  user and its hosts, and \<open>updJgrpCountByJStatus\<close> moves the job between the counters of the job groups and
  arrays above it on the job tree. A job may carry a dependency condition, a text that is parsed into a tree
  when the job is submitted and evaluated over the jobs, arrays, group counters and time windows it names. The
  base library (\<open>lsf\<close>) provides the containers: lists with observers, hash tables, bit sets, sorted integer sets,
  and the parsers of array indices and time windows.

  \<^bold>\<open>The theories\<close>, from the bottom:

  \<^item> \<open>Lava_Prelude\<close>, \<open>C_Strings\<close>, \<open>C_Float\<close>: the C types, the string functions of the C library with \<open>isint_\<close>
    (\<open>lsf/lib/lib.misc.c\<close>), and rounding to \<open>float\<close> and \<open>double\<close>.
  \<^item> \<open>Link_Ring\<close>: circular doubly linked lists in a store of pointers, shared by \<open>lsf/intlib/list.c\<close> and
    \<open>lsf/lib/lib.table.c\<close>. \<open>ring h s xs\<close> relates the store to a sequence.
  \<^item> \<open>Lava_List\<close> (\<open>lsf/intlib/list.c\<close>): each C function is a definition of the same name on the heap record
    \<open>lheap\<close>. Insertion and removal refine the operations on sequences and deliver one event per observer;
    searching, traversal and destruction end and agree with the sequence; detaching an observer miscounts.
  \<^item> \<open>Hash_Tab\<close> (\<open>lsf/lib/lib.table.c\<close>, membership tables of \<open>lsbatch/lib/lsb.misc.c\<close>): the locale \<open>keyed_table\<close> is
    the contract of a table (lookup after insertion and removal, the invariant kept), \<open>coded_table\<close> that of a
    table whose keys are printed numbers; both are interpreted on the tables of the program. Any sequence of
    operations refines a map, growth is invisible, the load is bounded, iteration is exhaustive and
    destruction frees everything once.
  \<^item> \<open>Bit_Set\<close> (\<open>lsf/intlib/bitset.c\<close>, and the loop of the macro \<open>FOR_EACH_USER_ANCESTOR_UGRP\<close> in \<open>mbd.h\<close>): sets as bits of 32-bit words. The locale \<open>index_sets\<close> is what the user groups of the daemon rely
    on, interpreted on the sets that \<open>mbd.grp.c\<close> creates. The operations refine those on sets of numbers, loops
    visit all elements, the byte table counts them, and four defects of the element counter, the difference
    and the duplication are proved.
  \<^item> \<open>List_Set\<close> (\<open>lsf/intlib/listset.c\<close>): sorted lists of integers with recycled cells and an allocator that
    may fail; the locale \<open>bounded_set\<close> is the contract of insertion and deletion. The operations are set
    operations, except that a union may contain duplicates.
  \<^item> \<open>Job_Status\<close> (\<open>lsbatch/lsbatch.h\<close>, \<open>daemons.h\<close>): the status word and its classification.
  \<^item> \<open>Accounts\<close> (\<open>mbd.misc.c\<close>, with parts of \<open>mbd.policy.c\<close> and \<open>mbd.grp.c\<close>): \<open>updCounters\<close> and every function it
    calls. All counters remain sums over the jobs, as long as the change of status is one the code accounts
    for; the changes that are not accounted are listed in a theorem of their own.
  \<^item> \<open>Job_Array\<close> (\<open>mbd.jarray.c\<close>, \<open>lsf/intlib/jidx.c\<close>, \<open>callex.c\<close>): 64-bit identifiers, the grammar of array
    indices with the stack bound of the generated parser, validation and expansion. Round trips, bounds,
    exactness and termination of the expansion.
  \<^item> \<open>Time_Window\<close> (\<open>lsf/intlib/window.c\<close>, \<open>mbd.window.c\<close>): window expressions with single precision hours and the
    cached status of a window. Adding a window is exact to the minute; the cache may be trusted until
    400 seconds before its edge, and a window that closes late is exhibited.
  \<^item> \<open>Dep_Cond\<close>, \<open>Dep_Parse\<close> (\<open>mbd.dep.c\<close>): evaluation is a three-valued logic although it skips operands; parsing
    and evaluating a parenthesised condition yields its meaning; the parser returns on every text outside
    \<open>time(...)\<close>. Wrong precedence, names that are not compared and an endless loop are proved as errors.
  \<^item> \<open>Job_Tree\<close>, \<open>Job_Counts\<close> (\<open>mbd.jgrp.c\<close>, with parts of \<open>mbd.jarray.c\<close> and \<open>mbd.job.c\<close>): the tree as \<open>parent\<close>,
    \<open>child\<close>, \<open>left\<close> and \<open>right\<close> pointers, related to a binary tree by \<open>tree_at\<close>. Clipping and freeing is safe for
    the observer that remembers a node; insertion and clipping are inverse. \<open>jg_reach\<close> is the set of states
    that submissions, status changes and removals of jobs and arrays produce: by rule induction all
    counters are exact there, and each handler returns and stays in the set.

  \<^bold>\<open>Conventions.\<close> \<open>None\<close> as the result of an operation is a null, dangling or out of range access, or a loop that
  does not return: loops over pointers and over text are \<open>partial_function (option)\<close> and that they return
  is proved with their effect. No fuel is used. Error codes of the program are values. Status words, bit masks
  and sizes of bit sets are 32-bit words and identifiers 64-bit words; numbers that users supply are reduced
  to 32 bits where they are computed with. The counters of slots and jobs are unbounded integers, since they are bounded by
  the number of jobs held in memory. Bit sets are shown correct below 2^27 words, where the number of
  positions fits in 32 bits; the program's largest set has \<open>MAX_GROUPS\<close> positions before it grows.

  \<^bold>\<open>Parameters.\<close> What the models need of code or data outside of them is an argument: the candidate hosts
  of a queue (\<open>usable_env\<close>), the callbacks of list observers, destructors and printing functions, the index
  functions of bit sets, the tables of jobs and groups a condition refers to (\<open>dep_env\<close>) with the byte that the
  precedence table is overrun by, and the offset of the local clock.

  \<^bold>\<open>Not modelled.\<close>

  \<^item> The choice of hosts and jobs (\<open>mbd.policy.c\<close>, \<open>mbd.fairshare.c\<close>, \<open>mbd.preempt.c\<close>): it depends on floating point load
    indices and on resource requirements evaluated by the Tcl interpreter, which is not part of the
    sources, in loops that stop on elapsed time.
  \<^item> The accounting entry points \<open>updSwitchJob\<close> and \<open>updResCounters\<close> (\<open>mbd.misc.c\<close>), for jobs that change their queue
    or reserve slots.
  \<^item> Requests, replies and the event log (\<open>mbd.serv.c\<close>, \<open>mbd.comm.c\<close>, \<open>mbd.log.c\<close>, the client library, the
    commands): sockets, XDR and files. Handlers appear where they change accounts and tree.
  \<^item> The construction of groups, hosts and resources from the configuration (\<open>mbd.grp.c\<close>, \<open>mbd.host.c\<close>,
    \<open>mbd.resource.c\<close>, \<open>lsb.conf.c\<close>): file formats and tables filled from the load information manager.
  \<^item> The slave daemon, the load information manager, the remote execution server and the process
    information manager: processes, signals, terminals, datagrams and timers.
  \<^item> Of the modelled components: messages to the log, the release of memory where no claim depends on it,
    path names and permissions of job groups, the queries that select job groups, and dumps.
\<close>

end
